(* ===== verification/Prelude.thy ===== *)
theory Prelude
  imports Main "HOL-Library.Word" "HOL-Library.AList"
begin

text \<open>
  Vocabulary shared by every component: the machine types of the Rust code, the clock
  (\<open>Instant\<close>, \<open>Duration\<close>), \<open>HashMap\<close> as an association list, the iterator and slice
  operations of the standard library the code calls (\<open>chunks\<close>, \<open>windows\<close>,
  \<open>Iterator::max_by\<close>, \<open>Vec::resize_with\<close>), and the generic lemmas about them.
\<close>

section \<open>Machine types\<close>

text \<open>
  A Rust \<open>u64\<close> whose arithmetic matters (identifiers, hashes, atomic counters) is a
  \<open>64 word\<close>, so \<open>fetch_add\<close> and \<open>fetch_sub\<close> wrap as they do in the code. A \<open>usize\<close> that only
  measures a collection held in memory is a \<^typ>\<open>nat\<close>. A Rust \<open>char\<close> is a Unicode scalar
  value, represented by the \<open>u32\<close> its \<open>Hash\<close> instance writes; a \<open>String\<close> whose characters
  are counted is a list of them. A \<open>String\<close> or \<open>[u8]\<close> that is only compared, concatenated or
  scanned bytewise is an Isabelle \<^typ>\<open>string\<close> (a list of bytes).
\<close>

type_synonym u8 = "8 word"
type_synonym u32 = "32 word"
type_synonym u64 = "64 word"
type_synonym uchar = "32 word"
type_synonym ustring = "uchar list"

text \<open>ASCII literals of the source as lists of scalar values.\<close>

definition ascii :: "string \<Rightarrow> ustring" where
  "ascii s = map of_char s"

text \<open>Increment without wrap-around.\<close>

lemma unat_add_one: "(x :: u64) \<noteq> - 1 \<Longrightarrow> unat (x + 1) = unat x + 1"
  using unatSuc [of x] minus_equation_iff [of x 1] by (auto simp: add.commute add_eq_0_iff)

lemma less_add_one: "(x :: u64) \<noteq> - 1 \<Longrightarrow> i < x \<Longrightarrow> i < x + 1"
  by (simp add: word_less_nat_alt unat_add_one)

lemma less_add_one_self: "(x :: u64) \<noteq> - 1 \<Longrightarrow> x < x + 1"
  by (simp add: word_less_nat_alt unat_add_one)

lemma unat_max_u64: "unat (- 1 :: u64) = 2 ^ 64 - 1"
  by (simp add: unsigned_minus_1_eq_mask mask_eq_exp_minus_1)

text \<open>Collections of facts: laws of hash maps and the component invariants.\<close>

named_theorems hashmap_simps
named_theorems invariant_intros

section \<open>Time\<close>

text \<open>
  \<open>std::time::Instant\<close> is a monotonic clock reading and \<open>Duration\<close> a span, both in
  nanoseconds. \<open>Instant\<close> implements \<open>Ord\<close>, which \<open>sort_by_key\<close> uses.
\<close>

datatype instant = Instant (nanos: nat)

instantiation instant :: linorder
begin

definition less_eq_instant :: "instant \<Rightarrow> instant \<Rightarrow> bool" where
  "less_eq_instant a b \<longleftrightarrow> nanos a \<le> nanos b"

definition less_instant :: "instant \<Rightarrow> instant \<Rightarrow> bool" where
  "less_instant a b \<longleftrightarrow> nanos a < nanos b"

instance
  by standard (auto simp: less_eq_instant_def less_instant_def intro: instant.expand)

end

type_synonym duration = nat

text \<open>\<open>Instant::duration_since\<close> saturates to zero when the argument is later.\<close>

definition duration_since :: "instant \<Rightarrow> instant \<Rightarrow> duration" where
  "duration_since now earlier = nanos now - nanos earlier"

definition secs :: "nat \<Rightarrow> duration" where
  "secs n = n * 1000000000"

section \<open>Hash maps\<close>

text \<open>
  A \<open>HashMap\<close> is an association list with distinct keys; its order stands for the iteration
  order, which Rust leaves unspecified. No theorem of the development fixes that order.
\<close>

type_synonym ('k, 'v) hashmap = "('k \<times> 'v) list"

abbreviation hm_ok :: "('k, 'v) hashmap \<Rightarrow> bool" where
  "hm_ok m \<equiv> distinct (map fst m)"

definition hm_get :: "('k, 'v) hashmap \<Rightarrow> 'k \<Rightarrow> 'v option" where
  "hm_get m k = map_of m k"

definition hm_insert :: "'k \<Rightarrow> 'v \<Rightarrow> ('k, 'v) hashmap \<Rightarrow> ('k, 'v) hashmap" where
  "hm_insert k v m = AList.update k v m"

definition hm_remove :: "'k \<Rightarrow> ('k, 'v) hashmap \<Rightarrow> ('k, 'v) hashmap" where
  "hm_remove k m = AList.delete k m"

text \<open>\<open>if let Some(v) = map.get_mut(&k) { ... }\<close>: change the value of a present key.\<close>

definition hm_modify :: "'k \<Rightarrow> ('v \<Rightarrow> 'v) \<Rightarrow> ('k, 'v) hashmap \<Rightarrow> ('k, 'v) hashmap" where
  "hm_modify k f m = (case hm_get m k of None \<Rightarrow> m | Some v \<Rightarrow> hm_insert k (f v) m)"

text \<open>\<open>map.retain(|k, v| ...)\<close>, whose closure may change the value before it decides: \<open>None\<close>
  drops the entry, \<open>Some v'\<close> keeps it with the value \<open>v'\<close>.\<close>

fun hm_retain :: "('k \<Rightarrow> 'v \<Rightarrow> 'v option) \<Rightarrow> ('k, 'v) hashmap \<Rightarrow> ('k, 'v) hashmap" where
  "hm_retain f [] = []"
| "hm_retain f ((k, v) # m) =
     (case f k v of None \<Rightarrow> hm_retain f m | Some v' \<Rightarrow> (k, v') # hm_retain f m)"

text \<open>\<open>iter.collect::<HashMap<_, _>>()\<close>: later entries overwrite earlier ones.\<close>

definition hm_collect :: "('k \<times> 'v) list \<Rightarrow> ('k, 'v) hashmap" where
  "hm_collect kvs = fold (\<lambda>(k, v). hm_insert k v) kvs []"

lemma hm_get_Nil [hashmap_simps]: "hm_get [] k = None"
  by (simp add: hm_get_def)

lemma hm_get_insert [hashmap_simps]:
  "hm_get (hm_insert k v m) k' = (if k' = k then Some v else hm_get m k')"
  by (simp add: hm_get_def hm_insert_def update_conv')

lemma hm_get_remove [hashmap_simps]:
  "hm_get (hm_remove k m) k' = (if k' = k then None else hm_get m k')"
  by (simp add: hm_get_def hm_remove_def delete_conv')

lemma hm_get_modify [hashmap_simps]:
  "hm_get (hm_modify k f m) k' = (if k' = k then map_option f (hm_get m k) else hm_get m k')"
  by (auto simp: hm_modify_def hm_get_insert split: option.splits)

lemma hm_retain_keys_subset: "fst ` set (hm_retain f m) \<subseteq> fst ` set m"
  by (induction f m rule: hm_retain.induct) (auto split: option.splits)

lemma hm_get_retain [hashmap_simps]:
  "hm_ok m \<Longrightarrow> hm_get (hm_retain f m) k = Option.bind (hm_get m k) (f k)"
proof (induction f m rule: hm_retain.induct)
  case (2 f k' v m)
  have "map_of (hm_retain f m) k' = None"
    using "2.prems" hm_retain_keys_subset [of f m] by (force simp: map_of_eq_None_iff)
  then show ?case
    using 2 by (auto simp: hm_get_def split: option.splits)
qed (simp add: hm_get_def)

lemma hm_ok_insert [hashmap_simps]: "hm_ok (hm_insert k v m) = hm_ok m"
  by (simp add: hm_insert_def update_keys)

lemma hm_ok_remove [hashmap_simps]: "hm_ok m \<Longrightarrow> hm_ok (hm_remove k m)"
  by (simp add: hm_remove_def distinct_delete)

lemma hm_ok_modify [hashmap_simps]: "hm_ok (hm_modify k f m) = hm_ok m"
  by (auto simp: hm_modify_def hm_ok_insert split: option.splits)

lemma hm_ok_retain [hashmap_simps]: "hm_ok m \<Longrightarrow> hm_ok (hm_retain f m)"
proof (induction f m rule: hm_retain.induct)
  case (2 f k v m)
  then show ?case
    using hm_retain_keys_subset [of f m] by (auto split: option.splits)
qed simp

lemma hm_get_eq_Some: "hm_ok m \<Longrightarrow> hm_get m k = Some v \<longleftrightarrow> (k, v) \<in> set m"
  by (simp add: hm_get_def)

lemma hm_get_None: "hm_get m k = None \<longleftrightarrow> k \<notin> fst ` set m"
  by (simp add: hm_get_def map_of_eq_None_iff)

lemma hm_keys_insert [hashmap_simps]: "fst ` set (hm_insert k v m) = insert k (fst ` set m)"
  using dom_update [of k v m] by (simp add: hm_insert_def image_image)

lemma hm_keys_remove [hashmap_simps]: "fst ` set (hm_remove k m) = fst ` set m - {k}"
  by (auto simp: hm_remove_def AList.delete_eq)

lemma hm_length_insert [hashmap_simps]:
  "hm_ok m \<Longrightarrow> length (hm_insert k v m) = (if hm_get m k = None then Suc (length m) else length m)"
  by (induction m) (auto simp: hm_insert_def hm_get_def split: if_splits)

lemma hm_length_remove [hashmap_simps]:
  "hm_ok m \<Longrightarrow> length (hm_remove k m) = (if hm_get m k = None then length m else length m - 1)"
proof -
  assume ok: "hm_ok m"
  have "length (hm_remove k m) = length (removeAll k (map fst m))"
    by (metis hm_remove_def delete_keys length_map)
  then show ?thesis
    using ok by (simp add: distinct_remove1_removeAll [symmetric] length_remove1 hm_get_None)
qed

lemma hm_length_retain: "length (hm_retain f m) \<le> length m"
  by (induction f m rule: hm_retain.induct) (auto split: option.splits)

lemma hm_length_card: "hm_ok m \<Longrightarrow> length m = card {k. hm_get m k \<noteq> None}"
proof -
  assume ok: "hm_ok m"
  have "{k. hm_get m k \<noteq> None} = set (map fst m)"
    by (auto simp: hm_get_None)
  then show ?thesis
    using distinct_card [OF ok] by simp
qed

lemma fold_hm_insert_distinct:
  "hm_ok (m @ kvs) \<Longrightarrow> fold (\<lambda>(k, v). hm_insert k v) kvs m = m @ kvs"
proof (induction kvs arbitrary: m)
  case (Cons kv kvs)
  obtain k v where kv: "kv = (k, v)" by (cases kv)
  have "AList.update k v m = m @ [(k, v)]"
    using Cons.prems kv by (induction m) auto
  then show ?case
    using Cons.IH [of "m @ [kv]"] Cons.prems kv by (simp add: hm_insert_def)
qed simp

lemma hm_collect_distinct: "hm_ok kvs \<Longrightarrow> hm_collect kvs = kvs"
  using fold_hm_insert_distinct [of "[]" kvs] by (simp add: hm_collect_def)

section \<open>Ordering and \<open>Iterator::max_by\<close>\<close>

datatype ordering = Less | Equal | Greater

definition cmp_of :: "'a::linorder \<Rightarrow> 'a \<Rightarrow> ordering" where
  "cmp_of a b = (if a < b then Less else if a = b then Equal else Greater)"

text \<open>\<open>Ordering::then_with\<close>.\<close>

fun then_with :: "ordering \<Rightarrow> ordering \<Rightarrow> ordering" where
  "then_with Equal c = c"
| "then_with Less c = Less"
| "then_with Greater c = Greater"

text \<open>\<open>max_by\<close> folds from the left and keeps the newcomer unless the champion is greater.\<close>

definition max_by :: "('a \<Rightarrow> 'a \<Rightarrow> ordering) \<Rightarrow> 'a list \<Rightarrow> 'a option" where
  "max_by cmp xs = (case xs of [] \<Rightarrow> None
     | y # ys \<Rightarrow> Some (foldl (\<lambda>a b. if cmp a b = Greater then a else b) y ys))"

lemma max_by_Nil [simp]: "max_by cmp [] = None"
  by (simp add: max_by_def)

lemma max_by_Cons [simp]:
  "max_by cmp (y # ys) = Some (foldl (\<lambda>a b. if cmp a b = Greater then a else b) y ys)"
  by (simp add: max_by_def)

lemma max_by_None [simp]: "max_by cmp xs = None \<longleftrightarrow> xs = []"
  by (cases xs) simp_all

lemma foldl_champion_in: "foldl (\<lambda>a b. if P a b then a else b) y ys \<in> insert y (set ys)"
proof (induction ys arbitrary: y)
  case (Cons a ys)
  then show ?case
    using Cons.IH [of "if P y a then y else a"] by (auto split: if_splits)
qed simp

lemma max_by_in: "max_by cmp xs = Some m \<Longrightarrow> m \<in> set xs"
  using foldl_champion_in [of "\<lambda>a b. cmp a b = Greater"] by (cases xs) auto

text \<open>
  The contract \<open>max_by\<close> needs of a comparator, on the values that really occur (\<open>ok\<close>): what
  \<open>Ord\<close> promises in Rust. Under it the result is a maximum.
\<close>

locale comparator =
  fixes ok :: "'a \<Rightarrow> bool"
    and cmp :: "'a \<Rightarrow> 'a \<Rightarrow> ordering"
  assumes cmp_refl: "ok a \<Longrightarrow> cmp a a = Equal"
    and cmp_antisym: "ok a \<Longrightarrow> ok b \<Longrightarrow> cmp a b = Greater \<longleftrightarrow> cmp b a = Less"
    and cmp_trans: "ok a \<Longrightarrow> ok b \<Longrightarrow> ok c \<Longrightarrow> cmp a b \<noteq> Greater \<Longrightarrow> cmp b c \<noteq> Greater \<Longrightarrow> cmp a c \<noteq> Greater"
begin

lemma cmp_total: "ok a \<Longrightarrow> ok b \<Longrightarrow> cmp a b \<noteq> Greater \<or> cmp b a \<noteq> Greater"
  using cmp_antisym by force

lemma foldl_champion_max:
  assumes "ok y" and "\<forall>x \<in> set ys. ok x" and "x \<in> insert y (set ys)"
  shows "cmp x (foldl (\<lambda>a b. if cmp a b = Greater then a else b) y ys) \<noteq> Greater"
  using assms
proof (induction ys arbitrary: y x)
  case Nil
  then show ?case by (simp add: cmp_refl)
next
  case (Cons z ys)
  let ?w = "if cmp y z = Greater then y else z"
  let ?r = "foldl (\<lambda>a b. if cmp a b = Greater then a else b) ?w ys"
  have w: "ok ?w" and r: "ok ?r"
    using Cons.prems foldl_champion_in [of "\<lambda>a b. cmp a b = Greater" ?w ys] by auto
  have step: "cmp v ?w \<noteq> Greater" if "v = y \<or> v = z" for v
    using that Cons.prems cmp_total [of y z] by (auto simp: cmp_refl)
  have "cmp ?w ?r \<noteq> Greater"
    using Cons.prems by (intro Cons.IH w) auto
  moreover have "cmp x ?r \<noteq> Greater" if "x \<in> set ys"
    using Cons.prems that by (intro Cons.IH w) auto
  ultimately have "cmp x ?r \<noteq> Greater"
    using Cons.prems step cmp_trans [of x ?w ?r] w r by auto
  then show ?case by simp
qed

lemma max_by_max:
  "max_by cmp xs = Some m \<Longrightarrow> \<forall>x \<in> set xs. ok x \<Longrightarrow> x \<in> set xs \<Longrightarrow> cmp x m \<noteq> Greater"
  using foldl_champion_max [of "hd xs" "tl xs" x] by (cases xs) auto

end

section \<open>Slices\<close>

text \<open>\<open>slice.chunks(n)\<close> for \<open>n \<ge> 1\<close> (the code never passes 0, for which Rust panics).\<close>

fun chunks :: "nat \<Rightarrow> 'a list \<Rightarrow> 'a list list" where
  "chunks n [] = []"
| "chunks n (x # xs) = take n (x # xs) # chunks n (drop (n - 1) xs)"

lemma chunks_unfold: "n > 0 \<Longrightarrow> xs \<noteq> [] \<Longrightarrow> chunks n xs = take n xs # chunks n (drop n xs)"
  by (cases xs; cases n) auto

lemma concat_chunks: "n > 0 \<Longrightarrow> concat (chunks n xs) = xs"
proof (induction n xs rule: chunks.induct)
  case (2 n x xs)
  then show ?case
    by (cases n) (simp_all add: append_take_drop_id)
qed simp

lemma length_chunks: "n > 0 \<Longrightarrow> length (chunks n xs) = (length xs + n - 1) div n"
proof (induction n xs rule: chunks.induct)
  case (2 n x xs)
  show ?case
  proof (cases "length xs < n")
    case True
    then have "drop (n - 1) xs = []" and "(Suc (length xs) + n - 1) div n = 1"
      using 2 by (auto simp: div_nat_eqI)
    then show ?thesis by simp
  next
    case False
    then have "length (x # xs) + n - 1 = length (drop (n - 1) xs) + n - 1 + n"
      using 2 by simp
    then have "(length (x # xs) + n - 1) div n = Suc ((length (drop (n - 1) xs) + n - 1) div n)"
      using 2 by (simp only: div_add_self2)
    then show ?thesis using 2 by simp
  qed
qed simp

lemma chunks_append: "n > 0 \<Longrightarrow> length xs = k * n \<Longrightarrow> chunks n (xs @ ys) = chunks n xs @ chunks n ys"
proof (induction k arbitrary: xs)
  case (Suc k)
  then have ne: "xs \<noteq> []" and len: "length (drop n xs) = k * n" and le: "n \<le> length xs"
    by auto
  have "chunks n (xs @ ys) = take n xs # chunks n (drop n xs @ ys)"
    using Suc.prems ne le by (simp add: chunks_unfold [of n "xs @ ys"])
  also have "\<dots> = take n xs # chunks n (drop n xs) @ chunks n ys"
    using Suc.IH [OF _ len] Suc.prems by simp
  finally show ?case
    using Suc.prems ne by (simp add: chunks_unfold [of n xs])
qed simp

text \<open>\<open>slice.windows(n)\<close>: every contiguous run of \<open>n\<close> elements.\<close>

definition windows :: "nat \<Rightarrow> 'a list \<Rightarrow> 'a list list" where
  "windows n xs = map (\<lambda>i. take n (drop i xs)) [0..<length xs + 1 - n]"

lemma set_windows: "w \<in> set (windows n xs) \<longleftrightarrow> length w = n \<and> (\<exists>us vs. xs = us @ w @ vs)"
proof
  assume "w \<in> set (windows n xs)"
  then obtain i where "i < length xs + 1 - n" and w: "w = take n (drop i xs)"
    by (auto simp only: windows_def set_map set_upt image_iff atLeastLessThan_iff)
  then have i: "i + n \<le> length xs" by simp
  have "xs = take i xs @ w @ drop n (drop i xs)"
    unfolding w by (simp only: append_take_drop_id)
  with i w show "length w = n \<and> (\<exists>us vs. xs = us @ w @ vs)"
    by auto
next
  assume "length w = n \<and> (\<exists>us vs. xs = us @ w @ vs)"
  then obtain us vs where "length w = n" and "xs = us @ w @ vs" by auto
  then have "length us \<in> set [0..<length xs + 1 - n]" and "take n (drop (length us) xs) = w"
    by auto
  then show "w \<in> set (windows n xs)"
    unfolding windows_def by force
qed

text \<open>How often \<open>pat\<close> occurs as a contiguous run; runs that straddle a cut are not in either part.\<close>

definition occurrences :: "'a list \<Rightarrow> 'a list \<Rightarrow> nat" where
  "occurrences pat xs = length (filter (\<lambda>w. w = pat) (windows (length pat) xs))"

definition occurs_at :: "'a list \<Rightarrow> 'a list \<Rightarrow> nat \<Rightarrow> bool" where
  "occurs_at pat xs i \<longleftrightarrow> i + length pat \<le> length xs \<and> take (length pat) (drop i xs) = pat"

lemma finite_occurs: "finite {i. occurs_at pat xs i}"
  by (rule finite_subset [of _ "{..length xs}"]) (auto simp: occurs_at_def)

lemma occurrences_card:
  assumes "pat \<noteq> []"
  shows "occurrences pat xs = card {i. occurs_at pat xs i}"
proof -
  have len: "length (windows n xs) = length xs + 1 - n" for n :: nat by (simp add: windows_def)
  have nth: "windows n xs ! i = take n (drop i xs)" if "i < length xs + 1 - n" for n i
    using that unfolding windows_def by (simp del: upt_Suc)
  have "i < length xs + 1 - length pat \<longleftrightarrow> i + length pat \<le> length xs" for i
    using assms by (cases pat) auto
  then have "(i < length (windows (length pat) xs) \<and> windows (length pat) xs ! i = pat) = occurs_at pat xs i" for i
    unfolding occurs_at_def len using nth by metis
  then show ?thesis by (simp add: occurrences_def length_filter_conv_card)
qed

lemma occurs_at_append:
  "occurs_at pat xs i \<Longrightarrow> occurs_at pat (xs @ ys) i"
  "occurs_at pat ys i \<Longrightarrow> occurs_at pat (xs @ ys) (i + length xs)"
  by (simp_all add: occurs_at_def)

lemma occurrences_append:
  assumes "pat \<noteq> []"
  shows "occurrences pat xs + occurrences pat ys \<le> occurrences pat (xs @ ys)"
proof -
  let ?A = "{i. occurs_at pat xs i}" and ?B = "(\<lambda>i. i + length xs) ` {i. occurs_at pat ys i}"
  have "i < length xs" if "i \<in> ?A" for i using that assms by (cases pat) (auto simp: occurs_at_def)
  then have "?A \<inter> ?B = {}" by fastforce
  then have "card (?A \<union> ?B) = card ?A + card ?B"
    by (intro card_Un_disjoint finite_imageI finite_occurs)
  moreover have "card ?B = card {i. occurs_at pat ys i}"
    by (rule card_image) (simp add: inj_on_def)
  moreover have "card (?A \<union> ?B) \<le> card {i. occurs_at pat (xs @ ys) i}"
    by (rule card_mono [OF finite_occurs]) (auto intro: occurs_at_append)
  ultimately show ?thesis by (simp add: occurrences_card [OF assms])
qed

lemma occurrences_concat: "pat \<noteq> [] \<Longrightarrow> sum_list (map (occurrences pat) cs) \<le> occurrences pat (concat cs)"
proof (induction cs)
  case (Cons c cs)
  then show ?case using occurrences_append [of pat c "concat cs"] by simp
qed simp

lemma occurrences_pos: "0 < occurrences pat xs \<longleftrightarrow> list_ex (\<lambda>w. w = pat) (windows (length pat) xs)"
  by (auto simp: occurrences_def list_ex_iff filter_empty_conv)

lemma occurrences_self: "0 < occurrences pat (pat @ ys)"
proof -
  have "pat \<in> set (windows (length pat) (pat @ ys))"
    unfolding set_windows by (metis append_Nil)
  then show ?thesis unfolding occurrences_pos list_ex_iff by blast
qed

text \<open>\<open>str::trim_end_matches\<close> with a single character.\<close>

definition trim_end_matches :: "'a \<Rightarrow> 'a list \<Rightarrow> 'a list" where
  "trim_end_matches c s = rev (dropWhile (\<lambda>x. x = c) (rev s))"

text \<open>\<open>Display\<close> for an unsigned integer: its decimal digits.\<close>

definition digit :: "nat \<Rightarrow> char" where
  "digit d = char_of (48 + d)"

function show_nat :: "nat \<Rightarrow> string" where
  "show_nat n = (if n < 10 then [digit n] else show_nat (n div 10) @ [digit (n mod 10)])"
  by pat_completeness auto
termination
  by (relation "measure id") auto

declare show_nat.simps [simp del]

lemma digit_simps:
  "digit 0 = CHR ''0''" "digit (Suc 0) = CHR ''1''" "digit 2 = CHR ''2''" "digit 3 = CHR ''3''"
  "digit 4 = CHR ''4''" "digit 5 = CHR ''5''" "digit 6 = CHR ''6''" "digit 7 = CHR ''7''"
  "digit 8 = CHR ''8''" "digit 9 = CHR ''9''"
  by code_simp+

lemma of_char_digit: "n < 10 \<Longrightarrow> (of_char (digit n) :: nat) = 48 + n"
  by (simp add: digit_def)

lemma show_nat_digits:
  "show_nat n \<noteq> [] \<and> list_all (\<lambda>c. 48 \<le> (of_char c :: nat) \<and> (of_char c :: nat) \<le> 57) (show_nat n)
     \<and> foldl (\<lambda>n c. 10 * n + (of_char c - 48)) 0 (show_nat n) = n"
proof (induction n rule: show_nat.induct)
  case (1 n)
  show ?case
  proof (cases "n < 10")
    case True
    then show ?thesis by (simp add: show_nat.simps [of n] of_char_digit)
  next
    case False
    then show ?thesis
      using 1 by (simp add: show_nat.simps [of n] of_char_digit)
  qed
qed

text \<open>A fallible result of the code: \<open>Result<T, E>\<close> is \<open>'e + 't\<close> with the error on the left.\<close>

abbreviation is_ok :: "'e + 'a \<Rightarrow> bool" where
  "is_ok r \<equiv> \<not> isl r"

end
