(* ===== verification/F64.thy ===== *)
theory F64
  imports Prelude Complex_Main "HOL-Library.Log_Nat"
begin

text \<open>
  The \<open>f64\<close> of Rust, an IEEE 754 binary64: finite values as rationals with round to nearest,
  ties to even, the two zeros, the infinities and NaN (payloads are not distinguished). It
  holds the operations the router uses: conversion from integers, \<open>+\<close>, \<open>-\<close>, \<open>*\<close>, \<open>/\<close>,
  \<open>partial_cmp\<close>, \<open>is_finite\<close>, and the monotonicity and exactness of rounding on which the
  score lemmas rest.
\<close>

section \<open>Rounding\<close>

text \<open>The binary exponent of a positive rational: \<open>2 powi e \<le> x < 2 powi (e + 1)\<close>.\<close>

definition exponent :: "rat \<Rightarrow> int" where
  "exponent x = (let (p, q) = quotient_of x; k = bitlen p - bitlen q
     in if 2 powi k \<le> x then k else k - 1)"

text \<open>Round to the nearest integer, ties to even.\<close>

definition round_half_even :: "rat \<Rightarrow> int" where
  "round_half_even q = (let f = \<lfloor>q\<rfloor>; d = q - of_int f
     in if d < 1 / 2 then f else if d > 1 / 2 then f + 1 else if even f then f else f + 1)"

text \<open>The exponent of the last place of a 53-bit significand, subnormals included.\<close>

definition ulp_exp :: "rat \<Rightarrow> int" where
  "ulp_exp x = max (exponent x - 52) (- 1074)"

definition round_mag :: "rat \<Rightarrow> rat" where
  "round_mag x = (if x \<le> 0 then 0
     else of_int (round_half_even (x / 2 powi ulp_exp x)) * 2 powi ulp_exp x)"

text \<open>Rounding with an unbounded exponent range, symmetric in the sign.\<close>

definition rnd :: "rat \<Rightarrow> rat" where
  "rnd x = (if x < 0 then - round_mag (- x) else round_mag x)"

section \<open>Values and operations\<close>

datatype f64 = NaN | PInf | NInf | NZero | Fin rat

definition pos_zero :: f64 where
  "pos_zero = Fin 0"

text \<open>The correctly rounded result of an exact value; \<open>neg\<close> is the sign of an exact zero.\<close>

definition f64_round :: "bool \<Rightarrow> rat \<Rightarrow> f64" where
  "f64_round neg x = (let r = rnd x in
     if 2 ^ 1024 \<le> r then PInf
     else if r \<le> - (2 ^ 1024) then NInf
     else if r = 0 then (if x < 0 \<or> x = 0 \<and> neg then NZero else Fin 0)
     else Fin r)"

fun f64_neg :: "f64 \<Rightarrow> f64" where
  "f64_neg NaN = NaN"
| "f64_neg PInf = NInf"
| "f64_neg NInf = PInf"
| "f64_neg NZero = Fin 0"
| "f64_neg (Fin r) = (if r = 0 then NZero else Fin (- r))"

fun is_finite :: "f64 \<Rightarrow> bool" where
  "is_finite NZero = True"
| "is_finite (Fin r) = True"
| "is_finite _ = False"

fun fval :: "f64 \<Rightarrow> rat" where
  "fval (Fin r) = r"
| "fval _ = 0"

fun sign_bit :: "f64 \<Rightarrow> bool" where
  "sign_bit NInf = True"
| "sign_bit NZero = True"
| "sign_bit (Fin r) = (r < 0)"
| "sign_bit _ = False"

definition signed_inf :: "bool \<Rightarrow> f64" where
  "signed_inf neg = (if neg then NInf else PInf)"

definition f64_mul :: "f64 \<Rightarrow> f64 \<Rightarrow> f64" where
  "f64_mul a b =
     (if a = NaN \<or> b = NaN then NaN
      else let s = (sign_bit a \<noteq> sign_bit b) in
      if is_finite a \<and> is_finite b then f64_round s (fval a * fval b)
      else if is_finite a \<and> fval a = 0 \<or> is_finite b \<and> fval b = 0 then NaN
      else signed_inf s)"

definition f64_add :: "f64 \<Rightarrow> f64 \<Rightarrow> f64" where
  "f64_add a b =
     (if a = NaN \<or> b = NaN then NaN
      else if is_finite a \<and> is_finite b then f64_round (a = NZero \<and> b = NZero) (fval a + fval b)
      else if is_finite a then b
      else if is_finite b then a
      else if a = b then a else NaN)"

definition f64_sub :: "f64 \<Rightarrow> f64 \<Rightarrow> f64" where
  "f64_sub a b = f64_add a (f64_neg b)"

definition f64_div :: "f64 \<Rightarrow> f64 \<Rightarrow> f64" where
  "f64_div a b =
     (if a = NaN \<or> b = NaN then NaN
      else let s = (sign_bit a \<noteq> sign_bit b) in
      if is_finite b then
        (if fval b = 0 then (if is_finite a \<and> fval a = 0 then NaN else signed_inf s)
         else if is_finite a then f64_round s (fval a / fval b) else signed_inf s)
      else if is_finite a then f64_round s 0 else NaN)"

text \<open>\<open>n as f64\<close> for an unsigned integer.\<close>

definition f64_of_nat :: "nat \<Rightarrow> f64" where
  "f64_of_nat n = f64_round False (of_nat n)"

fun partial_cmp :: "f64 \<Rightarrow> f64 \<Rightarrow> ordering option" where
  "partial_cmp NaN b = None"
| "partial_cmp a NaN = None"
| "partial_cmp PInf PInf = Some Equal"
| "partial_cmp NInf NInf = Some Equal"
| "partial_cmp PInf b = Some Greater"
| "partial_cmp NInf b = Some Less"
| "partial_cmp a PInf = Some Less"
| "partial_cmp a NInf = Some Greater"
| "partial_cmp a b = Some (cmp_of (fval a) (fval b))"

section \<open>Rounding is monotone and exact on representable values\<close>

lemma exponent_bounds:
  assumes "x > 0"
  shows "2 powi exponent x \<le> x" and "x < 2 powi (exponent x + 1)"
proof -
  obtain p q where pq: "quotient_of x = (p, q)" by fastforce
  have q: "q > 0" and x: "x = of_int p / of_int q"
    using pq quotient_of_denom_pos quotient_of_div by blast+
  have p: "p > 0"
    using assms q x by (simp add: zero_less_divide_iff)
  let ?k = "bitlen p - bitlen q"
  have bp: "bitlen p \<ge> 1" and bq: "bitlen q \<ge> 1"
    using p q bitlen_eq_zero_iff [of p] bitlen_eq_zero_iff [of q] bitlen_nonneg [of p]
      bitlen_nonneg [of q] by linarith+
  have low: "2 powi (bitlen n - 1) \<le> (of_int n :: rat)"
    and high: "(of_int n :: rat) < 2 powi bitlen n" if "n > 0" "bitlen n \<ge> 1" for n
  proof -
    have "2 ^ nat (bitlen n - 1) \<le> n \<and> n < 2 ^ nat (bitlen n)"
      using that by (intro bitlen_bounds)
    then have "(2::rat) ^ nat (bitlen n - 1) \<le> of_int n \<and> (of_int n :: rat) < 2 ^ nat (bitlen n)"
      by (metis of_int_less_iff of_int_le_iff of_int_power of_int_numeral)
    then show "2 powi (bitlen n - 1) \<le> (of_int n :: rat)" and "(of_int n :: rat) < 2 powi bitlen n"
      using that by (auto simp: power_int_nonneg_exp)
  qed
  have "2 powi (?k - 1) * of_int q < (2::rat) powi (?k - 1) * 2 powi bitlen q"
    using high [OF q bq] by simp
  also have "\<dots> = 2 powi (bitlen p - 1)"
    by (simp flip: power_int_add)
  also have "\<dots> \<le> of_int p" by (rule low [OF p bp])
  finally have lo: "2 powi (?k - 1) < x"
    unfolding x using q by (simp add: pos_less_divide_eq)
  have "of_int p < (2::rat) powi bitlen p" by (rule high [OF p bp])
  also have "\<dots> = 2 powi (?k + 1) * 2 powi (bitlen q - 1)"
    by (simp flip: power_int_add)
  also have "\<dots> \<le> 2 powi (?k + 1) * of_int q"
    using low [OF q bq] by simp
  finally have hi: "x < 2 powi (?k + 1)"
    unfolding x using q by (simp add: pos_divide_less_eq)
  have e: "exponent x = (if 2 powi ?k \<le> x then ?k else ?k - 1)"
    by (simp add: exponent_def pq Let_def)
  show "2 powi exponent x \<le> x" and "x < 2 powi (exponent x + 1)"
    using lo hi by (auto simp: e)
qed

lemma powi2_mono: "(a::int) \<le> b \<Longrightarrow> (2::rat) powi a \<le> 2 powi b"
  by (simp add: power_int_increasing)

lemma powi2_less_imp_le: "(2::rat) powi a < 2 powi (b + 1) \<Longrightarrow> a \<le> b"
  using powi2_mono [of "b + 1" a] by force

lemma exponent_le_iff: "x > 0 \<Longrightarrow> x < 2 powi (e + 1) \<Longrightarrow> exponent x \<le> e"
  using exponent_bounds(1) [of x] powi2_less_imp_le [of "exponent x" e] by linarith

lemma exponent_mono: "0 < x \<Longrightarrow> x \<le> y \<Longrightarrow> exponent x \<le> exponent y"
  using exponent_bounds(2) [of y] by (intro exponent_le_iff) auto

lemma round_half_even_cases: "round_half_even q = \<lfloor>q\<rfloor> \<or> round_half_even q = \<lfloor>q\<rfloor> + 1"
  by (simp add: round_half_even_def Let_def)

lemma round_half_even_of_int [simp]: "round_half_even (of_int n) = n"
  by (simp add: round_half_even_def)

lemma round_half_even_mono:
  assumes "p \<le> q"
  shows "round_half_even p \<le> round_half_even q"
proof (cases "\<lfloor>p\<rfloor> = \<lfloor>q\<rfloor>")
  case True
  then have "p - of_int \<lfloor>p\<rfloor> \<le> q - of_int \<lfloor>p\<rfloor>" using assms by simp
  then show ?thesis
    by (simp add: round_half_even_def Let_def True [symmetric])
next
  case False
  then have "\<lfloor>p\<rfloor> + 1 \<le> \<lfloor>q\<rfloor>" using floor_mono [OF assms] by simp
  then show ?thesis
    using round_half_even_cases [of p] round_half_even_cases [of q] by linarith
qed

text \<open>A value representable with \<open>n\<close> units of the last place is not changed.\<close>

lemma round_half_even_scaled_le:
  assumes "x \<le> of_int n * 2 powi e"
  shows "of_int (round_half_even (x / 2 powi e)) * (2::rat) powi e \<le> of_int n * 2 powi e"
proof -
  have "x / 2 powi e \<le> of_int n"
    using assms by (simp add: pos_divide_le_eq)
  then have "round_half_even (x / 2 powi e) \<le> n"
    using round_half_even_mono [of "x / 2 powi e" "of_int n"] by simp
  then have "(of_int (round_half_even (x / 2 powi e)) :: rat) \<le> of_int n"
    by (simp only: of_int_le_iff)
  then show ?thesis by (rule mult_right_mono) simp
qed

lemma round_half_even_scaled_ge:
  assumes "of_int n * 2 powi e \<le> x"
  shows "of_int n * 2 powi e \<le> of_int (round_half_even (x / 2 powi e)) * (2::rat) powi e"
proof -
  have "of_int n \<le> x / 2 powi e"
    using assms by (simp add: pos_le_divide_eq)
  then have "n \<le> round_half_even (x / 2 powi e)"
    using round_half_even_mono [of "of_int n" "x / 2 powi e"] by simp
  then have "of_int n \<le> (of_int (round_half_even (x / 2 powi e)) :: rat)"
    by (simp only: of_int_le_iff)
  then show ?thesis by (rule mult_right_mono) simp
qed

lemma powi2_split: "b \<le> (a::int) \<Longrightarrow> (2::rat) powi a = of_int (2 ^ nat (a - b)) * 2 powi b"
proof -
  assume "b \<le> a"
  then have "(of_int (2 ^ nat (a - b)) :: rat) = 2 powi (a - b)"
    by (simp add: power_int_nonneg_exp)
  then show ?thesis
    by (simp flip: power_int_add)
qed

lemma round_mag_nonneg: "0 \<le> round_mag x"
proof (cases "x \<le> 0")
  case False
  have "of_int 0 * 2 powi ulp_exp x \<le> of_int (round_half_even (x / 2 powi ulp_exp x)) * (2::rat) powi ulp_exp x"
    using False by (intro round_half_even_scaled_ge) simp
  then show ?thesis using False by (simp add: round_mag_def)
qed (simp add: round_mag_def)

lemma round_mag_mono:
  assumes "x \<le> y"
  shows "round_mag x \<le> round_mag y"
proof (cases "x \<le> 0")
  case True
  then show ?thesis using round_mag_nonneg [of y] by (simp add: round_mag_def)
next
  case False
  then have x: "0 < x" and y: "0 < y" using assms by auto
  have le: "ulp_exp x \<le> ulp_exp y"
    using exponent_mono [OF x assms] by (simp add: ulp_exp_def)
  show ?thesis
  proof (cases "ulp_exp x = ulp_exp y")
    case True
    have "x / 2 powi ulp_exp y \<le> y / 2 powi ulp_exp y"
      using assms by (simp add: divide_right_mono)
    then have "round_half_even (x / 2 powi ulp_exp y) \<le> round_half_even (y / 2 powi ulp_exp y)"
      by (rule round_half_even_mono)
    then show ?thesis
      using x y True by (simp add: round_mag_def)
  next
    case False
    with le have lt: "ulp_exp x < ulp_exp y" by simp
    then have ey: "ulp_exp y = exponent y - 52" and ex: "exponent x + 1 \<le> exponent y"
      by (auto simp: ulp_exp_def)
    let ?b = "(2::rat) powi exponent y"
    have "x \<le> ?b"
      using exponent_bounds(2) [OF x] powi2_mono [OF ex] by linarith
    moreover have split: "?b = of_int (2 ^ nat (exponent y - ulp_exp x)) * 2 powi ulp_exp x"
      using lt ey by (intro powi2_split) simp
    ultimately have "round_mag x \<le> ?b"
      using x round_half_even_scaled_le by (simp add: round_mag_def)
    have split': "?b = of_int (2 ^ nat (exponent y - ulp_exp y)) * 2 powi ulp_exp y"
      using ey by (intro powi2_split) simp
    then have "?b \<le> round_mag y"
      using y exponent_bounds(1) [OF y]
        round_half_even_scaled_ge [of "2 ^ nat (exponent y - ulp_exp y)" "ulp_exp y" y]
      by (simp add: round_mag_def)
    with \<open>round_mag x \<le> ?b\<close> show ?thesis by simp
  qed
qed

lemma rnd_mono: "x \<le> y \<Longrightarrow> rnd x \<le> rnd y"
  using round_mag_mono [of x y] round_mag_mono [of "- y" "- x"]
    round_mag_nonneg [of "- x"] round_mag_nonneg [of y]
  by (auto simp: rnd_def)

lemma rnd_0 [simp]: "rnd 0 = 0"
  by (simp add: rnd_def round_mag_def)

lemma rnd_nonneg: "0 \<le> x \<Longrightarrow> 0 \<le> rnd x"
  using rnd_mono [of 0 x] by simp

lemma rnd_uminus: "rnd (- x) = - rnd x"
  by (auto simp: rnd_def round_mag_def)

text \<open>Values \<open>n * 2 powi e\<close> with a significand of at most 53 bits are represented exactly.\<close>

lemma round_mag_exact:
  assumes "0 \<le> n" and "n \<le> 2 ^ 53" and "- 1074 \<le> e"
  shows "round_mag (of_int n * 2 powi e) = of_int n * 2 powi e"
proof (cases "n = 0")
  case False
  let ?x = "(of_int n :: rat) * 2 powi e"
  have n: "0 < n" and x: "0 < ?x" using assms False by auto
  show ?thesis
  proof (cases "ulp_exp ?x \<le> e")
    case True
    let ?u = "ulp_exp ?x"
    have eq: "?x = of_int (n * 2 ^ nat (e - ?u)) * 2 powi ?u"
      using powi2_split [OF True] by simp
    have "?x / 2 powi ?u = of_int (n * 2 ^ nat (e - ?u))"
      using eq by (metis nonzero_mult_div_cancel_right power_int_eq_0_iff zero_neq_numeral)
    then have "round_half_even (?x / 2 powi ?u) = n * 2 ^ nat (e - ?u)"
      by (simp only: round_half_even_of_int)
    then have "round_mag ?x = of_int (n * 2 ^ nat (e - ?u)) * 2 powi ?u"
      using x by (simp add: round_mag_def)
    also have "\<dots> = ?x" by (rule eq [symmetric])
    finally show ?thesis .
  next
    case False
    then have u: "e < ulp_exp ?x" and ux: "ulp_exp ?x = exponent ?x - 52"
      using assms by (auto simp: ulp_exp_def)
    have "(of_int n :: rat) \<le> 2 ^ 53"
      using assms(2) by (metis of_int_le_iff of_int_numeral of_int_power)
    then have "?x \<le> 2 ^ 53 * 2 powi e" by (rule mult_right_mono) simp
    also have "\<dots> = 2 powi (e + 53)" by (simp add: power_int_add)
    finally have xle: "?x \<le> 2 powi (e + 53)" .
    with exponent_bounds(1) [OF x] have "(2::rat) powi exponent ?x \<le> 2 powi (e + 53)"
      by linarith
    also have "(2::rat) powi (e + 53) < 2 powi (e + 53 + 1)"
      by (simp add: power_int_add)
    finally have "exponent ?x \<le> e + 53" by (rule powi2_less_imp_le)
    with u ux have eq: "exponent ?x = e + 53" by simp
    then have "?x = 2 powi (e + 53)"
      using exponent_bounds(1) [OF x] xle by simp
    moreover have "(2::rat) powi (e + 53) = of_int (2 ^ 52) * 2 powi ulp_exp ?x"
      using powi2_split [of "ulp_exp ?x" "e + 53"] ux eq by simp
    ultimately have xeq: "?x = of_int (2 ^ 52) * 2 powi ulp_exp ?x" by simp
    then have "?x / 2 powi ulp_exp ?x = of_int (2 ^ 52)"
      by (metis nonzero_mult_div_cancel_right power_int_eq_0_iff zero_neq_numeral)
    then have "round_half_even (?x / 2 powi ulp_exp ?x) = 2 ^ 52"
      by (simp only: round_half_even_of_int)
    then show ?thesis
      using x xeq by (simp add: round_mag_def)
  qed
qed (simp add: round_mag_def)

lemma rnd_exact:
  assumes "\<bar>n\<bar> \<le> 2 ^ 53" and "- 1074 \<le> e"
  shows "rnd (of_int n * 2 powi e) = of_int n * 2 powi e"
proof (cases "0 \<le> n")
  case True
  then have "\<not> of_int n * (2::rat) powi e < 0"
    by (simp add: not_less)
  then show ?thesis
    using round_mag_exact [of n e] assms True by (simp add: rnd_def)
next
  case False
  then have "of_int n * (2::rat) powi e < 0"
    by (simp add: mult_neg_pos)
  then show ?thesis
    using round_mag_exact [of "- n" e] assms False by (simp add: rnd_def)
qed

section \<open>The operations on finite values in range\<close>

lemma rnd_exact_int: "\<bar>n\<bar> \<le> 2 ^ 53 \<Longrightarrow> rnd (of_int n) = of_int n"
  using rnd_exact [of n 0] by simp

lemma rnd_exact_nat: "n \<le> 2 ^ 53 \<Longrightarrow> rnd (of_nat n) = of_nat n"
  using rnd_exact_int [of "int n"] by simp

lemma rnd_exact_half: "\<bar>n\<bar> \<le> 2 ^ 53 \<Longrightarrow> rnd (of_int n / 2) = of_int n / 2"
proof -
  assume n: "\<bar>n\<bar> \<le> 2 ^ 53"
  have "of_int n * (2::rat) powi (- 1) = of_int n / 2"
    by (simp add: power_int_def)
  then show ?thesis
    using rnd_exact [OF n, of "- 1"] by simp
qed

lemma rnd_exact_pow2: "rnd (2 ^ k) = 2 ^ k"
  using rnd_exact [of 1 "int k"] by (simp add: power_int_nonneg_exp)

lemma rnd_abs_le: "\<bar>x\<bar> \<le> 2 ^ k \<Longrightarrow> \<bar>rnd x\<bar> \<le> 2 ^ k"
  using rnd_mono [of x "2 ^ k"] rnd_mono [of "- (2 ^ k)" x] rnd_exact_pow2 [of k]
    rnd_uminus [of "2 ^ k"]
  by (simp add: abs_le_iff)

lemma f64_round_in_range:
  assumes "\<bar>x\<bar> \<le> 2 ^ 1023"
  shows "is_finite (f64_round s x)" and "fval (f64_round s x) = rnd x"
    and "x < 0 \<or> f64_round s x \<noteq> NZero \<or> s"
proof -
  have "\<bar>rnd x\<bar> < 2 ^ 1024"
    using rnd_abs_le [OF assms] by (rule le_less_trans) simp
  then have lt: "\<not> 2 ^ 1024 \<le> rnd x" "\<not> rnd x \<le> - (2 ^ 1024)"
    by (simp_all add: abs_less_iff not_le)
  show "is_finite (f64_round s x)" and "fval (f64_round s x) = rnd x"
    and "x < 0 \<or> f64_round s x \<noteq> NZero \<or> s"
    using lt by (auto simp: f64_round_def Let_def)
qed

lemma is_finite_not_NaN: "is_finite a \<Longrightarrow> a \<noteq> NaN"
  by (cases a) auto

lemma f64_of_nat_finite:
  assumes "n \<le> 2 ^ 64"
  shows "is_finite (f64_of_nat n)" and "fval (f64_of_nat n) = rnd (of_nat n)"
    and "0 \<le> fval (f64_of_nat n)" and "fval (f64_of_nat n) \<le> 2 ^ 64"
proof -
  have le: "\<bar>of_nat n :: rat\<bar> \<le> 2 ^ 64"
    using assms by (metis abs_of_nat of_nat_le_iff of_nat_numeral of_nat_power)
  then have "\<bar>of_nat n :: rat\<bar> \<le> 2 ^ 1023"
    by (rule order_trans) simp
  from f64_round_in_range [OF this]
  show "is_finite (f64_of_nat n)" and eq: "fval (f64_of_nat n) = rnd (of_nat n)"
    by (simp_all add: f64_of_nat_def)
  show "0 \<le> fval (f64_of_nat n)" and "fval (f64_of_nat n) \<le> 2 ^ 64"
    using rnd_nonneg [of "of_nat n"] rnd_abs_le [OF le] by (simp_all add: eq)
qed

lemma f64_of_nat_mono:
  assumes "m \<le> n" and "n \<le> 2 ^ 64"
  shows "fval (f64_of_nat m) \<le> fval (f64_of_nat n)"
  using assms f64_of_nat_finite(2) [of m] f64_of_nat_finite(2) [of n]
    rnd_mono [of "of_nat m" "of_nat n"] by simp

lemma f64_of_nat_exact: "n \<le> 2 ^ 53 \<Longrightarrow> f64_of_nat n = Fin (of_nat n)"
proof -
  assume n: "n \<le> 2 ^ 53"
  then have "(of_nat n :: rat) \<le> 2 ^ 53"
    by (metis of_nat_le_iff of_nat_numeral of_nat_power)
  also have "(2::rat) ^ 53 < 2 ^ 1024" by simp
  finally have lt: "\<not> 2 ^ 1024 \<le> (of_nat n :: rat)" by simp
  have "\<not> (of_nat n :: rat) \<le> - (2 ^ 1024)"
    by (simp add: not_le less_le_trans [of _ 0])
  with lt n show ?thesis
    by (simp add: f64_of_nat_def f64_round_def rnd_exact_nat Let_def)
qed

lemma f64_mul_finite:
  assumes "is_finite a" and "is_finite b" and "\<bar>fval a * fval b\<bar> \<le> 2 ^ 1023"
  shows "is_finite (f64_mul a b)" and "fval (f64_mul a b) = rnd (fval a * fval b)"
  using assms f64_round_in_range [OF assms(3)]
  by (auto simp: f64_mul_def Let_def dest: is_finite_not_NaN)

lemma f64_neg_finite [simp]: "is_finite (f64_neg a) = is_finite a" "fval (f64_neg a) = - fval a"
  by (cases a; simp)+

lemma f64_neg_NaN [simp]: "f64_neg a = NaN \<longleftrightarrow> a = NaN"
  by (cases a) auto

lemma f64_add_finite:
  assumes "is_finite a" and "is_finite b" and "\<bar>fval a + fval b\<bar> \<le> 2 ^ 1023"
  shows "is_finite (f64_add a b)" and "fval (f64_add a b) = rnd (fval a + fval b)"
  using assms f64_round_in_range [OF assms(3)]
  by (auto simp: f64_add_def dest: is_finite_not_NaN)

lemma f64_sub_finite:
  assumes "is_finite a" and "is_finite b" and "\<bar>fval a - fval b\<bar> \<le> 2 ^ 1023"
  shows "is_finite (f64_sub a b)" and "fval (f64_sub a b) = rnd (fval a - fval b)"
  using f64_add_finite [of a "f64_neg b"] assms by (simp_all add: f64_sub_def)

section \<open>\<open>partial_cmp\<close> orders everything but NaN\<close>

lemma partial_cmp_finite:
  "is_finite a \<Longrightarrow> is_finite b \<Longrightarrow> partial_cmp a b = Some (cmp_of (fval a) (fval b))"
  by (cases a; cases b) auto

lemma partial_cmp_None: "partial_cmp a b = None \<longleftrightarrow> a = NaN \<or> b = NaN"
  by (cases a; cases b) auto

lemma partial_cmp_refl: "a \<noteq> NaN \<Longrightarrow> partial_cmp a a = Some Equal"
  by (cases a) (auto simp: cmp_of_def)

lemma partial_cmp_swap:
  "partial_cmp a b = Some Less \<longleftrightarrow> partial_cmp b a = Some Greater"
  "partial_cmp a b = Some Equal \<longleftrightarrow> partial_cmp b a = Some Equal"
  by (cases a; cases b; auto simp: cmp_of_def split: if_splits)+

text \<open>The order of the extended line: infinities at the ends, both zeros equal.\<close>

fun f64_key :: "f64 \<Rightarrow> int \<times> rat" where
  "f64_key PInf = (1, 0)"
| "f64_key NInf = (- 1, 0)"
| "f64_key a = (0, fval a)"

definition key_cmp :: "int \<times> rat \<Rightarrow> int \<times> rat \<Rightarrow> ordering" where
  "key_cmp p q = then_with (cmp_of (fst p) (fst q)) (cmp_of (snd p) (snd q))"

lemma partial_cmp_key:
  "a \<noteq> NaN \<Longrightarrow> b \<noteq> NaN \<Longrightarrow> partial_cmp a b = Some (key_cmp (f64_key a) (f64_key b))"
  by (cases a; cases b) (auto simp: key_cmp_def cmp_of_def)

end
