(* ===== verification/Hashing.thy ===== *)
theory Hashing
  imports Prelude
begin

unbundle bit_operations_syntax

text \<open>
  \<open>crates/router-core/src/hashing.rs\<close>: the prefix-hash chain of a prompt. The hasher is the
  standard library's \<open>DefaultHasher\<close>, SipHash-1-3 with zero keys, modelled on the bytes the
  \<open>Hash\<close> instances write. The lemmas relate equality of chain prefixes to equality of
  prompt prefixes, in the direction that always holds and in the one that needs the absence
  of collisions.
\<close>

section \<open>\<open>DefaultHasher\<close>: SipHash-1-3\<close>

record sip =
  sip0 :: u64
  sip1 :: u64
  sip2 :: u64
  sip3 :: u64

definition rotate_left :: "nat \<Rightarrow> u64 \<Rightarrow> u64" where
  "rotate_left k x = push_bit k x OR drop_bit (64 - k) x"

text \<open>Little-endian byte order, in which \<open>to_ne_bytes\<close> writes on the supported targets.\<close>

definition le_bytes :: "nat \<Rightarrow> u64 \<Rightarrow> u8 list" where
  "le_bytes n x = map (\<lambda>i. ucast (drop_bit (8 * i) x)) [0..<n]"

fun of_le_bytes :: "u8 list \<Rightarrow> u64" where
  "of_le_bytes [] = 0"
| "of_le_bytes (b # bs) = ucast b OR push_bit 8 (of_le_bytes bs)"

definition sip_round :: "sip \<Rightarrow> sip" where
  "sip_round s =
     (let a0 = sip0 s + sip1 s;
          a1 = rotate_left 13 (sip1 s) XOR a0;
          a0 = rotate_left 32 a0;
          a2 = sip2 s + sip3 s;
          a3 = rotate_left 16 (sip3 s) XOR a2;
          a0 = a0 + a3;
          a3 = rotate_left 21 a3 XOR a0;
          a2 = a2 + a1;
          a1 = rotate_left 17 a1 XOR a2;
          a2 = rotate_left 32 a2
      in \<lparr>sip0 = a0, sip1 = a1, sip2 = a2, sip3 = a3\<rparr>)"

definition sip_init :: sip where
  "sip_init = \<lparr>sip0 = 0x736f6d6570736575, sip1 = 0x646f72616e646f6d,
               sip2 = 0x6c7967656e657261, sip3 = 0x7465646279746573\<rparr>"

definition sip_word :: "u64 \<Rightarrow> sip \<Rightarrow> sip" where
  "sip_word m s = (let s' = sip_round (s\<lparr>sip3 := sip3 s XOR m\<rparr>) in s'\<lparr>sip0 := sip0 s' XOR m\<rparr>)"

function sip_absorb :: "sip \<Rightarrow> u8 list \<Rightarrow> sip \<times> u8 list" where
  "sip_absorb s bs =
     (if length bs < 8 then (s, bs)
      else sip_absorb (sip_word (of_le_bytes (take 8 bs)) s) (drop 8 bs))"
  by pat_completeness auto
termination
  by (relation "measure (\<lambda>(s, bs). length bs)") auto

declare sip_absorb.simps [simp del]

definition sip_final :: "sip \<Rightarrow> u64" where
  "sip_final s =
     (let s' = sip_round (sip_round (sip_round (s\<lparr>sip2 := sip2 s XOR 0xff\<rparr>)))
      in sip0 s' XOR sip1 s' XOR sip2 s' XOR sip3 s')"

definition siphash13 :: "u8 list \<Rightarrow> u64" where
  "siphash13 bs =
     (case sip_absorb sip_init bs of (s, tail) \<Rightarrow>
        sip_final (sip_word (push_bit 56 (of_nat (length bs)) OR of_le_bytes tail) s))"

text \<open>
  A \<open>DefaultHasher\<close> is the bytes written so far. \<open>u64\<close> writes eight bytes; a \<open>[char]\<close>
  slice writes its length as a \<open>usize\<close>, then every character as a \<open>u32\<close>.
\<close>

type_synonym hasher = "u8 list"

definition hasher_new :: hasher where
  "hasher_new = []"

definition hash_u64 :: "u64 \<Rightarrow> hasher \<Rightarrow> hasher" where
  "hash_u64 x h = h @ le_bytes 8 x"

definition hash_chars :: "uchar list \<Rightarrow> hasher \<Rightarrow> hasher" where
  "hash_chars cs h = h @ le_bytes 8 (of_nat (length cs)) @ concat (map (\<lambda>c. le_bytes 4 (ucast c)) cs)"

definition hasher_finish :: "hasher \<Rightarrow> u64" where
  "hasher_finish h = siphash13 h"

section \<open>The prefix-hash chain\<close>

text \<open>One iteration of the loop: hash the predecessor, if any, then the block.\<close>

definition block_hash :: "u64 option \<Rightarrow> uchar list \<Rightarrow> u64" where
  "block_hash previous block =
     (let hasher = hasher_new;
          hasher = (case previous of None \<Rightarrow> hasher | Some prev \<Rightarrow> hash_u64 prev hasher);
          hasher = hash_chars block hasher
      in hasher_finish hasher)"

fun chain_from :: "u64 option \<Rightarrow> uchar list list \<Rightarrow> u64 list" where
  "chain_from previous [] = []"
| "chain_from previous (block # blocks) =
     (let hash = block_hash previous block in hash # chain_from (Some hash) blocks)"

definition blocks_of :: "ustring \<Rightarrow> nat \<Rightarrow> uchar list list" where
  "blocks_of prompt block_size = chunks (max block_size 1) prompt"

definition chain_hash :: "ustring \<Rightarrow> nat \<Rightarrow> u64 list" where
  "chain_hash prompt block_size = chain_from None (blocks_of prompt block_size)"

section \<open>Laws of the chain\<close>

lemma length_chain_from [simp]: "length (chain_from previous bs) = length bs"
  by (induction previous bs rule: chain_from.induct) (simp_all add: Let_def)

lemma take_chain_from: "take k (chain_from previous bs) = chain_from previous (take k bs)"
proof (induction previous bs arbitrary: k rule: chain_from.induct)
  case (2 previous b bs)
  then show ?case by (cases k) (simp_all add: Let_def)
qed simp

lemma take_chain_hash: "take k (chain_hash p n) = chain_from None (take k (blocks_of p n))"
  by (simp add: chain_hash_def take_chain_from)

text \<open>The inputs the hasher sees along a chain.\<close>

fun hash_inputs :: "u64 option \<Rightarrow> uchar list list \<Rightarrow> (u64 option \<times> uchar list) list" where
  "hash_inputs previous [] = []"
| "hash_inputs previous (b # bs) = (previous, b) # hash_inputs (Some (block_hash previous b)) bs"

text \<open>No two different hasher inputs in \<open>S\<close> have the same hash.\<close>

definition collision_free :: "(u64 option \<times> uchar list) set \<Rightarrow> bool" where
  "collision_free S \<longleftrightarrow> inj_on (\<lambda>(previous, b). block_hash previous b) S"

lemma collision_free_subset: "collision_free S \<Longrightarrow> T \<subseteq> S \<Longrightarrow> collision_free T"
  by (auto simp: collision_free_def intro: inj_on_subset)

lemma set_hash_inputs_take: "set (hash_inputs previous (take k bs)) \<subseteq> set (hash_inputs previous bs)"
proof (induction previous bs arbitrary: k rule: hash_inputs.induct)
  case (2 previous b bs)
  then show ?case by (cases k) auto
qed simp

lemma chain_from_inj:
  assumes "collision_free (set (hash_inputs previous bs) \<union> set (hash_inputs previous cs))"
    and "chain_from previous bs = chain_from previous cs"
  shows "bs = cs"
  using assms
proof (induction previous bs arbitrary: cs rule: chain_from.induct)
  case (1 previous)
  then have "length cs = 0" by (metis length_chain_from list.size(3))
  then show ?case by simp
next
  case (2 previous b bs)
  then have "length cs = Suc (length bs)" by (metis length_chain_from length_Cons)
  then obtain c cs' where cs: "cs = c # cs'" by (cases cs) auto
  have eq: "block_hash previous b = block_hash previous c"
    using "2.prems"(2) by (simp add: cs Let_def)
  have inj: "inj_on (\<lambda>(previous, b). block_hash previous b) {(previous, b), (previous, c)}"
    by (rule inj_on_subset [OF "2.prems"(1) [unfolded collision_free_def]]) (auto simp: cs)
  have bc: "b = c"
    using inj_onD [OF inj, of "(previous, b)" "(previous, c)"] eq by simp
  have "chain_from (Some (block_hash previous b)) bs = chain_from (Some (block_hash previous b)) cs'"
    using "2.prems"(2) eq by (simp add: cs Let_def)
  moreover have "collision_free (set (hash_inputs (Some (block_hash previous b)) bs)
      \<union> set (hash_inputs (Some (block_hash previous b)) cs'))"
    by (rule collision_free_subset [OF "2.prems"(1)]) (use bc cs in auto)
  ultimately have "bs = cs'"
    using "2.IH" by blast
  with bc cs show ?case by simp
qed

section \<open>Known values\<close>

text \<open>
  SipHash-1-3 with zero keys on the bytes of \<open>abc\<close>, for which other implementations of the
  function give the same \<open>c03bc3a0042630f2\<close>, and the hashes of two one-character blocks,
  evaluated round by round.
\<close>

lemma le_bytes_8: "le_bytes 8 x = [ucast x, ucast (drop_bit 8 x), ucast (drop_bit 16 x),
    ucast (drop_bit 24 x), ucast (drop_bit 32 x), ucast (drop_bit 40 x), ucast (drop_bit 48 x),
    ucast (drop_bit 56 x)]"
  by (simp add: le_bytes_def upt_rec)

lemma le_bytes_4: "le_bytes 4 x = [ucast x, ucast (drop_bit 8 x), ucast (drop_bit 16 x),
    ucast (drop_bit 24 x)]"
  by (simp add: le_bytes_def upt_rec)

lemmas block_hash_eval = block_hash_def hasher_new_def hash_u64_def hash_chars_def
  hasher_finish_def le_bytes_8 le_bytes_4 ascii_def

lemma vec_abc_round0: "sip_round \<lparr>sip0 = 0x736f6d6570736575, sip1 = 0x646f72616e646f6d, sip2 = 0x6c7967656e657261, sip3 = 0x7765646279170712\<rparr>
     = \<lparr>sip0 = 0x669487b3b84ceddc, sip1 = 0xf9651ba6ca6882c7, sip2 = 0x3ab6f1e21d71bdd2, sip3 = 0x3c888a727a9c1a4a\<rparr>"
  by (simp add: sip_round_def rotate_left_def Let_def)

lemma vec_abc_word0: "sip_word 0x300000000636261 \<lparr>sip0 = 0x736f6d6570736575, sip1 = 0x646f72616e646f6d, sip2 = 0x6c7967656e657261, sip3 = 0x7465646279746573\<rparr>
     = \<lparr>sip0 = 0x659487b3b82f8fbd, sip1 = 0xf9651ba6ca6882c7, sip2 = 0x3ab6f1e21d71bdd2, sip3 = 0x3c888a727a9c1a4a\<rparr>"
  by (simp add: sip_word_def vec_abc_round0 Let_def)

lemma vec_abc_fin0: "sip_round \<lparr>sip0 = 0x659487b3b82f8fbd, sip1 = 0xf9651ba6ca6882c7, sip2 = 0x3ab6f1e21d71bd2d, sip3 = 0x3c888a727a9c1a4a\<rparr>
     = \<lparr>sip0 = 0x7fe5194ce1418f59, sip1 = 0x80e3d3edf19f3e05, sip2 = 0x2acec51f74ccf66c, sip3 = 0xa6f551b19ebe26f9\<rparr>"
  by (simp add: sip_round_def rotate_left_def Let_def)

lemma vec_abc_fin1: "sip_round \<lparr>sip0 = 0x7fe5194ce1418f59, sip1 = 0x80e3d3edf19f3e05, sip2 = 0x2acec51f74ccf66c, sip3 = 0xa6f551b19ebe26f9\<rparr>
     = \<lparr>sip0 = 0x535655cd363ba8ca, sip1 = 0xea6b039ab22f6fcd, sip2 = 0x48ab9aa74c7969da, sip3 = 0x5eb0fb9a442ba67b\<rparr>"
  by (simp add: sip_round_def rotate_left_def Let_def)

lemma vec_abc_fin2: "sip_round \<lparr>sip0 = 0x535655cd363ba8ca, sip1 = 0xea6b039ab22f6fcd, sip2 = 0x48ab9aa74c7969da, sip3 = 0x5eb0fb9a442ba67b\<rparr>
     = \<lparr>sip0 = 0x4531eb01749fa84c, sip1 = 0x1b4aae46dd830d4b, sip2 = 0x9637b62f050ea563, sip3 = 0x87730c8a8343096\<rparr>"
  by (simp add: sip_round_def rotate_left_def Let_def)

lemma vec_abc_final: "sip_final \<lparr>sip0 = 0x659487b3b82f8fbd, sip1 = 0xf9651ba6ca6882c7, sip2 = 0x3ab6f1e21d71bdd2, sip3 = 0x3c888a727a9c1a4a\<rparr>
     = 0xc03bc3a0042630f2"
  by (simp add: sip_final_def vec_abc_fin0 vec_abc_fin1 vec_abc_fin2)

lemma siphash13_abc: "siphash13 (map of_char ''abc'') = 0xc03bc3a0042630f2"
  by (simp add: siphash13_def sip_absorb.simps sip_init_def vec_abc_word0 vec_abc_final)

lemma vec_a_round0: "sip_round \<lparr>sip0 = 0x736f6d6570736575, sip1 = 0x646f72616e646f6d, sip2 = 0x6c7967656e657261, sip3 = 0x7465646279746572\<rparr>
     = \<lparr>sip0 = 0x639487965a8a837c, sip1 = 0xfe651ba6cbca2367, sip2 = 0x3b1450421a71bdd2, sip3 = 0x35e4d2e22c5a14ea\<rparr>"
  by (simp add: sip_round_def rotate_left_def Let_def)

lemma vec_a_word0: "sip_word 0x1 \<lparr>sip0 = 0x736f6d6570736575, sip1 = 0x646f72616e646f6d, sip2 = 0x6c7967656e657261, sip3 = 0x7465646279746573\<rparr>
     = \<lparr>sip0 = 0x639487965a8a837d, sip1 = 0xfe651ba6cbca2367, sip2 = 0x3b1450421a71bdd2, sip3 = 0x35e4d2e22c5a14ea\<rparr>"
  by (simp add: sip_word_def vec_a_round0 Let_def)

lemma vec_a_round1: "sip_round \<lparr>sip0 = 0x639487965a8a837d, sip1 = 0xfe651ba6cbca2367, sip2 = 0x3b1450421a71bdd2, sip3 = 0x39e4d2e22c5a148b\<rparr>
     = \<lparr>sip0 = 0xcc6fb662b43a8ef6, sip1 = 0xc30e59181b55ae9f, sip2 = 0xa9042b8537869d68, sip3 = 0x23a5fe7fc30e4d97\<rparr>"
  by (simp add: sip_round_def rotate_left_def Let_def)

lemma vec_a_word1: "sip_word 0xc00000000000061 \<lparr>sip0 = 0x639487965a8a837d, sip1 = 0xfe651ba6cbca2367, sip2 = 0x3b1450421a71bdd2, sip3 = 0x35e4d2e22c5a14ea\<rparr>
     = \<lparr>sip0 = 0xc06fb662b43a8e97, sip1 = 0xc30e59181b55ae9f, sip2 = 0xa9042b8537869d68, sip3 = 0x23a5fe7fc30e4d97\<rparr>"
  by (simp add: sip_word_def vec_a_round1 Let_def)

lemma vec_a_fin0: "sip_round \<lparr>sip0 = 0xc06fb662b43a8e97, sip1 = 0xc30e59181b55ae9f, sip2 = 0xa9042b8537869d97, sip3 = 0x23a5fe7fc30e4d97\<rparr>
     = \<lparr>sip0 = 0x26626413a81d805, sip1 = 0xd27c292fe76203f, sip2 = 0x74d8b08515073615, sip3 = 0x2330c6382be782b8\<rparr>"
  by (simp add: sip_round_def rotate_left_def Let_def)

lemma vec_a_fin1: "sip_round \<lparr>sip0 = 0x26626413a81d805, sip1 = 0xd27c292fe76203f, sip2 = 0x74d8b08515073615, sip3 = 0x2330c6382be782b8\<rparr>
     = \<lparr>sip0 = 0x9729559ed1e484d1, sip1 = 0xe1dcd4380e1f3d12, sip2 = 0x3dded2ad8fe92dd8, sip3 = 0x3c711f4dae4f42fa\<rparr>"
  by (simp add: sip_round_def rotate_left_def Let_def)

lemma vec_a_fin2: "sip_round \<lparr>sip0 = 0x9729559ed1e484d1, sip1 = 0xe1dcd4380e1f3d12, sip2 = 0x3dded2ad8fe92dd8, sip3 = 0x3c711f4dae4f42fa\<rparr>
     = \<lparr>sip0 = 0x45062197f5c87679, sip1 = 0xdfb15537e6bc9a8, sip2 = 0x45da0eaa5dd11a10, sip3 = 0xb389b9de61a4d632\<rparr>"
  by (simp add: sip_round_def rotate_left_def Let_def)

lemma vec_a_final: "sip_final \<lparr>sip0 = 0xc06fb662b43a8e97, sip1 = 0xc30e59181b55ae9f, sip2 = 0xa9042b8537869d68, sip3 = 0x23a5fe7fc30e4d97\<rparr>
     = 0xbeae83b0b7d673f3"
  by (simp add: sip_final_def vec_a_fin0 vec_a_fin1 vec_a_fin2)

lemma block_hash_a: "block_hash None (ascii ''a'') = 0xbeae83b0b7d673f3"
  by (simp add: block_hash_eval siphash13_def sip_absorb.simps sip_init_def vec_a_word0 vec_a_word1 vec_a_final)

lemma vec_b_round1: "sip_round \<lparr>sip0 = 0x639487965a8a837d, sip1 = 0xfe651ba6cbca2367, sip2 = 0x3b1450421a71bdd2, sip3 = 0x39e4d2e22c5a1488\<rparr>
     = \<lparr>sip0 = 0xcc6fb662b43d8efb, sip1 = 0xc30e59181b55ae98, sip2 = 0xa9042b8237869d68, sip3 = 0x23a5fe1fc3e94d9a\<rparr>"
  by (simp add: sip_round_def rotate_left_def Let_def)

lemma vec_b_word1: "sip_word 0xc00000000000062 \<lparr>sip0 = 0x639487965a8a837d, sip1 = 0xfe651ba6cbca2367, sip2 = 0x3b1450421a71bdd2, sip3 = 0x35e4d2e22c5a14ea\<rparr>
     = \<lparr>sip0 = 0xc06fb662b43d8e99, sip1 = 0xc30e59181b55ae98, sip2 = 0xa9042b8237869d68, sip3 = 0x23a5fe1fc3e94d9a\<rparr>"
  by (simp add: sip_word_def vec_b_round1 Let_def)

lemma vec_b_fin0: "sip_round \<lparr>sip0 = 0xc06fb662b43d8e99, sip1 = 0xc30e59181b55ae98, sip2 = 0xa9042b8237869d97, sip3 = 0x23a5fe1fc3e94d9a\<rparr>
     = \<lparr>sip0 = 0x249277a3a73d80e, sip1 = 0xd27c1323f10803b, sip2 = 0x75b01081150735b2, sip3 = 0x4b5ff9c328f58eb3\<rparr>"
  by (simp add: sip_round_def rotate_left_def Let_def)

lemma vec_b_fin1: "sip_round \<lparr>sip0 = 0x249277a3a73d80e, sip1 = 0xd27c1323f10803b, sip2 = 0x75b01081150735b2, sip3 = 0x4b5ff9c328f58eb3\<rparr>
     = \<lparr>sip0 = 0xb2577afac2c077e6, sip1 = 0xe6fa6a94d4a410ff, sip2 = 0xa77ffe52b866b992, sip3 = 0xe461130b25876d82\<rparr>"
  by (simp add: sip_round_def rotate_left_def Let_def)

lemma vec_b_fin2: "sip_round \<lparr>sip0 = 0xb2577afac2c077e6, sip1 = 0xe6fa6a94d4a410ff, sip2 = 0xa77ffe52b866b992, sip3 = 0xe461130b25876d82\<rparr>
     = \<lparr>sip0 = 0x304ebdc049bea904, sip1 = 0xa1d2ba8e1b1c3348, sip2 = 0xf3699b4e5fe49078, sip3 = 0xab18b058270db442\<rparr>"
  by (simp add: sip_round_def rotate_left_def Let_def)

lemma vec_b_final: "sip_final \<lparr>sip0 = 0xc06fb662b43d8e99, sip1 = 0xc30e59181b55ae98, sip2 = 0xa9042b8237869d68, sip3 = 0x23a5fe1fc3e94d9a\<rparr>
     = 0xc9ed2c582a4bbe76"
  by (simp add: sip_final_def vec_b_fin0 vec_b_fin1 vec_b_fin2)

lemma block_hash_b: "block_hash None (ascii ''b'') = 0xc9ed2c582a4bbe76"
  by (simp add: block_hash_eval siphash13_def sip_absorb.simps sip_init_def vec_a_word0 vec_b_word1 vec_b_final)


section \<open>Properties\<close>

lemma chunks_take:
  "n > 0 \<Longrightarrow> k * n \<le> length xs \<Longrightarrow> take k (chunks n xs) = chunks n (take (k * n) xs)"
proof (induction k arbitrary: xs)
  case (Suc k)
  then have le: "n \<le> length xs" "k * n \<le> length (drop n xs)" and ne: "xs \<noteq> []"
    by auto
  have "take (Suc k) (chunks n xs) = take n xs # chunks n (take (k * n) (drop n xs))"
    using Suc.IH [OF _ le(2)] Suc.prems ne by (simp add: chunks_unfold [of n xs])
  also have "take (k * n) (drop n xs) = drop n (take (Suc k * n) xs)"
    by (simp add: drop_take add.commute)
  also have "take n xs = take n (take (Suc k * n) xs)"
    by simp
  also have "take n (take (Suc k * n) xs) # chunks n (drop n (take (Suc k * n) xs))
      = chunks n (take (Suc k * n) xs)"
    using Suc.prems ne by (intro chunks_unfold [symmetric]) auto
  finally show ?case .
qed simp

lemma blocks_of_collision_free_take:
  assumes "collision_free (set (hash_inputs None (blocks_of p n)) \<union> set (hash_inputs None (blocks_of q n)))"
    and "take k (chain_hash p n) = take k (chain_hash q n)"
  shows "take k (blocks_of p n) = take k (blocks_of q n)"
proof (rule chain_from_inj)
  show "chain_from None (take k (blocks_of p n)) = chain_from None (take k (blocks_of q n))"
    using assms(2) by (simp add: take_chain_hash)
  show "collision_free (set (hash_inputs None (take k (blocks_of p n)))
      \<union> set (hash_inputs None (take k (blocks_of q n))))"
    by (rule collision_free_subset [OF assms(1)]) (intro Un_mono set_hash_inputs_take)
qed

text \<open>
  The chain has one hash per block: \<open>ceil(chars / block_size)\<close>, with a zero block size
  clamped to one. This is the \<open>prompt_blocks\<close> figure every decision reports.
\<close>

lemma chain_hash_length:
  "length (chain_hash prompt block_size)
     = (length prompt + max block_size 1 - 1) div max block_size 1"
proof -
  have "length (chain_hash prompt block_size) = length (chunks (max block_size 1) prompt)"
    by (simp add: chain_hash_def blocks_of_def)
  also have "\<dots> = (length prompt + max block_size 1 - 1) div max block_size 1"
    by (rule length_chunks) simp
  finally show ?thesis .
qed

text \<open>
  Prompts that agree on their first \<open>k * block_size\<close> characters have the same first \<open>k\<close>
  hashes, whatever follows: the direction of the chain invariant on which a cache hit rests.
\<close>

lemma shared_text_shares_hashes:
  assumes "0 < block_size"
    and "k * block_size \<le> length p" and "k * block_size \<le> length q"
    and "take (k * block_size) p = take (k * block_size) q"
  shows "take k (chain_hash p block_size) = take k (chain_hash q block_size)"
proof -
  have "max block_size 1 = block_size" using assms(1) by simp
  then have "take k (blocks_of p block_size) = take k (blocks_of q block_size)"
    using assms by (simp add: blocks_of_def chunks_take)
  then show ?thesis by (simp add: take_chain_hash)
qed

text \<open>
  C20: where the hasher has no collision among the inputs of the two prompts, two prompts share
  their first \<open>k\<close> blocks exactly when the first \<open>k\<close> hashes of their chains are equal.
\<close>

theorem chain_prefix_iff_blocks:
  assumes "collision_free (set (hash_inputs None (blocks_of p n)) \<union> set (hash_inputs None (blocks_of q n)))"
  shows "take k (chain_hash p n) = take k (chain_hash q n)
     \<longleftrightarrow> take k (blocks_of p n) = take k (blocks_of q n)"
proof
  assume "take k (chain_hash p n) = take k (chain_hash q n)"
  with assms show "take k (blocks_of p n) = take k (blocks_of q n)"
    by (rule blocks_of_collision_free_take)
next
  assume "take k (blocks_of p n) = take k (blocks_of q n)"
  then show "take k (chain_hash p n) = take k (chain_hash q n)"
    by (simp add: take_chain_hash)
qed

theorem chain_prefix_iff_blocks_witness:
  "take 1 (chain_hash (ascii ''a'') 1) \<noteq> take 1 (chain_hash (ascii ''b'') 1)"
proof -
  have blocks: "blocks_of (ascii ''a'') 1 = [ascii ''a'']" "blocks_of (ascii ''b'') 1 = [ascii ''b'']"
    by (simp_all add: blocks_of_def ascii_def)
  have free: "collision_free (set (hash_inputs None (blocks_of (ascii ''a'') 1))
      \<union> set (hash_inputs None (blocks_of (ascii ''b'') 1)))"
    by (auto simp: blocks collision_free_def block_hash_a block_hash_b simp del: One_nat_def)
  have "take 1 (blocks_of (ascii ''a'') 1) \<noteq> take 1 (blocks_of (ascii ''b'') 1)"
    unfolding blocks by (simp add: ascii_def)
  then show ?thesis
    using chain_prefix_iff_blocks [OF free, of 1] by simp
qed

text \<open>
  Collisions cannot be excluded in general. From a block size of 65 characters on (the
  default is 512) there are two different prompts of one block each with the same chain, so
  ``share their first \<open>k\<close> blocks exactly when the first \<open>k\<close> hashes are equal'' is not a
  theorem of the code but an assumption about the prompts that occur.
\<close>

theorem distinct_prompts_can_collide:
  assumes "65 \<le> block_size"
  shows "\<exists>p q. p \<noteq> q \<and> length p = 65 \<and> length q = 65
     \<and> chain_hash p block_size = chain_hash q block_size"
proof -
  let ?A = "{p :: ustring. set p \<subseteq> {0, 1} \<and> length p = 65}"
  let ?f = "\<lambda>p. chain_hash p block_size"
  have one: "?f p = [block_hash None p]" if "length p = 65" for p
    using that assms by (cases p) (auto simp: chain_hash_def blocks_of_def Let_def)
  have "?f ` ?A \<subseteq> (\<lambda>h. [h]) ` (UNIV :: u64 set)"
    using one by auto
  then have "card (?f ` ?A) \<le> card ((\<lambda>h. [h]) ` (UNIV :: u64 set))"
    by (intro card_mono) auto
  also have "\<dots> = 2 ^ 64"
    by (simp add: card_image inj_on_def card_word)
  also have "(2::nat) ^ 64 < card {0, 1 :: uchar} ^ 65"
    by (simp add: card_2_iff numeral_2_eq_2 [symmetric] del: One_nat_def)
  also have "card {0, 1 :: uchar} ^ 65 = card ?A"
    by (rule card_lists_length_eq [symmetric]) simp
  finally have "\<not> inj_on ?f ?A"
    by (rule pigeonhole)
  then obtain p q where "p \<in> ?A" and "q \<in> ?A" and "?f p = ?f q" and "p \<noteq> q"
    by (auto simp: inj_on_def)
  then show ?thesis by blast
qed

theorem distinct_prompts_can_collide_witness:
  "\<exists>p q. p \<noteq> q \<and> length p = 65 \<and> length q = 65 \<and> chain_hash p 512 = chain_hash q 512"
  by (rule distinct_prompts_can_collide) simp

end
