(* ===== verification/Config.thy ===== *)
theory Config
  imports Prelude F64
begin

text \<open>
  \<open>crates/router-core/src/config.rs\<close> and \<open>error.rs\<close>: pools, routing policies, the
  configuration with its serde defaults and its validation, and the core's error type with
  its \<open>Display\<close> text. The YAML decoder (\<open>serde_yaml\<close>) and the file system are parameters.
\<close>

section \<open>Pools and policies\<close>

datatype pool = Prefill | Decode | Both

fun pool_to_string :: "pool \<Rightarrow> string" where
  "pool_to_string Prefill = ''prefill''"
| "pool_to_string Decode = ''decode''"
| "pool_to_string Both = ''both''"

datatype routing_policy = RoundRobin | CacheAware | Disaggregated

fun policy_to_string :: "routing_policy \<Rightarrow> string" where
  "policy_to_string RoundRobin = ''round_robin''"
| "policy_to_string CacheAware = ''cache_aware''"
| "policy_to_string Disaggregated = ''disaggregated''"

lemma pool_to_string_inject [simp]: "pool_to_string a = pool_to_string b \<longleftrightarrow> a = b"
  by (cases a; cases b) simp_all

lemma policy_to_string_inject [simp]: "policy_to_string a = policy_to_string b \<longleftrightarrow> a = b"
  by (cases a; cases b) simp_all

section \<open>Errors\<close>

type_synonym worker_id = u64

datatype router_error =
    NoHealthyWorkers string
  | NoHealthyWorkersInPool string string
  | KvTransferFailed worker_id worker_id string
  | DisaggregatedRequiresTwoPhase
  | PolicyNotImplemented string
  | ConfigError string

fun error_to_string :: "router_error \<Rightarrow> string" where
  "error_to_string (NoHealthyWorkers policy) =
     ''no healthy workers available (policy: '' @ policy @ '')''"
| "error_to_string (NoHealthyWorkersInPool pool policy) =
     ''no healthy workers in pool `'' @ pool @ ''` (policy: '' @ policy @ '')''"
| "error_to_string (KvTransferFailed from to reason) =
     ''KV transfer from worker '' @ show_nat (unat from) @ '' to worker '' @ show_nat (unat to)
       @ '' failed: '' @ reason"
| "error_to_string DisaggregatedRequiresTwoPhase =
     ''policy `disaggregated` requires two-phase routing via `select_in_pool`; ''
       @ ''`select_for_chat` cannot serve disaggregated requests''"
| "error_to_string (PolicyNotImplemented policy) =
     ''routing policy `'' @ policy @ ''` is not implemented yet''"
| "error_to_string (ConfigError message) = ''invalid configuration: '' @ message"

section \<open>Configuration\<close>

record worker_config =
  wc_url :: string
  wc_pool :: pool

record discovery_config =
  disc_enabled :: bool
  disc_service :: string
  disc_namespace :: "string option"

record router_config =
  cfg_workers :: "worker_config list"
  cfg_policy :: routing_policy
  health_check_interval_secs :: nat
  prompt_block_chars :: nat
  cfg_cache_weight :: f64
  cfg_load_weight :: f64
  prefix_index_ttl_secs :: nat
  prefix_index_max_entries :: nat
  kv_transfer_cost_ms :: nat
  metrics_scrape :: bool
  engine_metrics_interval_secs :: nat
  engine_cache_hit_metric :: string
  cfg_discovery :: discovery_config

definition default_discovery_service :: string where
  "default_discovery_service = ''kvrouter-workers''"

definition discovery_config_default :: discovery_config where
  "discovery_config_default =
     \<lparr>disc_enabled = False, disc_service = default_discovery_service, disc_namespace = None\<rparr>"

definition default_health_check_interval_secs :: nat where
  "default_health_check_interval_secs = 5"

definition default_prompt_block_chars :: nat where
  "default_prompt_block_chars = 512"

definition default_cache_weight :: f64 where
  "default_cache_weight = Fin 1"

definition default_load_weight :: f64 where
  "default_load_weight = Fin (1 / 2)"

definition default_prefix_index_ttl_secs :: nat where
  "default_prefix_index_ttl_secs = 300"

definition default_prefix_index_max_entries :: nat where
  "default_prefix_index_max_entries = 100000"

definition default_kv_transfer_cost_ms :: nat where
  "default_kv_transfer_cost_ms = 20"

definition default_engine_metrics_interval_secs :: nat where
  "default_engine_metrics_interval_secs = 15"

definition default_engine_cache_hit_metric :: string where
  "default_engine_cache_hit_metric = ''vllm:gpu_prefix_cache_hit_rate''"

text \<open>
  What the YAML decoder hands to the derived \<open>Deserialize\<close>: each known key of a mapping,
  decoded to its field type, or absent.
\<close>

record raw_discovery =
  raw_enabled :: "bool option"
  raw_service :: "string option"
  raw_namespace :: "string option"

record raw_config =
  raw_workers :: "worker_config list option"
  raw_policy :: "routing_policy option"
  raw_health_interval :: "nat option"
  raw_block_chars :: "nat option"
  raw_cache_weight :: "f64 option"
  raw_load_weight :: "f64 option"
  raw_ttl :: "nat option"
  raw_max_entries :: "nat option"
  raw_kv_cost :: "nat option"
  raw_scrape :: "bool option"
  raw_engine_interval :: "nat option"
  raw_engine_metric :: "string option"
  raw_discovery_cfg :: "raw_discovery option"

text \<open>\<open>#[serde(default = ...)]\<close>.\<close>

definition or_default :: "'a option \<Rightarrow> 'a \<Rightarrow> 'a" where
  "or_default x d = (case x of None \<Rightarrow> d | Some v \<Rightarrow> v)"

lemma or_default_simps [simp]: "or_default None d = d" "or_default (Some v) d = v"
  by (simp_all add: or_default_def)

definition deserialize_discovery :: "raw_discovery \<Rightarrow> discovery_config" where
  "deserialize_discovery r =
     \<lparr>disc_enabled = or_default (raw_enabled r) False,
      disc_service = or_default (raw_service r) default_discovery_service,
      disc_namespace = raw_namespace r\<rparr>"

text \<open>Only \<open>workers\<close> and \<open>routing_policy\<close> have no default.\<close>

definition deserialize_config :: "raw_config \<Rightarrow> string + router_config" where
  "deserialize_config r =
     (case raw_workers r of
        None \<Rightarrow> Inl ''missing field `workers`''
      | Some ws \<Rightarrow>
         (case raw_policy r of
            None \<Rightarrow> Inl ''missing field `routing_policy`''
          | Some p \<Rightarrow> Inr
              \<lparr>cfg_workers = ws, cfg_policy = p,
               health_check_interval_secs = or_default (raw_health_interval r) default_health_check_interval_secs,
               prompt_block_chars = or_default (raw_block_chars r) default_prompt_block_chars,
               cfg_cache_weight = or_default (raw_cache_weight r) default_cache_weight,
               cfg_load_weight = or_default (raw_load_weight r) default_load_weight,
               prefix_index_ttl_secs = or_default (raw_ttl r) default_prefix_index_ttl_secs,
               prefix_index_max_entries = or_default (raw_max_entries r) default_prefix_index_max_entries,
               kv_transfer_cost_ms = or_default (raw_kv_cost r) default_kv_transfer_cost_ms,
               metrics_scrape = or_default (raw_scrape r) False,
               engine_metrics_interval_secs = or_default (raw_engine_interval r) default_engine_metrics_interval_secs,
               engine_cache_hit_metric = or_default (raw_engine_metric r) default_engine_cache_hit_metric,
               cfg_discovery = (case raw_discovery_cfg r of None \<Rightarrow> discovery_config_default
                                 | Some d \<Rightarrow> deserialize_discovery d)\<rparr>))"

text \<open>\<open>RouterConfig::from_yaml\<close>; \<open>yaml\<close> is the decoder, its error already as text.\<close>

definition from_yaml :: "(string \<Rightarrow> string + raw_config) \<Rightarrow> string \<Rightarrow> router_error + router_config" where
  "from_yaml yaml raw =
     (case yaml raw of
        Inl e \<Rightarrow> Inl (ConfigError e)
      | Inr doc \<Rightarrow>
         (case deserialize_config doc of
            Inl e \<Rightarrow> Inl (ConfigError e)
          | Inr config \<Rightarrow>
              if cfg_workers config = [] \<and> \<not> disc_enabled (cfg_discovery config)
              then Inl (ConfigError (''`workers` must contain at least one entry, or enable `discovery` ''
                     @ ''to populate workers from Kubernetes''))
              else Inr config))"

text \<open>\<open>RouterConfig::load\<close>; \<open>read_to_string\<close> is the file system.\<close>

definition load_config ::
  "(string \<Rightarrow> string + string) \<Rightarrow> (string \<Rightarrow> string + raw_config) \<Rightarrow> string \<Rightarrow> router_error + router_config"
  where
  "load_config read_to_string yaml path =
     (case read_to_string path of
        Inl e \<Rightarrow> Inl (ConfigError (''failed to read '' @ path @ '': '' @ e))
      | Inr raw \<Rightarrow> from_yaml yaml raw)"

section \<open>Properties\<close>

lemma deserialize_config_ok:
  "deserialize_config d = Inr c \<Longrightarrow>
     raw_workers d = Some (cfg_workers c) \<and> raw_policy d = Some (cfg_policy c)
     \<and> cfg_discovery c = (case raw_discovery_cfg d of None \<Rightarrow> discovery_config_default
                                 | Some d \<Rightarrow> deserialize_discovery d)"
  by (auto simp: deserialize_config_def split: option.splits)

lemma deserialize_config_error:
  "deserialize_config d = Inl e \<Longrightarrow> raw_workers d = None \<or> raw_policy d = None"
  by (auto simp: deserialize_config_def split: option.splits)

lemma discovery_enabled_iff:
  "disc_enabled (case r of None \<Rightarrow> discovery_config_default | Some d \<Rightarrow> deserialize_discovery d)
     \<longleftrightarrow> (\<exists>d. r = Some d \<and> raw_enabled d = Some True)"
  by (auto simp: discovery_config_default_def deserialize_discovery_def or_default_def
      split: option.splits)

text \<open>The documents \<open>from_yaml\<close> accepts.\<close>

definition acceptable :: "raw_config \<Rightarrow> bool" where
  "acceptable d \<longleftrightarrow> raw_policy d \<noteq> None \<and> raw_workers d \<noteq> None
     \<and> (raw_workers d \<noteq> Some [] \<or> (\<exists>e. raw_discovery_cfg d = Some e \<and> raw_enabled e = Some True))"

lemma from_yaml_ok_iff:
  "is_ok (from_yaml yaml raw) \<longleftrightarrow> (\<exists>d. yaml raw = Inr d \<and> acceptable d)"
proof (cases "yaml raw")
  case (Inr d)
  show ?thesis
  proof (cases "deserialize_config d")
    case (Inl e)
    then show ?thesis
      using Inr deserialize_config_error [OF Inl] by (auto simp: from_yaml_def acceptable_def)
  next
    case (Inr c)
    then show ?thesis
      using \<open>yaml raw = Inr d\<close> deserialize_config_ok [OF Inr]
      by (simp add: from_yaml_def acceptable_def discovery_enabled_iff)
  qed
qed (simp add: from_yaml_def)

text \<open>
  Loading a configuration succeeds exactly when the file can be read, its YAML decodes
  with both required fields, and it lists a worker or enables discovery.
\<close>

theorem load_config_ok_iff:
  "is_ok (load_config read_to_string yaml path) \<longleftrightarrow>
     (\<exists>raw d. read_to_string path = Inr raw \<and> yaml raw = Inr d \<and> acceptable d)"
  by (cases "read_to_string path") (simp_all add: load_config_def from_yaml_ok_iff)

lemma load_config_error_kind:
  "load_config read_to_string yaml path = Inl e \<Longrightarrow> \<exists>m. e = ConfigError m"
  by (auto simp: load_config_def from_yaml_def split: sum.splits if_splits)

end
