(* ===== verification/Request.thy ===== *)
theory Request
  imports Hashing F64
begin

text \<open>
  \<open>crates/router-core/src/request.rs\<close>: the chat request and its canonical prompt. The lemmas
  say when the prompt determines the conversation, and that a conversation that grows keeps
  the block chain of what it had.
\<close>

section \<open>Requests\<close>

record chat_message =
  msg_role :: ustring
  msg_content :: ustring

text \<open>The unknown fields \<open>extra\<close> are \<open>serde_json\<close> values, a type parameter of the model.\<close>

record 'json chat_request =
  model :: ustring
  messages :: "chat_message list"
  max_tokens :: "u32 option"
  temperature :: "f64 option"
  stream :: bool
  extra :: "(ustring \<times> 'json) list"

text \<open>The loop of \<open>canonical_prompt\<close>: \<open>index\<close> counts the messages already pushed.\<close>

fun push_messages :: "nat \<Rightarrow> ustring \<Rightarrow> chat_message list \<Rightarrow> ustring" where
  "push_messages index prompt [] = prompt"
| "push_messages index prompt (m # ms) =
     (let prompt = (if index > 0 then prompt @ [10] else prompt);
          prompt = prompt @ msg_role m @ ascii '': '' @ msg_content m
      in push_messages (Suc index) prompt ms)"

definition canonical_prompt :: "'json chat_request \<Rightarrow> ustring" where
  "canonical_prompt request = push_messages 0 [] (messages request)"

section \<open>Shape of the prompt\<close>

definition message_line :: "chat_message \<Rightarrow> ustring" where
  "message_line m = msg_role m @ ascii '': '' @ msg_content m"

lemma push_messages_Suc:
  "push_messages (Suc i) p ms = p @ concat (map (\<lambda>m. 10 # message_line m) ms)"
  by (induction ms arbitrary: i p) (simp_all add: Let_def message_line_def)

text \<open>One line per message, joined by newlines.\<close>

fun join_lines :: "ustring list \<Rightarrow> ustring" where
  "join_lines [] = []"
| "join_lines (l # ls) = l @ concat (map (\<lambda>l. 10 # l) ls)"

lemma canonical_prompt_lines:
  "canonical_prompt r = join_lines (map message_line (messages r))"
  by (cases "messages r")
    (simp_all add: canonical_prompt_def push_messages_Suc message_line_def Let_def comp_def)

lemma join_lines_append:
  "ls \<noteq> [] \<Longrightarrow> join_lines (ls @ ms) = join_lines ls @ concat (map (\<lambda>l. 10 # l) ms)"
  by (cases ls) simp_all

lemma append_Cons_inj:
  "x \<notin> set us \<Longrightarrow> x \<notin> set vs \<Longrightarrow> us @ x # as = vs @ x # bs \<Longrightarrow> us = vs \<and> as = bs"
  by (induction us arbitrary: vs) (auto simp: Cons_eq_append_conv append_eq_Cons_conv)

lemma concat_lines_inj:
  assumes "\<forall>l \<in> set ls. 10 \<notin> set l" and "\<forall>l \<in> set ms. 10 \<notin> set l"
    and "concat (map (\<lambda>l. 10 # l) ls) = concat (map (\<lambda>l. (10 :: uchar) # l) ms)"
  shows "ls = ms"
  using assms
proof (induction ls arbitrary: ms)
  case Nil
  then show ?case by (cases ms) auto
next
  case (Cons l ls)
  then obtain m ms' where ms: "ms = m # ms'" by (cases ms) auto
  have eq: "l @ concat (map (\<lambda>l. 10 # l) ls) = m @ concat (map (\<lambda>l. (10 :: uchar) # l) ms')"
    using Cons.prems(3) ms by simp
  have first: "takeWhile (\<lambda>c. c \<noteq> 10) (l @ concat (map (\<lambda>l. (10 :: uchar) # l) ls)) = l"
    if "10 \<notin> set l" for l ls
  proof -
    have all: "\<forall>c \<in> set l. c \<noteq> 10" using that by auto
    then show ?thesis
      by (cases ls) (simp_all add: takeWhile_append2)
  qed
  have "l = m"
    using first [of l ls] first [of m ms'] eq Cons.prems ms by auto
  moreover have "ls = ms'"
  proof (rule Cons.IH)
    show "concat (map (\<lambda>l. 10 # l) ls) = concat (map (\<lambda>l. (10 :: uchar) # l) ms')"
      using eq \<open>l = m\<close> by (simp only: append_eq_append_conv same_append_eq)
  qed (use Cons.prems ms in auto)
  ultimately show ?case by (simp only: ms)
qed

lemma join_lines_inj:
  assumes "\<forall>l \<in> set ls. 10 \<notin> set l \<and> l \<noteq> []" and "\<forall>l \<in> set ms. 10 \<notin> set l \<and> l \<noteq> []"
    and "join_lines ls = join_lines ms"
  shows "ls = ms"
proof (cases "ls = [] \<or> ms = []")
  case True
  then show ?thesis using assms by (cases ls; cases ms) auto
next
  case False
  then have "10 # join_lines ls = concat (map (\<lambda>l. 10 # l) ls)"
    and "10 # join_lines ms = concat (map (\<lambda>l. 10 # l) ms)"
    by (cases ls; cases ms; simp)+
  then show ?thesis
    using concat_lines_inj [of ls ms] assms by auto
qed

text \<open>Messages whose text cannot be mistaken for the separators of the prompt.\<close>

definition plain_message :: "chat_message \<Rightarrow> bool" where
  "plain_message m \<longleftrightarrow> 10 \<notin> set (msg_role m) \<and> 58 \<notin> set (msg_role m) \<and> 10 \<notin> set (msg_content m)"

lemma message_line_inj:
  assumes "plain_message m" and "plain_message n" and "message_line m = message_line n"
  shows "m = n"
proof -
  have "msg_role m @ 58 # (32 # msg_content m) = msg_role n @ 58 # (32 # msg_content n)"
    using assms(3) by (simp add: message_line_def ascii_def)
  then have "msg_role m = msg_role n \<and> 32 # msg_content m = 32 # msg_content n"
    using assms by (intro append_Cons_inj) (auto simp: plain_message_def)
  then show ?thesis by simp
qed

section \<open>Properties\<close>

text \<open>
  C27: the canonical prompt identifies the conversation: two requests whose roles contain no
  colon or newline and whose contents contain no newline have the same prompt exactly when
  their messages are equal.
\<close>

theorem canonical_prompt_identifies:
  assumes "\<forall>m \<in> set (messages r). plain_message m" and "\<forall>m \<in> set (messages s). plain_message m"
  shows "canonical_prompt r = canonical_prompt s \<longleftrightarrow> messages r = messages s"
proof
  assume "canonical_prompt r = canonical_prompt s"
  then have "map message_line (messages r) = map message_line (messages s)"
    using assms by (intro join_lines_inj)
      (auto simp: canonical_prompt_lines message_line_def plain_message_def ascii_def)
  then show "messages r = messages s"
    using assms message_line_inj
    by (intro map_inj_on [where f = message_line]) (auto intro!: inj_onI)
qed (simp add: canonical_prompt_lines)

text \<open>A two-message conversation used by the witnesses.\<close>

definition sample_request :: "ustring \<Rightarrow> ustring list \<Rightarrow> unit chat_request" where
  "sample_request content replies =
     \<lparr>model = ascii ''mock'',
      messages = \<lparr>msg_role = ascii ''user'', msg_content = content\<rparr>
        # map (\<lambda>c. \<lparr>msg_role = ascii ''assistant'', msg_content = c\<rparr>) replies,
      max_tokens = None, temperature = None, stream = False, extra = []\<rparr>"

theorem canonical_prompt_identifies_witness:
  "canonical_prompt (sample_request (ascii ''hi'') [ascii ''yo''])
     \<noteq> canonical_prompt (sample_request (ascii ''hi'') [ascii ''ye''])"
proof -
  have plain: "\<forall>m \<in> set (messages (sample_request (ascii ''hi'') [ascii x])). plain_message m"
    if "x = ''yo'' \<or> x = ''ye''" for x
    using that by (auto simp: sample_request_def plain_message_def ascii_def)
  have "messages (sample_request (ascii ''hi'') [ascii ''yo''])
      \<noteq> messages (sample_request (ascii ''hi'') [ascii ''ye''])"
    by (simp add: sample_request_def ascii_def)
  then show ?thesis
    using canonical_prompt_identifies [OF plain plain, of "''yo''" "''ye''"] by simp
qed

text \<open>
  Without that condition the prompt does not separate roles: one user message whose text
  contains a newline and a role label has the same prompt, hence the same chain, as a user
  message followed by an assistant message.
\<close>

theorem newline_forges_a_turn:
  "canonical_prompt (sample_request (u @ [10] @ ascii ''assistant: '' @ a) [])
     = canonical_prompt (sample_request u [a])"
  by (simp add: canonical_prompt_def sample_request_def Let_def ascii_def)

text \<open>
  A conversation that grows keeps its chain: when the messages of \<open>s\<close> extend those of \<open>r\<close>,
  every whole block of the prompt of \<open>r\<close> has the same hash in the chain of \<open>s\<close>.
\<close>

lemma extended_prompt_shares_chain:
  assumes "0 < block_size" and "messages r \<noteq> []" and "messages s = messages r @ new"
    and "k = length (canonical_prompt r) div block_size"
  shows "take k (chain_hash (canonical_prompt s) block_size)
     = take k (chain_hash (canonical_prompt r) block_size)"
proof -
  let ?rest = "concat (map (\<lambda>l. 10 # l) (map message_line new))"
  have s: "canonical_prompt s = canonical_prompt r @ ?rest"
    using assms(2,3) by (simp add: canonical_prompt_lines join_lines_append)
  have "k * block_size \<le> length (canonical_prompt r)"
    using assms(4) by simp
  then show ?thesis
    using assms(1) by (intro shared_text_shares_hashes) (simp_all add: s)
qed

end
