(* ===== verification/Registry.thy ===== *)
theory Registry
  imports Config
begin

text \<open>
  \<open>crates/router-core/src/worker.rs\<close>: the worker registry. Every operation takes the write or
  read lock once, so each is one atomic step on the state. The locale \<open>worker_set\<close> is the
  contract the router, the health poller and discovery rely on; the registry interprets it.
\<close>

section \<open>State\<close>

record worker =
  wid :: worker_id
  url :: string
  wpool :: pool

record worker_state =
  ws_worker :: worker
  ws_healthy :: bool

record worker_registry =
  reg_workers :: "(worker_id, worker_state) hashmap"
  next_id :: u64

section \<open>Contract\<close>

text \<open>
  \<open>status r i\<close> is the worker registered under \<open>i\<close> with its health; \<open>room r\<close> says the
  identifier counter is not about to wrap.
\<close>

locale worker_set =
  fixes inv :: "'r \<Rightarrow> bool"
    and status :: "'r \<Rightarrow> worker_id \<Rightarrow> (worker \<times> bool) option"
    and room :: "'r \<Rightarrow> bool"
    and register :: "string \<Rightarrow> pool \<Rightarrow> 'r \<Rightarrow> worker_id \<times> 'r"
    and remove :: "worker_id \<Rightarrow> 'r \<Rightarrow> 'r"
    and mark :: "worker_id \<Rightarrow> bool \<Rightarrow> 'r \<Rightarrow> bool \<times> 'r"
    and everyone :: "'r \<Rightarrow> worker list"
    and healthy :: "'r \<Rightarrow> worker list"
  assumes inv_register: "inv r \<Longrightarrow> room r \<Longrightarrow> inv (snd (register u p r))"
    and inv_remove: "inv r \<Longrightarrow> inv (remove i r)"
    and inv_mark: "inv r \<Longrightarrow> inv (snd (mark i b r))"
    and status_wid: "inv r \<Longrightarrow> status r i = Some (w, b) \<Longrightarrow> wid w = i"
    and register_fresh: "inv r \<Longrightarrow> status r (fst (register u p r)) = None"
    and status_register: "inv r \<Longrightarrow> status (snd (register u p r))
        = (status r)(fst (register u p r) \<mapsto> (\<lparr>wid = fst (register u p r), url = u, wpool = p\<rparr>, False))"
    and status_remove: "inv r \<Longrightarrow> status (remove i r) = (status r)(i := None)"
    and status_mark: "inv r \<Longrightarrow> status (snd (mark i b r))
        = (status r)(i := map_option (\<lambda>(w, _). (w, b)) (status r i))"
    and mark_changed: "inv r \<Longrightarrow> fst (mark i b r) \<longleftrightarrow> (\<exists>w. status r i = Some (w, \<not> b))"
    and everyone_set: "inv r \<Longrightarrow> set (everyone r) = {w. \<exists>b. status r (wid w) = Some (w, b)}"
    and everyone_sorted: "inv r \<Longrightarrow> sorted_wrt (<) (map wid (everyone r))"
    and healthy_set: "inv r \<Longrightarrow> set (healthy r) = {w. status r (wid w) = Some (w, True)}"
    and healthy_sorted: "inv r \<Longrightarrow> sorted_wrt (<) (map wid (healthy r))"
begin

lemma everyone_distinct: "inv r \<Longrightarrow> distinct (map wid (everyone r))"
  using everyone_sorted strict_sorted_iff by blast

lemma healthy_distinct: "inv r \<Longrightarrow> distinct (map wid (healthy r))"
  using healthy_sorted strict_sorted_iff by blast

lemma healthy_subset_everyone: "inv r \<Longrightarrow> set (healthy r) \<subseteq> set (everyone r)"
  by (auto simp: healthy_set everyone_set)

text \<open>What a removed or freshly registered worker can no longer, or not yet, be.\<close>

lemma removed_not_healthy: "inv r \<Longrightarrow> w \<in> set (healthy (remove i r)) \<Longrightarrow> wid w \<noteq> i"
  by (auto simp: healthy_set inv_remove status_remove split: if_splits)

lemma registered_not_healthy:
  "inv r \<Longrightarrow> room r \<Longrightarrow> set (healthy (snd (register u p r))) = set (healthy r)"
  by (auto simp: healthy_set inv_register status_register register_fresh split: if_splits)

lemma mark_false_not_healthy:
  "inv r \<Longrightarrow> set (healthy (snd (mark i False r))) = {w \<in> set (healthy r). wid w \<noteq> i}"
  by (auto simp: healthy_set inv_mark status_mark split: if_splits option.splits)

lemma mark_true_healthy:
  "inv r \<Longrightarrow> set (healthy (snd (mark i True r)))
     = set (healthy r) \<union> {w \<in> set (everyone r). wid w = i}"
  by (auto simp: healthy_set everyone_set inv_mark status_mark split: if_splits option.splits)

end

section \<open>Operations\<close>

definition from_config :: "worker_config list \<Rightarrow> worker_registry" where
  "from_config configs =
     \<lparr>reg_workers = hm_collect (map (\<lambda>(index, config).
        let i = of_nat index
        in (i, \<lparr>ws_worker = \<lparr>wid = i, url = wc_url config, wpool = wc_pool config\<rparr>,
                 ws_healthy = False\<rparr>)) (enumerate 0 configs)),
      next_id = of_nat (length configs)\<rparr>"

definition register_worker :: "string \<Rightarrow> pool \<Rightarrow> worker_registry \<Rightarrow> worker_id \<times> worker_registry" where
  "register_worker u p r =
     (let i = next_id r;
          r = r\<lparr>next_id := i + 1\<rparr>;
          worker = \<lparr>wid = i, url = u, wpool = p\<rparr>
      in (i, r\<lparr>reg_workers := hm_insert i \<lparr>ws_worker = worker, ws_healthy = False\<rparr> (reg_workers r)\<rparr>))"

definition remove_worker :: "worker_id \<Rightarrow> worker_registry \<Rightarrow> worker option \<times> worker_registry" where
  "remove_worker i r =
     (map_option ws_worker (hm_get (reg_workers r) i), r\<lparr>reg_workers := hm_remove i (reg_workers r)\<rparr>)"

definition set_healthy :: "worker_id \<Rightarrow> bool \<Rightarrow> worker_registry \<Rightarrow> bool \<times> worker_registry" where
  "set_healthy i h r =
     (case hm_get (reg_workers r) i of
        Some state \<Rightarrow>
          (ws_healthy state \<noteq> h,
           r\<lparr>reg_workers := hm_modify i (ws_healthy_update (\<lambda>_. h)) (reg_workers r)\<rparr>)
      | None \<Rightarrow> (False, r))"

definition get_worker :: "worker_registry \<Rightarrow> worker_id \<Rightarrow> worker option" where
  "get_worker r i = map_option ws_worker (hm_get (reg_workers r) i)"

definition is_healthy :: "worker_registry \<Rightarrow> worker_id \<Rightarrow> bool" where
  "is_healthy r i = (case hm_get (reg_workers r) i of Some state \<Rightarrow> ws_healthy state | None \<Rightarrow> False)"

definition all_workers :: "worker_registry \<Rightarrow> worker list" where
  "all_workers r = sort_key wid (map (ws_worker \<circ> snd) (reg_workers r))"

definition healthy_workers :: "worker_registry \<Rightarrow> worker list" where
  "healthy_workers r =
     sort_key wid (map ws_worker (filter ws_healthy (map snd (reg_workers r))))"

definition healthy_count :: "worker_registry \<Rightarrow> nat" where
  "healthy_count r = length (filter ws_healthy (map snd (reg_workers r)))"

definition any_healthy :: "worker_registry \<Rightarrow> bool" where
  "any_healthy r = list_ex ws_healthy (map snd (reg_workers r))"

section \<open>Invariant\<close>

text \<open>Keys are distinct, a worker is stored under its own identifier, and every identifier in
  use is below the allocator.\<close>

definition reg_inv :: "worker_registry \<Rightarrow> bool" where
  "reg_inv r \<longleftrightarrow> hm_ok (reg_workers r)
     \<and> (\<forall>(i, s) \<in> set (reg_workers r). wid (ws_worker s) = i \<and> i < next_id r)"

definition reg_status :: "worker_registry \<Rightarrow> worker_id \<Rightarrow> (worker \<times> bool) option" where
  "reg_status r i = map_option (\<lambda>s. (ws_worker s, ws_healthy s)) (hm_get (reg_workers r) i)"

definition reg_room :: "worker_registry \<Rightarrow> bool" where
  "reg_room r \<longleftrightarrow> next_id r \<noteq> - 1"

lemma reg_invI:
  assumes "hm_ok (reg_workers r)"
    and "\<And>i s. hm_get (reg_workers r) i = Some s \<Longrightarrow> wid (ws_worker s) = i \<and> i < next_id r"
  shows "reg_inv r"
  using assms by (auto simp: reg_inv_def hm_get_eq_Some)

lemma reg_invD:
  assumes "reg_inv r"
  shows "hm_ok (reg_workers r)"
    and "hm_get (reg_workers r) i = Some s \<Longrightarrow> wid (ws_worker s) = i"
    and "hm_get (reg_workers r) i = Some s \<Longrightarrow> i < next_id r"
  using assms by (auto simp: reg_inv_def hm_get_eq_Some)

text \<open>The \<open>i\<close>-th configured worker, and the table \<open>from_config\<close> builds from all of them.\<close>

definition configured_worker :: "worker_config list \<Rightarrow> nat \<Rightarrow> worker" where
  "configured_worker configs i =
     \<lparr>wid = of_nat i, url = wc_url (configs ! i), wpool = wc_pool (configs ! i)\<rparr>"

lemma from_config_table:
  assumes "length configs < 2 ^ 64"
  shows "reg_workers (from_config configs)
      = map (\<lambda>i. (of_nat i, \<lparr>ws_worker = configured_worker configs i, ws_healthy = False\<rparr>)) [0..<length configs]"
    and "hm_ok (reg_workers (from_config configs))"
proof -
  let ?kvs = "map (\<lambda>i. (of_nat i, \<lparr>ws_worker = configured_worker configs i, ws_healthy = False\<rparr>))
      [0..<length configs] :: (worker_id, worker_state) hashmap"
  have "inj_on (of_nat :: nat \<Rightarrow> u64) {0..<length configs}"
    using assms by (auto intro!: inj_onI simp: word_of_nat_eq_iff take_bit_nat_eq_self)
  then have ok: "hm_ok ?kvs" by (simp add: distinct_map comp_def)
  have "map (\<lambda>(index, config). let i = of_nat index
        in (i, \<lparr>ws_worker = \<lparr>wid = i, url = wc_url config, wpool = wc_pool config\<rparr>, ws_healthy = False\<rparr>))
      (enumerate 0 configs) = ?kvs"
    by (rule nth_equalityI) (simp_all add: nth_enumerate_eq Let_def configured_worker_def)
  then have table: "reg_workers (from_config configs) = ?kvs"
    by (simp add: from_config_def hm_collect_distinct [OF ok])
  show "reg_workers (from_config configs) = ?kvs" by (rule table)
  show "hm_ok (reg_workers (from_config configs))" unfolding table by (rule ok)
qed

lemma reg_inv_from_config:
  assumes "length configs < 2 ^ 64"
  shows "reg_inv (from_config configs)"
  using from_config_table(2) [OF assms] assms
  unfolding reg_inv_def from_config_table(1) [OF assms]
  by (auto simp: configured_worker_def from_config_def word_less_nat_alt unat_of_nat take_bit_nat_eq_self)

lemma status_from_config:
  assumes "length configs < 2 ^ 64"
  shows "reg_status (from_config configs) i
    = (if unat i < length configs then Some (configured_worker configs (unat i), False) else None)"
proof (cases "unat i < length configs")
  case True
  then have "(i, \<lparr>ws_worker = configured_worker configs (unat i), ws_healthy = False\<rparr>) \<in> set (reg_workers (from_config configs))"
    unfolding from_config_table(1) [OF assms] by (auto intro!: rev_image_eqI [of "unat i"])
  then show ?thesis
    using True from_config_table(2) [OF assms] by (simp add: reg_status_def hm_get_def)
next
  case False
  have "unat (of_nat k :: u64) = k" if "k < length configs" for k
    using that assms by (simp add: unat_of_nat take_bit_nat_eq_self)
  then have "i \<notin> fst ` set (reg_workers (from_config configs))"
    using False unfolding from_config_table(1) [OF assms] by auto
  then show ?thesis
    using False by (simp add: reg_status_def hm_get_None [symmetric])
qed

lemma hm_ok_values_distinct:
  assumes "reg_inv r"
  shows "distinct (map wid (map ws_worker (filter P (map snd (reg_workers r)))))"
proof -
  have wids: "map wid (map ws_worker (map snd kvs)) = map fst kvs"
    if "\<forall>(i, s) \<in> set kvs. wid (ws_worker s) = i \<and> i < next_id r" for kvs
    using that by (induction kvs) auto
  have "distinct (map wid (map ws_worker (filter P (map snd kvs))))"
    if "\<forall>(i, s) \<in> set kvs. wid (ws_worker s) = i \<and> i < next_id r" and "hm_ok kvs" for kvs
    using that
  proof (induction kvs)
    case (Cons kv kvs)
    then have "distinct (map wid (map ws_worker (filter P (map snd kvs))))" by simp
    moreover have "set (map wid (map ws_worker (map snd kvs))) = set (map fst kvs)"
      using wids [of kvs] Cons.prems(1) by (simp del: map_map)
    then have "wid (ws_worker (snd kv)) \<notin> set (map wid (map ws_worker (map snd kvs)))"
      using Cons.prems by (cases kv) (simp del: map_map)
    ultimately show ?case by auto
  qed simp
  then show ?thesis using assms by (auto simp: reg_inv_def)
qed

lemma sorted_wid_sort_key:
  "distinct (map wid ws) \<Longrightarrow> sorted_wrt (<) (map wid (sort_key wid ws))"
  by (simp add: strict_sorted_iff distinct_map)

lemma sorted_wid_unique:
  assumes "sorted_wrt (<) (map wid xs)" and "sorted_wrt (<) (map wid ys)" and "set xs = set ys"
  shows "xs = ys"
proof -
  have "map wid xs = map wid ys"
    using assms by (intro strict_sorted_equal) auto
  moreover have "inj_on wid (set xs \<union> set ys)"
    using assms by (simp add: strict_sorted_iff distinct_map)
  ultimately show ?thesis
    by (rule map_inj_on)
qed

lemma set_reg_values:
  "reg_inv r \<Longrightarrow> ws_worker ` {s \<in> snd ` set (reg_workers r). P (ws_healthy s)}
     = {w. \<exists>b. P b \<and> reg_status r (wid w) = Some (w, b)}"
proof (intro equalityI subsetI)
  fix w
  assume "reg_inv r" and "w \<in> ws_worker ` {s \<in> snd ` set (reg_workers r). P (ws_healthy s)}"
  then obtain i s where "(i, s) \<in> set (reg_workers r)" and "P (ws_healthy s)" and "w = ws_worker s"
    and "hm_ok (reg_workers r)" and "wid (ws_worker s) = i"
    by (auto simp: reg_inv_def)
  then show "w \<in> {w. \<exists>b. P b \<and> reg_status r (wid w) = Some (w, b)}"
    by (auto simp: reg_status_def hm_get_eq_Some)
next
  fix w
  assume inv: "reg_inv r" and "w \<in> {w. \<exists>b. P b \<and> reg_status r (wid w) = Some (w, b)}"
  then obtain s where "hm_get (reg_workers r) (wid w) = Some s" and "ws_worker s = w" and "P (ws_healthy s)"
    by (auto simp: reg_status_def)
  then show "w \<in> ws_worker ` {s \<in> snd ` set (reg_workers r). P (ws_healthy s)}"
    using reg_invD(1) [OF inv] by (force simp: hm_get_eq_Some)
qed

lemma set_all_workers:
  "reg_inv r \<Longrightarrow> set (all_workers r) = {w. \<exists>b. reg_status r (wid w) = Some (w, b)}"
  using set_reg_values [of r "\<lambda>_. True"] by (simp add: all_workers_def image_image comp_def)

lemma set_healthy_workers:
  "reg_inv r \<Longrightarrow> set (healthy_workers r) = {w. reg_status r (wid w) = Some (w, True)}"
  using set_reg_values [of r "\<lambda>b. b"] by (auto simp: healthy_workers_def)

lemma reg_inv_register: "reg_inv r \<Longrightarrow> reg_room r \<Longrightarrow> reg_inv (snd (register_worker u p r))"
  by (rule reg_invI)
    (auto simp: register_worker_def Let_def hashmap_simps reg_room_def less_add_one less_add_one_self
      reg_invD split: if_splits)

lemma reg_inv_remove: "reg_inv r \<Longrightarrow> reg_inv (snd (remove_worker i r))"
  by (rule reg_invI) (auto simp: remove_worker_def hashmap_simps reg_invD split: if_splits)

lemma reg_inv_set_healthy: "reg_inv r \<Longrightarrow> reg_inv (snd (set_healthy i h r))"
  by (rule reg_invI)
    (auto simp: set_healthy_def hashmap_simps reg_invD split: if_splits option.splits)

interpretation reg: worker_set reg_inv reg_status reg_room register_worker
  "\<lambda>i r. snd (remove_worker i r)" set_healthy all_workers healthy_workers
proof unfold_locales
  fix r u p i b w
  assume inv: "reg_inv r"
  show "reg_status r i = Some (w, b) \<Longrightarrow> wid w = i"
    using inv by (auto simp: reg_status_def reg_invD)
  show "reg_status r (fst (register_worker u p r)) = None"
    using reg_invD(3) [OF inv, of "next_id r"]
    by (cases "hm_get (reg_workers r) (next_id r)") (auto simp: reg_status_def register_worker_def Let_def)
  show "reg_status (snd (register_worker u p r)) = (reg_status r)
      (fst (register_worker u p r) \<mapsto> (\<lparr>wid = fst (register_worker u p r), url = u, wpool = p\<rparr>, False))"
    by (auto simp: reg_status_def register_worker_def Let_def hashmap_simps)
  show "reg_status (snd (remove_worker i r)) = (reg_status r)(i := None)"
    by (auto simp: reg_status_def remove_worker_def hashmap_simps)
  show "reg_status (snd (set_healthy i b r))
      = (reg_status r)(i := map_option (\<lambda>(w, _). (w, b)) (reg_status r i))"
    by (rule ext) (auto simp: reg_status_def set_healthy_def hashmap_simps split: option.splits)
  show "fst (set_healthy i b r) \<longleftrightarrow> (\<exists>w. reg_status r i = Some (w, \<not> b))"
    by (auto simp: reg_status_def set_healthy_def split: option.splits)
  show "sorted_wrt (<) (map wid (all_workers r))"
    unfolding all_workers_def
    by (rule sorted_wid_sort_key)
      (use hm_ok_values_distinct [OF inv, of "\<lambda>_. True"] in \<open>simp add: comp_assoc\<close>)
  show "sorted_wrt (<) (map wid (healthy_workers r))"
    unfolding healthy_workers_def
    by (rule sorted_wid_sort_key) (rule hm_ok_values_distinct [OF inv])
qed (simp_all add: reg_inv_register reg_inv_remove reg_inv_set_healthy set_all_workers
    set_healthy_workers)

lemmas registry_laws = reg.inv_register reg.inv_remove reg.inv_mark reg.status_register
  reg.status_remove reg.status_mark reg.mark_changed reg.healthy_set reg.everyone_set

lemma healthy_count_length: "healthy_count r = length (healthy_workers r)"
  by (simp add: healthy_count_def healthy_workers_def)

lemma any_healthy_iff: "any_healthy r \<longleftrightarrow> healthy_workers r \<noteq> []"
proof -
  have "healthy_workers r = [] \<longleftrightarrow> filter ws_healthy (map snd (reg_workers r)) = []"
    unfolding healthy_workers_def by (metis length_0_conv length_map length_sort)
  then show ?thesis
    by (auto simp: any_healthy_def list_ex_iff filter_empty_conv)
qed

section \<open>Identifiers are never reused\<close>

text \<open>A run of the operations that change the registry, with the identifiers it hands out.\<close>

datatype registry_op = Register string pool | Remove worker_id | SetHealthy worker_id bool

fun registry_step :: "registry_op \<Rightarrow> worker_registry \<Rightarrow> worker_id list \<times> worker_registry" where
  "registry_step (Register u p) r = (let (i, r') = register_worker u p r in ([i], r'))"
| "registry_step (Remove i) r = ([], snd (remove_worker i r))"
| "registry_step (SetHealthy i b) r = ([], snd (set_healthy i b r))"

fun registry_run :: "registry_op list \<Rightarrow> worker_registry \<Rightarrow> worker_id list \<times> worker_registry" where
  "registry_run [] r = ([], r)"
| "registry_run (op # ops) r =
     (let (is, r') = registry_step op r; (js, r'') = registry_run ops r' in (is @ js, r''))"

lemma next_id_simps [simp]:
  "next_id (snd (remove_worker i r)) = next_id r"
  "next_id (snd (set_healthy i b r)) = next_id r"
  "next_id (snd (register_worker u p r)) = next_id r + 1"
  "fst (register_worker u p r) = next_id r"
  by (simp_all add: remove_worker_def set_healthy_def register_worker_def Let_def split: option.splits)

lemma registry_run_ids:
  assumes "reg_inv r" and "unat (next_id r) + length ops < 2 ^ 64"
  shows "reg_inv (snd (registry_run ops r)) \<and> sorted_wrt (<) (fst (registry_run ops r))
     \<and> (\<forall>i \<in> set (fst (registry_run ops r)). next_id r \<le> i)"
  using assms
proof (induction ops arbitrary: r)
  case (Cons op ops)
  show ?case
  proof (cases op)
    case (Register u p)
    let ?r = "snd (register_worker u p r)"
    have room: "reg_room r"
      using Cons.prems(2) by (auto simp: reg_room_def unat_max_u64)
    then have step: "unat (next_id r + 1) = unat (next_id r) + 1"
      by (simp add: reg_room_def unat_add_one)
    have "reg_inv ?r"
      using Cons.prems(1) room by (rule reg_inv_register)
    moreover have "unat (next_id ?r) + length ops < 2 ^ 64"
      using Cons.prems(2) step by simp
    ultimately have "reg_inv (snd (registry_run ops ?r)) \<and> sorted_wrt (<) (fst (registry_run ops ?r))
        \<and> (\<forall>i \<in> set (fst (registry_run ops ?r)). next_id r + 1 \<le> i)"
      using Cons.IH [of ?r] by simp
    moreover have "next_id r + 1 \<le> i \<Longrightarrow> next_id r < i" for i
      using step by (simp add: word_le_nat_alt word_less_nat_alt)
    ultimately show ?thesis
      using Register by (auto simp: Let_def case_prod_beta intro: less_imp_le)
  next
    case (Remove i)
    then show ?thesis
      using Cons.prems Cons.IH [of "snd (remove_worker i r)"]
      by (simp add: reg_inv_remove case_prod_beta)
  next
    case (SetHealthy i b)
    then show ?thesis
      using Cons.prems Cons.IH [of "snd (set_healthy i b r)"]
      by (simp add: reg_inv_set_healthy case_prod_beta)
  qed
qed simp

text \<open>
  Over any run of registrations, removals and health updates (fewer than \<open>2^64\<close> of them)
  the registry hands out strictly increasing identifiers, all at or above the allocator's
  start, below which every worker registered before lies: a replacement worker cannot inherit
  the affinity of a removed one.
\<close>

theorem worker_ids_never_reused:
  assumes "reg_inv r" and "unat (next_id r) + length ops < 2 ^ 64"
    and "registry_run ops r = (ids, r')"
  shows "sorted_wrt (<) ids \<and> (\<forall>i \<in> set ids. next_id r \<le> i \<and> get_worker r i = None)"
proof -
  have "sorted_wrt (<) ids" and ge: "\<forall>i \<in> set ids. next_id r \<le> i"
    using registry_run_ids [OF assms(1,2)] assms(3) by auto
  moreover have "get_worker r i = None" if "next_id r \<le> i" for i
    using reg_invD(3) [OF assms(1), of i] that
    by (cases "hm_get (reg_workers r) i") (auto simp: get_worker_def)
  ultimately show ?thesis by blast
qed

lemma all_workers_from_config:
  assumes "length configs < 2 ^ 64"
  shows "all_workers (from_config configs) = map (configured_worker configs) [0..<length configs]"
proof (rule sorted_wid_unique)
  note inv = reg_inv_from_config [OF assms]
  show "sorted_wrt (<) (map wid (all_workers (from_config configs)))" by (rule reg.everyone_sorted [OF inv])
  have "(of_nat i :: worker_id) < of_nat j" if "i < j" and "j < length configs" for i j
    using that assms by (simp add: word_less_nat_alt unat_of_nat take_bit_nat_eq_self)
  then show "sorted_wrt (<) (map wid (map (configured_worker configs) [0..<length configs]))"
    by (auto simp: configured_worker_def sorted_wrt_iff_nth_less)
  have small: "unat (of_nat i :: worker_id) = i" if "i < length configs" for i
    using that assms by (simp add: unat_of_nat take_bit_nat_eq_self)
  have "w \<in> set (all_workers (from_config configs)) \<longleftrightarrow> w \<in> configured_worker configs ` {0..<length configs}" for w
  proof
    assume "w \<in> set (all_workers (from_config configs))"
    then show "w \<in> configured_worker configs ` {0..<length configs}"
      unfolding reg.everyone_set [OF inv] status_from_config [OF assms]
      by (auto split: if_splits intro!: rev_image_eqI [of "unat (wid w)"])
  next
    assume "w \<in> configured_worker configs ` {0..<length configs}"
    then obtain i where i: "i < length configs" "w = configured_worker configs i" by auto
    moreover from this have "unat (wid w) = i" using small by (simp add: configured_worker_def)
    ultimately show "w \<in> set (all_workers (from_config configs))"
      unfolding reg.everyone_set [OF inv] status_from_config [OF assms] by (simp add: exI [of _ False])
  qed
  then show "set (all_workers (from_config configs)) = set (map (configured_worker configs) [0..<length configs])"
    by auto
qed

definition two_workers :: "worker_config list" where
  "two_workers = [\<lparr>wc_url = ''http://a'', wc_pool = Both\<rparr>, \<lparr>wc_url = ''http://b'', wc_pool = Both\<rparr>]"

theorem worker_ids_never_reused_witness:
  "\<exists>r'. registry_run [Register ''http://c'' Both, Remove 2, Register ''http://d'' Both]
     (from_config two_workers) = ([2, 3], r') \<and> sorted_wrt (<) [2 :: worker_id, 3]"
proof -
  let ?ops = "[Register ''http://c'' Both, Remove 2, Register ''http://d'' Both]"
  obtain ids r' where run: "registry_run ?ops (from_config two_workers) = (ids, r')"
    by (cases "registry_run ?ops (from_config two_workers)")
  have "reg_inv (from_config two_workers)"
    by (rule reg_inv_from_config) (simp add: two_workers_def)
  then have "sorted_wrt (<) ids \<and> (\<forall>i \<in> set ids. next_id (from_config two_workers) \<le> i
      \<and> get_worker (from_config two_workers) i = None)"
    by (rule worker_ids_never_reused [OF _ _ run]) (simp add: two_workers_def from_config_def)
  moreover have "ids = [2, 3]"
    using run by (simp add: two_workers_def from_config_def Let_def case_prod_beta)
  ultimately show ?thesis using run by blast
qed

end
