(* ===== verification/PrefixIndex.thy ===== *)
theory PrefixIndex
  imports Config
begin

unbundle bit_operations_syntax

text \<open>
  \<open>crates/router-core/src/prefix.rs\<close>: the sharded prefix index. Each lock section of the code
  is one definition on one shard; the operations are compositions of them. The locale
  \<open>belief_index\<close> is the contract the router uses; \<open>bounded_index\<close> adds eviction. The index is
  refined to a flat map, so the shard count is no correctness parameter, and its invariant
  holds under every interleaving of the lock sections.
\<close>

section \<open>State\<close>

definition num_shards :: nat where
  "num_shards = 64"

record index_entry =
  entry_workers :: "worker_id list"
  last_touched :: instant

record shard =
  entries :: "(u64, index_entry) hashmap"

record prefix_index =
  shards :: "shard list"

record eviction_stats =
  expired :: nat
  lru_evicted :: nat

definition index_new :: prefix_index where
  "index_new = \<lparr>shards = map (\<lambda>_. \<lparr>entries = []\<rparr>) [0..<num_shards]\<rparr>"

text \<open>\<open>(hash as usize) & (NUM_SHARDS - 1)\<close>.\<close>

definition shard_of :: "u64 \<Rightarrow> nat" where
  "shard_of hash = unat (hash AND 63)"

text \<open>A lock section: change the entries of shard \<open>i\<close>.\<close>

definition with_shard ::
  "nat \<Rightarrow> ((u64, index_entry) hashmap \<Rightarrow> (u64, index_entry) hashmap) \<Rightarrow> prefix_index \<Rightarrow> prefix_index"
  where
  "with_shard i f idx = idx\<lparr>shards := (shards idx)[i := (shards idx ! i)\<lparr>entries := f (entries (shards idx ! i))\<rparr>]\<rparr>"

definition shard_entries :: "prefix_index \<Rightarrow> u64 \<Rightarrow> (u64, index_entry) hashmap" where
  "shard_entries idx hash = entries (shards idx ! shard_of hash)"

section \<open>Operations\<close>

text \<open>One iteration of \<open>record\<close>: \<open>entry(hash).or_insert_with(..)\<close>, add the worker, touch.\<close>

definition record_block :: "instant \<Rightarrow> worker_id \<Rightarrow> u64 \<Rightarrow> prefix_index \<Rightarrow> prefix_index" where
  "record_block now worker hash idx =
     with_shard (shard_of hash)
       (\<lambda>es. let entry = (case hm_get es hash of None \<Rightarrow> \<lparr>entry_workers = [], last_touched = now\<rparr>
                           | Some e \<Rightarrow> e);
                 entry = (if worker \<in> set (entry_workers entry) then entry
                          else entry\<lparr>entry_workers := entry_workers entry @ [worker]\<rparr>)
             in hm_insert hash (entry\<lparr>last_touched := now\<rparr>) es) idx"

definition index_record :: "instant \<Rightarrow> worker_id \<Rightarrow> u64 list \<Rightarrow> prefix_index \<Rightarrow> prefix_index" where
  "index_record now worker chain idx = fold (record_block now worker) chain idx"

text \<open>The read pass of \<open>longest_match\<close> stops at the first block not held; the touch pass
  follows.\<close>

fun matched_hashes :: "worker_id \<Rightarrow> u64 list \<Rightarrow> prefix_index \<Rightarrow> u64 list" where
  "matched_hashes worker [] idx = []"
| "matched_hashes worker (hash # chain) idx =
     (case hm_get (shard_entries idx hash) hash of
        Some entry \<Rightarrow> if worker \<in> set (entry_workers entry)
                      then hash # matched_hashes worker chain idx else []
      | None \<Rightarrow> [])"

definition touch_block :: "instant \<Rightarrow> u64 \<Rightarrow> prefix_index \<Rightarrow> prefix_index" where
  "touch_block now hash idx =
     with_shard (shard_of hash) (hm_modify hash (last_touched_update (\<lambda>_. now))) idx"

definition longest_match :: "instant \<Rightarrow> worker_id \<Rightarrow> u64 list \<Rightarrow> prefix_index \<Rightarrow> nat \<times> prefix_index" where
  "longest_match now worker chain idx =
     (let matched = matched_hashes worker chain idx
      in (length matched, fold (touch_block now) matched idx))"

definition purge_shard :: "worker_id \<Rightarrow> nat \<Rightarrow> prefix_index \<Rightarrow> prefix_index" where
  "purge_shard worker i =
     with_shard i (hm_retain (\<lambda>_ entry.
       let ws = filter (\<lambda>w. w \<noteq> worker) (entry_workers entry)
       in if ws = [] then None else Some (entry\<lparr>entry_workers := ws\<rparr>)))"

definition index_remove_worker :: "worker_id \<Rightarrow> prefix_index \<Rightarrow> prefix_index" where
  "index_remove_worker worker idx = fold (purge_shard worker) [0..<length (shards idx)] idx"

definition index_len :: "prefix_index \<Rightarrow> nat" where
  "index_len idx = sum_list (map (\<lambda>s. length (entries s)) (shards idx))"

definition index_is_empty :: "prefix_index \<Rightarrow> bool" where
  "index_is_empty idx \<longleftrightarrow> index_len idx = 0"

definition expire_shard :: "instant \<Rightarrow> duration \<Rightarrow> nat \<Rightarrow> prefix_index \<Rightarrow> prefix_index" where
  "expire_shard now ttl i =
     with_shard i (hm_retain (\<lambda>_ entry.
       if duration_since now (last_touched entry) \<le> ttl then Some entry else None))"

text \<open>The TTL pass counts, shard by shard, how many entries it dropped.\<close>

fun expire_pass :: "instant \<Rightarrow> duration \<Rightarrow> nat list \<Rightarrow> nat \<Rightarrow> prefix_index \<Rightarrow> nat \<times> prefix_index" where
  "expire_pass now ttl [] n idx = (n, idx)"
| "expire_pass now ttl (i # is) n idx =
     (let before = length (entries (shards idx ! i));
          idx = expire_shard now ttl i idx
      in expire_pass now ttl is (n + (before - length (entries (shards idx ! i)))) idx)"

text \<open>The LRU sweep: collect, sort by age, remove the oldest \<open>overflow\<close> entries.\<close>

definition collect_ages :: "prefix_index \<Rightarrow> (instant \<times> u64 \<times> nat) list" where
  "collect_ages idx = concat (map (\<lambda>(i, s). map (\<lambda>(hash, entry). (last_touched entry, hash, i)) (entries s))
     (enumerate 0 (shards idx)))"

definition remove_entry :: "nat \<Rightarrow> u64 \<Rightarrow> prefix_index \<Rightarrow> prefix_index" where
  "remove_entry i hash = with_shard i (hm_remove hash)"

fun lru_pass :: "(instant \<times> u64 \<times> nat) list \<Rightarrow> nat \<Rightarrow> prefix_index \<Rightarrow> nat \<times> prefix_index" where
  "lru_pass [] n idx = (n, idx)"
| "lru_pass ((_, hash, i) # victims) n idx =
     (let removed = hm_get (entries (shards idx ! i)) hash \<noteq> None
      in lru_pass victims (if removed then Suc n else n) (remove_entry i hash idx))"

definition evict :: "instant \<Rightarrow> duration \<Rightarrow> nat \<Rightarrow> prefix_index \<Rightarrow> eviction_stats \<times> prefix_index" where
  "evict now ttl max_entries idx =
     (let (n, idx) = expire_pass now ttl [0..<length (shards idx)] 0 idx;
          total = index_len idx
      in if total \<le> max_entries then (\<lparr>expired = n, lru_evicted = 0\<rparr>, idx)
         else let overflow = total - max_entries;
                  oldest = sort_key fst (collect_ages idx);
                  (m, idx) = lru_pass (take overflow oldest) 0 idx
              in (\<lparr>expired = n, lru_evicted = m\<rparr>, idx))"

text \<open>The period of the background task: \<open>(ttl / 3).clamp(1s, 60s)\<close>.\<close>

definition eviction_period :: "duration \<Rightarrow> duration" where
  "eviction_period ttl = min (max (ttl div 3) (secs 1)) (secs 60)"

section \<open>Lookups and the representation invariant\<close>

definition index_lookup :: "prefix_index \<Rightarrow> u64 \<Rightarrow> index_entry option" where
  "index_lookup idx hash = hm_get (shard_entries idx hash) hash"

definition holds :: "prefix_index \<Rightarrow> worker_id \<Rightarrow> u64 \<Rightarrow> bool" where
  "holds idx worker hash =
     (case index_lookup idx hash of None \<Rightarrow> False | Some e \<Rightarrow> worker \<in> set (entry_workers e))"

text \<open>A stored entry names at least one worker and no worker twice.\<close>

definition entry_ok :: "index_entry \<Rightarrow> bool" where
  "entry_ok e \<longleftrightarrow> entry_workers e \<noteq> [] \<and> distinct (entry_workers e)"

definition shard_ok :: "nat \<Rightarrow> (u64, index_entry) hashmap \<Rightarrow> bool" where
  "shard_ok i es \<longleftrightarrow> hm_ok es \<and> (\<forall>hash e. hm_get es hash = Some e \<longrightarrow> shard_of hash = i \<and> entry_ok e)"

definition index_inv :: "prefix_index \<Rightarrow> bool" where
  "index_inv idx \<longleftrightarrow> length (shards idx) = num_shards
     \<and> (\<forall>i < num_shards. shard_ok i (entries (shards idx ! i)))"

lemma shard_of_less: "shard_of hash < num_shards"
proof -
  have "unat (hash AND 63) \<le> unat (63 :: u64)"
    by (rule word_and_le1 [THEN word_le_nat_alt [THEN iffD1]])
  then show ?thesis by (simp add: shard_of_def num_shards_def)
qed

lemma index_inv_new: "index_inv index_new"
  by (simp add: index_inv_def index_new_def shard_ok_def num_shards_def hashmap_simps)

lemma length_with_shard [simp]: "length (shards (with_shard i f idx)) = length (shards idx)"
  by (simp add: with_shard_def)

lemma with_shard_nth:
  "i < length (shards idx) \<Longrightarrow> entries (shards (with_shard i f idx) ! j)
     = (if j = i then f (entries (shards idx ! i)) else entries (shards idx ! j))"
  by (simp add: with_shard_def nth_list_update)

lemma index_inv_shard: "index_inv idx \<Longrightarrow> shard_ok (shard_of hash) (shard_entries idx hash)"
  by (simp add: index_inv_def shard_entries_def shard_of_less)

lemma index_inv_with_shard:
  assumes "index_inv idx" and "i < num_shards"
    and "\<And>es. shard_ok i es \<Longrightarrow> shard_ok i (f es)"
  shows "index_inv (with_shard i f idx)"
  using assms by (auto simp: index_inv_def with_shard_nth)

lemma shard_entries_with_shard:
  "index_inv idx \<Longrightarrow> shard_entries (with_shard i f idx) hash
     = (if shard_of hash = i then f (shard_entries idx hash) else shard_entries idx hash)"
  using shard_of_less [of hash]
  by (cases "i < num_shards") (auto simp: shard_entries_def with_shard_nth index_inv_def
      with_shard_def list_update_beyond)

lemma index_lookup_entry_ok: "index_inv idx \<Longrightarrow> index_lookup idx hash = Some e \<Longrightarrow> entry_ok e"
  using index_inv_shard [of idx hash] by (auto simp: index_lookup_def shard_ok_def)

text \<open>Every operation is a change of entries that keeps \<open>shard_ok\<close>.\<close>

lemma index_inv_record_block [invariant_intros]:
  "index_inv idx \<Longrightarrow> index_inv (record_block now w hash idx)"
  unfolding record_block_def
  by (rule index_inv_with_shard)
    (auto simp: shard_of_less shard_ok_def entry_ok_def Let_def hashmap_simps split: option.splits)

lemma index_inv_touch_block [invariant_intros]:
  "index_inv idx \<Longrightarrow> index_inv (touch_block now hash idx)"
  unfolding touch_block_def
  by (rule index_inv_with_shard) (auto simp: shard_of_less shard_ok_def entry_ok_def hashmap_simps split: if_splits)

lemma shard_ok_retain:
  assumes "shard_ok i es" and "\<And>k e e'. entry_ok e \<Longrightarrow> f k e = Some e' \<Longrightarrow> entry_ok e'"
  shows "shard_ok i (hm_retain f es)"
  using assms(1) by (auto simp: shard_ok_def hashmap_simps bind_eq_Some_conv intro: assms(2))

lemma index_inv_purge_shard [invariant_intros]:
  "index_inv idx \<Longrightarrow> i < num_shards \<Longrightarrow> index_inv (purge_shard w i idx)"
  unfolding purge_shard_def
  by (rule index_inv_with_shard, assumption, assumption, erule shard_ok_retain)
    (auto simp: entry_ok_def Let_def split: if_splits)

lemma index_inv_expire_shard [invariant_intros]:
  "index_inv idx \<Longrightarrow> i < num_shards \<Longrightarrow> index_inv (expire_shard now ttl i idx)"
  unfolding expire_shard_def
  by (rule index_inv_with_shard, assumption, assumption, erule shard_ok_retain)
    (auto split: if_splits)

lemma index_inv_remove_entry [invariant_intros]:
  "index_inv idx \<Longrightarrow> i < num_shards \<Longrightarrow> index_inv (remove_entry i hash idx)"
  unfolding remove_entry_def
  by (rule index_inv_with_shard) (auto simp: shard_ok_def hashmap_simps split: if_splits)

section \<open>Refinement to a flat map\<close>

text \<open>The same steps on a map from hashes to entries, without shards.\<close>

type_synonym flat_index = "u64 \<rightharpoonup> index_entry"

definition add_worker :: "worker_id \<Rightarrow> worker_id list \<Rightarrow> worker_id list" where
  "add_worker w ws = (if w \<in> set ws then ws else ws @ [w])"

definition flat_record_block :: "instant \<Rightarrow> worker_id \<Rightarrow> u64 \<Rightarrow> flat_index \<Rightarrow> flat_index" where
  "flat_record_block now w hash m = m(hash \<mapsto>
     \<lparr>entry_workers = add_worker w (case m hash of None \<Rightarrow> [] | Some e \<Rightarrow> entry_workers e),
      last_touched = now\<rparr>)"

definition flat_touch_block :: "instant \<Rightarrow> u64 \<Rightarrow> flat_index \<Rightarrow> flat_index" where
  "flat_touch_block now hash m = m(hash := map_option (last_touched_update (\<lambda>_. now)) (m hash))"

definition flat_purge :: "worker_id \<Rightarrow> flat_index \<Rightarrow> flat_index" where
  "flat_purge w m = (\<lambda>hash. Option.bind (m hash) (\<lambda>e.
     let ws = filter (\<lambda>v. v \<noteq> w) (entry_workers e)
     in if ws = [] then None else Some (e\<lparr>entry_workers := ws\<rparr>)))"

definition flat_expire :: "instant \<Rightarrow> duration \<Rightarrow> flat_index \<Rightarrow> flat_index" where
  "flat_expire now ttl m = (\<lambda>hash. Option.bind (m hash) (\<lambda>e.
     if duration_since now (last_touched e) \<le> ttl then Some e else None))"

lemma lookup_record_block:
  "index_inv idx \<Longrightarrow> index_lookup (record_block now w hash idx) = flat_record_block now w hash (index_lookup idx)"
  by (rule ext) (auto simp: index_lookup_def record_block_def shard_entries_with_shard
      flat_record_block_def add_worker_def Let_def hashmap_simps split: option.splits)

lemma lookup_touch_block:
  "index_inv idx \<Longrightarrow> index_lookup (touch_block now hash idx) = flat_touch_block now hash (index_lookup idx)"
  by (rule ext) (auto simp: index_lookup_def touch_block_def shard_entries_with_shard
      flat_touch_block_def hashmap_simps)

lemma lookup_retain_shard:
  assumes "index_inv idx"
  shows "index_lookup (with_shard i (hm_retain f) idx) h
     = (if shard_of h = i then Option.bind (index_lookup idx h) (f h) else index_lookup idx h)"
  using assms index_inv_shard [OF assms, of h]
  by (auto simp: index_lookup_def shard_entries_with_shard shard_ok_def hashmap_simps)

lemma lookup_remove_entry:
  "index_inv idx \<Longrightarrow> index_lookup (remove_entry i hash idx) h
     = (if h = hash \<and> shard_of h = i then None else index_lookup idx h)"
  by (auto simp: index_lookup_def remove_entry_def shard_entries_with_shard hashmap_simps)

text \<open>A pass over all shards with a step of the \<open>retain\<close> form.\<close>

lemma lookup_fold_retain:
  assumes "index_inv idx" and "distinct is" and "set is \<subseteq> {..<num_shards}"
    and "\<And>idx i. index_inv idx \<Longrightarrow> i < num_shards \<Longrightarrow> index_inv (with_shard i (hm_retain f) idx)"
  shows "index_inv (fold (\<lambda>i. with_shard i (hm_retain f)) is idx)
     \<and> (\<forall>h. index_lookup (fold (\<lambda>i. with_shard i (hm_retain f)) is idx) h
           = (if shard_of h \<in> set is then Option.bind (index_lookup idx h) (f h) else index_lookup idx h))"
  using assms(1-3)
proof (induction "is" arbitrary: idx)
  case (Cons i "is")
  let ?idx = "with_shard i (hm_retain f) idx"
  have inv: "index_inv ?idx"
    using Cons.prems assms(4) by auto
  then show ?case
    using Cons.IH [OF inv] Cons.prems by (auto simp: lookup_retain_shard)
qed simp

lemma index_record_fold:
  "index_inv idx \<Longrightarrow> index_inv (index_record now w chain idx)
     \<and> index_lookup (index_record now w chain idx) = fold (flat_record_block now w) chain (index_lookup idx)"
  unfolding index_record_def
  by (induction chain arbitrary: idx) (simp_all add: index_inv_record_block lookup_record_block)

lemma touch_fold:
  "index_inv idx \<Longrightarrow> index_inv (fold (touch_block now) hs idx)
     \<and> index_lookup (fold (touch_block now) hs idx) = fold (flat_touch_block now) hs (index_lookup idx)"
  by (induction hs arbitrary: idx) (simp_all add: index_inv_touch_block lookup_touch_block)

lemma index_remove_worker_fold:
  assumes "index_inv idx"
  shows "index_inv (index_remove_worker w idx)
     \<and> index_lookup (index_remove_worker w idx) = flat_purge w (index_lookup idx)"
proof -
  let ?f = "\<lambda>_ entry. let ws = filter (\<lambda>v. v \<noteq> w) (entry_workers entry)
       in if ws = [] then None else Some (entry\<lparr>entry_workers := ws\<rparr>)"
  have len: "length (shards idx) = num_shards"
    using assms by (simp add: index_inv_def)
  have eq: "purge_shard w = (\<lambda>i. with_shard i (hm_retain ?f))"
    by (rule ext) (simp add: purge_shard_def)
  have "index_inv (fold (\<lambda>i. with_shard i (hm_retain ?f)) [0..<num_shards] idx)
     \<and> (\<forall>h. index_lookup (fold (\<lambda>i. with_shard i (hm_retain ?f)) [0..<num_shards] idx) h
           = (if shard_of h \<in> set [0..<num_shards] then Option.bind (index_lookup idx h) (?f h) else index_lookup idx h))"
    by (rule lookup_fold_retain [OF assms]) (auto simp flip: purge_shard_def intro: invariant_intros)
  then show ?thesis
    by (auto simp: index_remove_worker_def len eq flat_purge_def shard_of_less fun_eq_iff)
qed

lemma holds_index_new: "\<not> holds index_new w h"
  using shard_of_less [of h] by (simp add: holds_def index_lookup_def shard_entries_def index_new_def hashmap_simps)

lemma holds_flat: "holds idx w h \<longleftrightarrow> (\<exists>e. index_lookup idx h = Some e \<and> w \<in> set (entry_workers e))"
  by (simp add: holds_def split: option.splits)

lemma flat_record_block_workers:
  "(\<exists>e. flat_record_block now w x m h = Some e \<and> v \<in> set (entry_workers e))
     \<longleftrightarrow> (\<exists>e. m h = Some e \<and> v \<in> set (entry_workers e)) \<or> v = w \<and> h = x"
  by (cases "m x") (auto simp: flat_record_block_def add_worker_def)

lemma holds_fold_record:
  "(\<exists>e. fold (flat_record_block now w) chain m h = Some e \<and> v \<in> set (entry_workers e))
     \<longleftrightarrow> (\<exists>e. m h = Some e \<and> v \<in> set (entry_workers e)) \<or> v = w \<and> h \<in> set chain"
proof (induction chain arbitrary: m)
  case (Cons x chain)
  show ?case
    unfolding fold_Cons comp_apply Cons.IH flat_record_block_workers by auto
qed simp

lemma flat_purge_workers:
  "(\<exists>e. flat_purge w m h = Some e \<and> v \<in> set (entry_workers e))
     \<longleftrightarrow> v \<noteq> w \<and> (\<exists>e. m h = Some e \<and> v \<in> set (entry_workers e))"
  by (cases "m h") (auto simp: flat_purge_def Let_def filter_empty_conv)

lemma fold_flat_touch:
  "fold (flat_touch_block now) hs m h
     = (if h \<in> set hs then map_option (last_touched_update (\<lambda>_. now)) (m h) else m h)"
  by (induction hs arbitrary: m) (auto simp: flat_touch_block_def option.map_comp comp_def)

lemma matched_hashes_takeWhile: "matched_hashes w chain idx = takeWhile (holds idx w) chain"
  by (induction w chain idx rule: matched_hashes.induct)
    (auto simp: holds_def index_lookup_def split: option.splits)

lemma lookup_longest_match:
  "index_inv idx \<Longrightarrow> index_lookup (snd (longest_match now w chain idx)) h
     = (if h \<in> set (takeWhile (holds idx w) chain)
        then map_option (last_touched_update (\<lambda>_. now)) (index_lookup idx h) else index_lookup idx h)"
  by (simp add: longest_match_def Let_def matched_hashes_takeWhile touch_fold fold_flat_touch)

section \<open>Contract\<close>

text \<open>
  What the router needs of a belief about resident blocks. \<open>believes\<close> is the abstract
  relation between workers and block hashes.
\<close>

locale belief_index =
  fixes inv :: "'i \<Rightarrow> bool"
    and believes :: "'i \<Rightarrow> worker_id \<Rightarrow> u64 \<Rightarrow> bool"
    and learn :: "instant \<Rightarrow> worker_id \<Rightarrow> u64 list \<Rightarrow> 'i \<Rightarrow> 'i"
    and match :: "instant \<Rightarrow> worker_id \<Rightarrow> u64 list \<Rightarrow> 'i \<Rightarrow> nat \<times> 'i"
    and forget :: "worker_id \<Rightarrow> 'i \<Rightarrow> 'i"
  assumes inv_learn: "inv i \<Longrightarrow> inv (learn t w c i)"
    and inv_match: "inv i \<Longrightarrow> inv (snd (match t w c i))"
    and inv_forget: "inv i \<Longrightarrow> inv (forget w i)"
    and believes_learn: "inv i \<Longrightarrow> believes (learn t w c i) v h \<longleftrightarrow> believes i v h \<or> v = w \<and> h \<in> set c"
    and match_value: "inv i \<Longrightarrow> fst (match t w c i) = length (takeWhile (believes i w) c)"
    and believes_match: "inv i \<Longrightarrow> believes (snd (match t w c i)) = believes i"
    and believes_forget: "inv i \<Longrightarrow> believes (forget w i) v h \<longleftrightarrow> v \<noteq> w \<and> believes i v h"
begin

lemma match_le: "inv i \<Longrightarrow> fst (match t w c i) \<le> length c"
  by (simp add: match_value length_takeWhile_le)

lemma match_ge_iff:
  "inv i \<Longrightarrow> k \<le> fst (match t w c i) \<longleftrightarrow> k \<le> length c \<and> (\<forall>h \<in> set (take k c). believes i w h)"
proof -
  have "k \<le> length (takeWhile P c) \<longleftrightarrow> k \<le> length c \<and> (\<forall>h \<in> set (take k c). P h)" for P
  proof (induction c arbitrary: k)
    case (Cons x c)
    then show ?case by (cases k) auto
  qed simp
  then show "inv i \<Longrightarrow> ?thesis" by (simp add: match_value)
qed

lemma match_after_learn: "inv i \<Longrightarrow> fst (match t w c (learn t' w c i)) = length c"
  by (simp add: match_value inv_learn believes_learn takeWhile_eq_all_conv [THEN iffD2])

lemma match_after_forget: "inv i \<Longrightarrow> fst (match t w c (forget w i)) = 0"
  by (cases c) (simp_all add: match_value inv_forget believes_forget)

lemma match_forget_other: "inv i \<Longrightarrow> v \<noteq> w \<Longrightarrow> fst (match t v c (forget w i)) = fst (match t' v c i)"
proof -
  assume "inv i" and "v \<noteq> w"
  then have "believes (forget w i) v = believes i v"
    by (auto simp: believes_forget)
  with \<open>inv i\<close> show ?thesis by (simp add: match_value inv_forget)
qed

lemma match_learn_other: "inv i \<Longrightarrow> v \<noteq> w \<Longrightarrow> fst (match t v c (learn t' w d i)) = fst (match t'' v c i)"
proof -
  assume "inv i" and "v \<noteq> w"
  then have "believes (learn t' w d i) v = believes i v"
    by (auto simp: believes_learn)
  with \<open>inv i\<close> show ?thesis by (simp add: match_value inv_learn)
qed

lemma match_learn_mono: "inv i \<Longrightarrow> fst (match t v c i) \<le> fst (match t v c (learn t' w d i))"
  using match_ge_iff [of i "fst (match t v c i)" t v c]
    match_ge_iff [of "learn t' w d i" "fst (match t v c i)" t v c]
  by (simp add: inv_learn believes_learn)

text \<open>A chain that begins like one the worker was recorded with matches at least as far.\<close>

lemma match_shared_prefix:
  "inv i \<Longrightarrow> k \<le> length c \<Longrightarrow> k \<le> length d \<Longrightarrow> take k c = take k d
     \<Longrightarrow> k \<le> fst (match t w c (learn t' w d i))"
  by (auto simp: match_ge_iff inv_learn believes_learn dest: in_set_takeD)

end

interpretation idx: belief_index index_inv holds index_record longest_match index_remove_worker
proof unfold_locales
  fix i :: prefix_index and t w c v h
  assume inv: "index_inv i"
  show "index_inv (index_record t w c i)"
    using index_record_fold [OF inv] by blast
  show "index_inv (snd (longest_match t w c i))"
    using touch_fold [OF inv] by (simp add: longest_match_def Let_def)
  show "index_inv (index_remove_worker w i)"
    using index_remove_worker_fold [OF inv] by blast
  show "holds (index_record t w c i) v h \<longleftrightarrow> holds i v h \<or> v = w \<and> h \<in> set c"
    using index_record_fold [OF inv] by (simp add: holds_flat holds_fold_record)
  show "fst (longest_match t w c i) = length (takeWhile (holds i w) c)"
    by (simp add: longest_match_def Let_def matched_hashes_takeWhile)
  show "holds (snd (longest_match t w c i)) = holds i"
    by (intro ext) (auto simp: holds_flat lookup_longest_match [OF inv])
  show "holds (index_remove_worker w i) v h \<longleftrightarrow> v \<noteq> w \<and> holds i v h"
    using index_remove_worker_fold [OF inv] by (simp add: holds_flat flat_purge_workers)
qed

section \<open>Size\<close>

lemma index_len_card:
  assumes "index_inv idx"
  shows "index_len idx = card {h. index_lookup idx h \<noteq> None}"
proof -
  let ?S = "\<lambda>i. {h. hm_get (entries (shards idx ! i)) h \<noteq> None}"
  have len: "length (shards idx) = num_shards"
    and ok: "\<And>i. i < num_shards \<Longrightarrow> shard_ok i (entries (shards idx ! i))"
    using assms by (auto simp: index_inv_def)
  have home: "shard_of h = i" if "i < num_shards" and "h \<in> ?S i" for h i
    using ok [OF that(1)] that(2) by (auto simp: shard_ok_def)
  have fin: "finite (?S i)" for i
    by (rule finite_subset [of _ "fst ` set (entries (shards idx ! i))"]) (auto simp: hm_get_None)
  have dom: "{h. index_lookup idx h \<noteq> None} = (\<Union>i \<in> {..<num_shards}. ?S i)"
  proof (intro equalityI subsetI)
    fix h assume "h \<in> (\<Union>i \<in> {..<num_shards}. ?S i)"
    then obtain i where i: "i < num_shards" and "hm_get (entries (shards idx ! i)) h \<noteq> None" by auto
    then have "shard_of h = i" using home [OF i, of h] by simp
    then show "h \<in> {h. index_lookup idx h \<noteq> None}"
      using \<open>hm_get (entries (shards idx ! i)) h \<noteq> None\<close>
      by (simp add: index_lookup_def shard_entries_def)
  qed (use shard_of_less in \<open>auto simp: index_lookup_def shard_entries_def\<close>)
  have "index_len idx = (\<Sum>i < num_shards. length (entries (shards idx ! i)))"
    by (simp add: index_len_def sum_list_sum_nth len atLeast0LessThan)
  also have "\<dots> = (\<Sum>i < num_shards. card (?S i))"
    using ok by (intro sum.cong refl hm_length_card) (auto simp: shard_ok_def)
  also have "\<dots> = card (\<Union>i \<in> {..<num_shards}. ?S i)"
  proof (intro card_UN_disjoint [symmetric] ballI impI)
    fix i j assume "i \<in> {..<num_shards}" and "j \<in> {..<num_shards}" and "i \<noteq> j"
    then show "?S i \<inter> ?S j = {}" using home [of i] home [of j] by blast
  qed (use fin in simp_all)
  finally show ?thesis by (simp only: dom)
qed

lemma present_iff_held: "index_inv idx \<Longrightarrow> index_lookup idx h \<noteq> None \<longleftrightarrow> (\<exists>w. holds idx w h)"
  using index_lookup_entry_ok [of idx h]
  by (cases "index_lookup idx h") (auto simp: holds_flat entry_ok_def ex_in_conv)

lemma index_len_holds: "index_inv idx \<Longrightarrow> index_len idx = card {h. \<exists>w. holds idx w h}"
  by (simp only: index_len_card present_iff_held)

lemma finite_index_dom: "index_inv idx \<Longrightarrow> finite {h. index_lookup idx h \<noteq> None}"
proof -
  assume inv: "index_inv idx"
  have "{h. index_lookup idx h \<noteq> None} \<subseteq> (\<Union>i \<in> {..<num_shards}. fst ` set (entries (shards idx ! i)))"
    using shard_of_less by (auto simp: index_lookup_def shard_entries_def hm_get_None)
  then show ?thesis by (rule finite_subset) simp
qed

section \<open>Eviction\<close>

lemma expire_shard_retain:
  "expire_shard now ttl i = with_shard i (hm_retain (\<lambda>_ entry.
     if duration_since now (last_touched entry) \<le> ttl then Some entry else None))"
  by (rule ext) (simp add: expire_shard_def)

lemma index_len_with_shard:
  "i < length (shards idx) \<Longrightarrow> length (f (entries (shards idx ! i))) \<le> length (entries (shards idx ! i))
     \<Longrightarrow> index_len idx = index_len (with_shard i f idx)
           + (length (entries (shards idx ! i)) - length (f (entries (shards idx ! i))))"
proof -
  assume i: "i < length (shards idx)"
    and le: "length (f (entries (shards idx ! i))) \<le> length (entries (shards idx ! i))"
  let ?ns = "map (\<lambda>s. length (entries s)) (shards idx)"
  have "index_len (with_shard i f idx) = sum_list (?ns[i := length (f (entries (shards idx ! i)))])"
    by (simp add: index_len_def with_shard_def map_update)
  also have "\<dots> = sum_list ?ns + length (f (entries (shards idx ! i))) - ?ns ! i"
    using i by (simp add: sum_list_update)
  finally show ?thesis
    using i le member_le_sum_list [of "?ns ! i" ?ns] by (simp add: index_len_def)
qed

lemma expire_pass_fold:
  assumes "set is \<subseteq> {..<length (shards idx)}"
  shows "snd (expire_pass now ttl is n idx) = fold (expire_shard now ttl) is idx
     \<and> index_len idx + n = index_len (snd (expire_pass now ttl is n idx)) + fst (expire_pass now ttl is n idx)"
  using assms
proof (induction "is" arbitrary: n idx)
  case (Cons i "is")
  let ?idx = "expire_shard now ttl i idx"
  have i: "i < length (shards idx)" using Cons.prems by simp
  have "index_len idx = index_len ?idx + (length (entries (shards idx ! i)) - length (entries (shards ?idx ! i)))"
    unfolding expire_shard_def with_shard_nth [OF i] if_True simp_thms
    by (rule index_len_with_shard [OF i]) (rule hm_length_retain)
  moreover have "length (shards ?idx) = length (shards idx)"
    by (simp add: expire_shard_def)
  ultimately show ?case
    using Cons.IH [of ?idx "n + (length (entries (shards idx ! i)) - length (entries (shards ?idx ! i)))"]
      Cons.prems by (auto simp: Let_def)
qed simp

text \<open>The TTL pass keeps exactly the entries that are not stale, and counts the others.\<close>

lemma expire_pass_spec:
  assumes "index_inv idx" and "expire_pass now ttl [0..<length (shards idx)] 0 idx = (n, idx')"
  shows "index_inv idx'" and "index_lookup idx' = flat_expire now ttl (index_lookup idx)"
    and "index_len idx = index_len idx' + n"
proof -
  let ?f = "\<lambda>_ entry. if duration_since now (last_touched entry) \<le> ttl then Some entry else None"
  have len: "length (shards idx) = num_shards"
    using assms(1) by (simp add: index_inv_def)
  have "snd (expire_pass now ttl [0..<length (shards idx)] 0 idx) = fold (expire_shard now ttl) [0..<num_shards] idx"
    and count: "index_len idx + 0 = index_len idx' + n"
    using expire_pass_fold [of "[0..<length (shards idx)]" idx now ttl 0] assms(2) len
    by (simp_all add: lessThan_atLeast0)
  then have idx': "idx' = fold (\<lambda>i. with_shard i (hm_retain ?f)) [0..<num_shards] idx"
    using assms(2) by (simp add: expire_shard_retain [abs_def] len)
  have "index_inv (fold (\<lambda>i. with_shard i (hm_retain ?f)) [0..<num_shards] idx)
     \<and> (\<forall>h. index_lookup (fold (\<lambda>i. with_shard i (hm_retain ?f)) [0..<num_shards] idx) h
           = (if shard_of h \<in> set [0..<num_shards] then Option.bind (index_lookup idx h) (?f h) else index_lookup idx h))"
    by (rule lookup_fold_retain [OF assms(1)])
      (auto simp flip: expire_shard_retain intro: invariant_intros)
  then show "index_inv idx'" and "index_lookup idx' = flat_expire now ttl (index_lookup idx)"
    by (auto simp: idx' flat_expire_def shard_of_less fun_eq_iff)
  show "index_len idx = index_len idx' + n" using count by simp
qed

text \<open>The LRU sweep on a list of present entries removes exactly those and counts them.\<close>

lemma index_len_remove_entry:
  assumes "index_inv idx"
  shows "index_len (remove_entry (shard_of h) h idx)
     = (if index_lookup idx h = None then index_len idx else index_len idx - 1)"
proof -
  have inv: "index_inv (remove_entry (shard_of h) h idx)"
    using assms by (intro index_inv_remove_entry shard_of_less)
  have "{x. index_lookup (remove_entry (shard_of h) h idx) x \<noteq> None} = {x. index_lookup idx x \<noteq> None} - {h}"
    by (auto simp: lookup_remove_entry [OF assms])
  then show ?thesis
    using finite_index_dom [OF assms]
    by (simp add: index_len_card [OF inv] index_len_card [OF assms] card_Diff_singleton_if)
qed

lemma lru_pass_spec:
  assumes "index_inv idx" and "\<forall>(t, h, i) \<in> set vs. i = shard_of h \<and> index_lookup idx h \<noteq> None"
    and "distinct (map (fst \<circ> snd) vs)"
  shows "index_inv (snd (lru_pass vs n idx))
    \<and> index_lookup (snd (lru_pass vs n idx)) = (\<lambda>h. if h \<in> (fst \<circ> snd) ` set vs then None else index_lookup idx h)
    \<and> fst (lru_pass vs n idx) = n + length vs"
  using assms
proof (induction vs arbitrary: n idx)
  case (Cons v vs)
  obtain t h where v: "v = (t, h, shard_of h)" and present: "index_lookup idx h \<noteq> None"
    using Cons.prems(2) by (cases v) auto
  let ?idx = "remove_entry (shard_of h) h idx"
  have inv: "index_inv ?idx"
    using Cons.prems by (simp add: index_inv_remove_entry shard_of_less)
  have lookup: "index_lookup ?idx = (index_lookup idx)(h := None)"
    using Cons.prems(1) by (auto simp: lookup_remove_entry)
  have here: "hm_get (entries (shards idx ! shard_of h)) h \<noteq> None"
    using present by (simp add: index_lookup_def shard_entries_def)
  have "\<forall>(t, h', i) \<in> set vs. i = shard_of h' \<and> index_lookup ?idx h' \<noteq> None"
  proof (clarify)
    fix t' h' i' assume mem: "(t', h', i') \<in> set vs"
    then have "h' \<in> set (map (fst \<circ> snd) vs)" by force
    then have "h' \<noteq> h" using Cons.prems(3) v by auto
    then show "i' = shard_of h' \<and> index_lookup ?idx h' \<noteq> None"
      using mem Cons.prems(2) by (auto simp: lookup)
  qed
  then show ?case
    using Cons.IH [OF inv, of "Suc n"] Cons.prems v here
    by (auto simp: lookup fun_eq_iff)
qed (simp add: fun_eq_iff)

lemma set_collect_ages:
  assumes "index_inv idx"
  shows "set (collect_ages idx)
    = {(t, h, i). i = shard_of h \<and> (\<exists>e. index_lookup idx h = Some e \<and> last_touched e = t)}"
proof (intro equalityI subsetI)
  fix v assume "v \<in> set (collect_ages idx)"
  then obtain i h e where i: "i < num_shards" and mem: "(h, e) \<in> set (entries (shards idx ! i))"
    and v: "v = (last_touched e, h, i)"
    using assms by (auto simp: collect_ages_def in_set_enumerate_eq index_inv_def)
  have "shard_ok i (entries (shards idx ! i))" using assms i by (simp add: index_inv_def)
  with mem have "hm_get (entries (shards idx ! i)) h = Some e" and "shard_of h = i"
    by (auto simp: shard_ok_def hm_get_eq_Some)
  then show "v \<in> {(t, h, i). i = shard_of h \<and> (\<exists>e. index_lookup idx h = Some e \<and> last_touched e = t)}"
    using v by (auto simp: index_lookup_def shard_entries_def)
next
  fix v assume "v \<in> {(t, h, i). i = shard_of h \<and> (\<exists>e. index_lookup idx h = Some e \<and> last_touched e = t)}"
  then obtain h e where v: "v = (last_touched e, h, shard_of h)" and "index_lookup idx h = Some e"
    by auto
  then have get: "hm_get (entries (shards idx ! shard_of h)) h = Some e"
    by (simp add: index_lookup_def shard_entries_def)
  have "hm_ok (entries (shards idx ! shard_of h))"
    using index_inv_shard [OF assms, of h] by (simp add: shard_ok_def shard_entries_def)
  from hm_get_eq_Some [OF this, THEN iffD1, OF get]
  have mem: "(h, e) \<in> set (entries (shards idx ! shard_of h))" .
  have "(shard_of h, shards idx ! shard_of h) \<in> set (enumerate 0 (shards idx))"
    using assms shard_of_less [of h] by (simp add: in_set_enumerate_eq index_inv_def)
  with mem show "v \<in> set (collect_ages idx)"
    unfolding collect_ages_def v by force
qed

lemma length_collect_ages: "length (collect_ages idx) = index_len idx"
proof -
  have "map (length \<circ> (\<lambda>(i, s). map (\<lambda>(hash, entry). (last_touched entry, hash, i)) (entries s)))
      (enumerate n ss) = map (\<lambda>s. length (entries s)) ss" for n and ss :: "shard list"
    by (induction ss arbitrary: n) simp_all
  then show ?thesis
    unfolding collect_ages_def index_len_def length_concat map_map by (simp only:)
qed

lemma distinct_collect_ages:
  assumes "index_inv idx"
  shows "distinct (map (fst \<circ> snd) (collect_ages idx))"
proof (rule card_distinct)
  have "(fst \<circ> snd) ` set (collect_ages idx) = {h. index_lookup idx h \<noteq> None}"
    unfolding set_collect_ages [OF assms] by force
  then show "card (set (map (fst \<circ> snd) (collect_ages idx))) = length (map (fst \<circ> snd) (collect_ages idx))"
    by (simp add: length_collect_ages index_len_card [OF assms])
qed

text \<open>The whole sweep, on both branches.\<close>

lemma sorted_take_le_drop:
  "sorted (map f xs) \<Longrightarrow> x \<in> set (take n xs) \<Longrightarrow> y \<in> set (drop n xs) \<Longrightarrow> f x \<le> f y"
  using sorted_append [of "map f (take n xs)" "map f (drop n xs)"]
  by (simp flip: map_append)

lemma lru_victims:
  fixes idx n
  defines "vs \<equiv> take n (sort_key fst (collect_ages idx))"
  assumes "index_inv idx" and "n \<le> index_len idx"
  shows "index_inv (snd (lru_pass vs 0 idx))"
    and "fst (lru_pass vs 0 idx) = n"
    and "index_len (snd (lru_pass vs 0 idx)) + n = index_len idx"
    and "index_lookup (snd (lru_pass vs 0 idx))
      = (\<lambda>h. if h \<in> (fst \<circ> snd) ` set vs then None else index_lookup idx h)"
proof -
  let ?sorted = "sort_key fst (collect_ages idx)"
  have sub: "set vs \<subseteq> set (collect_ages idx)"
    unfolding vs_def by (metis set_sort set_take_subset)
  have len: "length vs = n"
    using assms(3) by (simp add: vs_def length_collect_ages)
  have "distinct (map (fst \<circ> snd) ?sorted)"
    using distinct_collect_ages [OF assms(2)] by (simp add: distinct_map)
  then have dist: "distinct (map (fst \<circ> snd) vs)"
    unfolding vs_def take_map [symmetric] by (rule distinct_take)
  have present: "\<forall>(t, h, i) \<in> set vs. i = shard_of h \<and> index_lookup idx h \<noteq> None"
    using sub unfolding set_collect_ages [OF assms(2)] by auto
  note spec = lru_pass_spec [OF assms(2) present dist, of 0]
  then show inv: "index_inv (snd (lru_pass vs 0 idx))" and "fst (lru_pass vs 0 idx) = n"
    and look: "index_lookup (snd (lru_pass vs 0 idx))
      = (\<lambda>h. if h \<in> (fst \<circ> snd) ` set vs then None else index_lookup idx h)"
    using len by auto
  have "{h. index_lookup (snd (lru_pass vs 0 idx)) h \<noteq> None}
      = {h. index_lookup idx h \<noteq> None} - (fst \<circ> snd) ` set vs"
    unfolding look by auto
  moreover have "(fst \<circ> snd) ` set vs \<subseteq> {h. index_lookup idx h \<noteq> None}"
    using present by auto
  moreover have "card ((fst \<circ> snd) ` set vs) = n"
    using distinct_card [OF dist] len by simp
  ultimately show "index_len (snd (lru_pass vs 0 idx)) + n = index_len idx"
    using card_mono [OF finite_index_dom [OF assms(2)]] assms(3)
    by (simp add: index_len_card [OF inv] index_len_card [OF assms(2)] card_Diff_subset)
qed

text \<open>What a sweep leaves: the fresh entries except the oldest ones above the cap.\<close>

lemma evict_outcome:
  assumes "index_inv idx" and "evict now ttl cap idx = (stats, idx')"
  defines "fresh \<equiv> flat_expire now ttl (index_lookup idx)"
  obtains idx1 vs where "index_inv idx1" and "index_lookup idx1 = fresh"
    and "vs = take (index_len idx1 - cap) (sort_key fst (collect_ages idx1))"
    and "index_inv idx' \<and> index_len idx' \<le> cap
      \<and> index_len idx = index_len idx' + expired stats + lru_evicted stats
      \<and> index_len idx' + lru_evicted stats = card {h. fresh h \<noteq> None}
      \<and> lru_evicted stats = card {h. fresh h \<noteq> None} - cap"
    and "\<forall>h. index_lookup idx' h = (if h \<in> (fst \<circ> snd) ` set vs then None else fresh h)"
proof -
  obtain n idx1 where pass: "expire_pass now ttl [0..<length (shards idx)] 0 idx = (n, idx1)"
    by fastforce
  note spec1 = expire_pass_spec [OF assms(1) pass, folded fresh_def]
  have total: "index_len idx1 = card {h. fresh h \<noteq> None}"
    using index_len_card [OF spec1(1)] by (simp add: spec1(2))
  let ?over = "index_len idx1 - cap"
  let ?vs = "take ?over (sort_key fst (collect_ages idx1))"
  note lru = lru_victims [OF spec1(1), of ?over]
  have "index_inv idx' \<and> index_len idx' \<le> cap
      \<and> index_len idx = index_len idx' + expired stats + lru_evicted stats
      \<and> index_len idx' + lru_evicted stats = card {h. fresh h \<noteq> None}
      \<and> lru_evicted stats = card {h. fresh h \<noteq> None} - cap
      \<and> (\<forall>h. index_lookup idx' h = (if h \<in> (fst \<circ> snd) ` set ?vs then None else fresh h))"
  proof (cases "index_len idx1 \<le> cap")
    case True
    then have "stats = \<lparr>expired = n, lru_evicted = 0\<rparr>" and "idx' = idx1"
      using assms(2) pass by (auto simp: evict_def Let_def)
    then show ?thesis using True spec1 total by simp
  next
    case False
    have "stats = \<lparr>expired = n, lru_evicted = fst (lru_pass ?vs 0 idx1)\<rparr>"
      and "idx' = snd (lru_pass ?vs 0 idx1)"
      using False assms(2) pass by (auto simp: evict_def Let_def split: prod.splits)
    moreover have "index_len (snd (lru_pass ?vs 0 idx1)) = cap"
      using lru(3) False by simp
    ultimately show ?thesis using False spec1 total lru(1,2,4) by simp
  qed
  then show thesis
    by (intro that [OF spec1(1) _ refl]) (use spec1(2) in auto)
qed

lemma evict_spec:
  assumes "index_inv idx" and "evict now ttl cap idx = (stats, idx')"
  defines "fresh \<equiv> flat_expire now ttl (index_lookup idx)"
  shows "index_inv idx'"
    and "index_len idx' \<le> cap"
    and "index_len idx = index_len idx' + expired stats + lru_evicted stats"
    and "index_len idx' + lru_evicted stats = card {h. fresh h \<noteq> None}"
    and "lru_evicted stats = card {h. fresh h \<noteq> None} - cap"
    and "index_lookup idx' h = None \<or> index_lookup idx' h = fresh h"
    and "fresh h = Some e \<Longrightarrow> index_lookup idx' h = None \<Longrightarrow> index_lookup idx' h' = Some e'
          \<Longrightarrow> last_touched e \<le> last_touched e'"
proof -
  from evict_outcome [OF assms(1,2), folded fresh_def]
  obtain idx1 vs where inv1: "index_inv idx1" and look1: "index_lookup idx1 = fresh"
    and vs: "vs = take (index_len idx1 - cap) (sort_key fst (collect_ages idx1))"
    and spec: "index_inv idx' \<and> index_len idx' \<le> cap
      \<and> index_len idx = index_len idx' + expired stats + lru_evicted stats
      \<and> index_len idx' + lru_evicted stats = card {h. fresh h \<noteq> None}
      \<and> lru_evicted stats = card {h. fresh h \<noteq> None} - cap"
    and look: "\<forall>h. index_lookup idx' h = (if h \<in> (fst \<circ> snd) ` set vs then None else fresh h)" .
  show "index_inv idx'" and "index_len idx' \<le> cap"
    and "index_len idx = index_len idx' + expired stats + lru_evicted stats"
    and "index_len idx' + lru_evicted stats = card {h. fresh h \<noteq> None}"
    and "lru_evicted stats = card {h. fresh h \<noteq> None} - cap"
    using spec by blast+
  show "index_lookup idx' h = None \<or> index_lookup idx' h = fresh h"
    using look by simp
  assume fresh: "fresh h = Some e" and gone: "index_lookup idx' h = None" and kept: "index_lookup idx' h' = Some e'"
  let ?ages = "sort_key fst (collect_ages idx1)" and ?over = "index_len idx1 - cap"
  have age: "(last_touched x, k, shard_of k) \<in> set ?ages" if "fresh k = Some x" for k x
    using that by (simp add: set_collect_ages [OF inv1] look1)
  obtain v where v: "v \<in> set (take ?over ?ages)" and "fst (snd v) = h"
    using look fresh gone unfolding vs by (auto split: if_splits)
  moreover have "v \<in> set (collect_ages idx1)"
    using v by (metis in_set_takeD set_sort)
  ultimately have "fst v = last_touched e"
    using fresh by (auto simp: set_collect_ages [OF inv1] look1)
  moreover have "h' \<notin> (fst \<circ> snd) ` set (take ?over ?ages)" and "fresh h' = Some e'"
    using kept look gone fresh unfolding vs by (auto split: if_splits)
  then have "(last_touched e', h', shard_of h') \<in> set (drop ?over ?ages)"
    using age [of h' e'] set_append [of "take ?over ?ages" "drop ?over ?ages"] by force
  ultimately show "last_touched e \<le> last_touched e'"
    using sorted_take_le_drop [OF sorted_sort_key v] by force
qed

section \<open>Bounded contract\<close>

text \<open>What the eviction task adds: the size is capped and no belief is ever gained.\<close>

locale bounded_index = belief_index +
  fixes size_of :: "'i \<Rightarrow> nat"
    and sweep :: "instant \<Rightarrow> duration \<Rightarrow> nat \<Rightarrow> 'i \<Rightarrow> 'i"
  assumes inv_sweep: "inv i \<Longrightarrow> inv (sweep t d n i)"
    and size_sweep: "inv i \<Longrightarrow> size_of (sweep t d n i) \<le> n"
    and size_sweep_mono: "inv i \<Longrightarrow> size_of (sweep t d n i) \<le> size_of i"
    and believes_sweep: "inv i \<Longrightarrow> believes (sweep t d n i) w h \<Longrightarrow> believes i w h"
begin

lemma match_sweep_le: "inv i \<Longrightarrow> fst (match t w c (sweep t' d n i)) \<le> fst (match t w c i)"
proof -
  assume inv: "inv i"
  let ?k = "fst (match t w c (sweep t' d n i))"
  have "?k \<le> length c \<and> (\<forall>h \<in> set (take ?k c). believes (sweep t' d n i) w h)"
    using match_ge_iff [OF inv_sweep [OF inv], THEN iffD1, OF order_refl] .
  then show ?thesis
    using believes_sweep [OF inv] by (subst match_ge_iff [OF inv]) blast
qed

lemma forgotten_after_sweep: "inv i \<Longrightarrow> fst (match t w c (sweep t' d n (forget w i))) = 0"
  using match_sweep_le [of "forget w i" t w c t' d n] by (simp add: inv_forget match_after_forget)

end

interpretation idx: bounded_index index_inv holds index_record longest_match index_remove_worker
  index_len "\<lambda>t d n i. snd (evict t d n i)"
proof unfold_locales
  fix i :: prefix_index and t d n w h
  assume inv: "index_inv i"
  obtain stats i' where sweep: "evict t d n i = (stats, i')" by fastforce
  note spec = evict_spec [OF inv sweep]
  show "index_inv (snd (evict t d n i))" using spec(1) sweep by simp
  show "index_len (snd (evict t d n i)) \<le> n" using spec(2) sweep by simp
  show "index_len (snd (evict t d n i)) \<le> index_len i" using spec(3) sweep by simp
  show "holds (snd (evict t d n i)) w h \<Longrightarrow> holds i w h"
    using spec(6) [of h] sweep
    by (auto simp: holds_flat flat_expire_def bind_eq_Some_conv split: if_splits)
qed

section \<open>Interleavings\<close>

text \<open>
  Every operation is a sequence of lock sections on one shard each; concurrent operations
  interleave them. \<open>index_act\<close> is one lock section that changes the index.
\<close>

datatype index_action =
    RecordBlock instant worker_id u64
  | TouchBlock instant u64
  | PurgeShard worker_id nat
  | ExpireShard instant duration nat
  | RemoveEntry nat u64

fun index_act :: "index_action \<Rightarrow> prefix_index \<Rightarrow> prefix_index" where
  "index_act (RecordBlock now w hash) = record_block now w hash"
| "index_act (TouchBlock now hash) = touch_block now hash"
| "index_act (PurgeShard w i) = purge_shard w i"
| "index_act (ExpireShard now ttl i) = expire_shard now ttl i"
| "index_act (RemoveEntry i hash) = remove_entry i hash"

fun action_ok :: "index_action \<Rightarrow> bool" where
  "action_ok (PurgeShard w i) \<longleftrightarrow> i < num_shards"
| "action_ok (ExpireShard now ttl i) \<longleftrightarrow> i < num_shards"
| "action_ok (RemoveEntry i hash) \<longleftrightarrow> i < num_shards"
| "action_ok _ \<longleftrightarrow> True"

definition record_actions :: "instant \<Rightarrow> worker_id \<Rightarrow> u64 list \<Rightarrow> index_action list" where
  "record_actions now w chain = map (RecordBlock now w) chain"

definition purge_actions :: "worker_id \<Rightarrow> index_action list" where
  "purge_actions w = map (PurgeShard w) [0..<num_shards]"

lemma index_record_actions: "index_record now w chain = fold index_act (record_actions now w chain)"
  by (rule ext) (simp add: index_record_def record_actions_def fold_map comp_def)

lemma index_remove_worker_actions:
  "index_inv idx \<Longrightarrow> index_remove_worker w idx = fold index_act (purge_actions w) idx"
  by (simp add: index_remove_worker_def purge_actions_def fold_map comp_def index_inv_def)

lemma index_inv_act [invariant_intros]: "index_inv idx \<Longrightarrow> action_ok a \<Longrightarrow> index_inv (index_act a idx)"
  by (cases a) (auto intro: invariant_intros)

lemma index_inv_acts [invariant_intros]:
  "index_inv idx \<Longrightarrow> \<forall>a \<in> set as. action_ok a \<Longrightarrow> index_inv (fold index_act as idx)"
  by (induction as arbitrary: idx) (simp_all add: index_inv_act)

text \<open>A belief appears only by recording it, and a purge of its shard ends it.\<close>

lemma holds_act:
  assumes "index_inv idx" and "action_ok a"
  shows "holds (index_act a idx) w h \<Longrightarrow> holds idx w h \<or> (\<exists>now. a = RecordBlock now w h)"
    and "a = PurgeShard w (shard_of h) \<Longrightarrow> \<not> holds (index_act a idx) w h"
proof -
  show "a = PurgeShard w (shard_of h) \<Longrightarrow> \<not> holds (index_act a idx) w h"
    using assms
    by (auto simp: holds_flat purge_shard_def lookup_retain_shard bind_eq_Some_conv Let_def split: if_splits)
  show "holds (index_act a idx) w h \<Longrightarrow> holds idx w h \<or> (\<exists>now. a = RecordBlock now w h)"
  proof (cases a)
    case (RecordBlock now v x)
    then show "holds (index_act a idx) w h \<Longrightarrow> ?thesis"
      using assms by (auto simp: holds_flat lookup_record_block flat_record_block_workers)
  next
    case (TouchBlock now x)
    then show "holds (index_act a idx) w h \<Longrightarrow> ?thesis"
      using assms by (auto simp: holds_flat lookup_touch_block flat_touch_block_def split: if_splits)
  qed (use assms in \<open>auto simp: holds_flat purge_shard_def expire_shard_retain lookup_retain_shard
      lookup_remove_entry bind_eq_Some_conv Let_def split: if_splits\<close>)
qed

lemma holds_acts:
  assumes "index_inv idx" and "\<forall>a \<in> set as. action_ok a" and "\<forall>now. RecordBlock now w h \<notin> set as"
  shows "holds (fold index_act as idx) w h \<Longrightarrow> holds idx w h"
  using assms
proof (induction as arbitrary: idx)
  case (Cons a as)
  then show ?case
    using holds_act(1) [of idx a w h] by (auto simp: index_inv_act)
qed simp

lemma purged_acts:
  assumes "index_inv idx" and "\<forall>a \<in> set as. action_ok a" and "\<forall>now. RecordBlock now w h \<notin> set as"
    and "PurgeShard w (shard_of h) \<in> set as"
  shows "\<not> holds (fold index_act as idx) w h"
proof -
  obtain xs ys where as: "as = xs @ PurgeShard w (shard_of h) # ys"
    using assms(4) by (meson split_list)
  let ?mid = "index_act (PurgeShard w (shard_of h)) (fold index_act xs idx)"
  have inv: "index_inv (fold index_act xs idx)"
    using assms(1,2) as by (intro index_inv_acts) auto
  have "\<not> holds ?mid w h"
    by (rule holds_act(2) [OF inv]) (simp_all add: shard_of_less)
  moreover have "index_inv ?mid"
    using inv by (rule index_inv_act) (simp add: shard_of_less)
  ultimately show ?thesis
    using holds_acts [of ?mid ys w h] assms(2,3) as by auto
qed

text \<open>Recording, matching and the removal of others keep what a worker holds.\<close>

definition keeps :: "worker_id \<Rightarrow> index_action \<Rightarrow> bool" where
  "keeps w a \<longleftrightarrow> (\<exists>t v h. a = RecordBlock t v h) \<or> (\<exists>t h. a = TouchBlock t h)
     \<or> (\<exists>v i. a = PurgeShard v i \<and> v \<noteq> w)"

lemma holds_kept_act:
  assumes "index_inv idx" and "keeps w a" and "holds idx w h"
  shows "holds (index_act a idx) w h"
  using assms
  by (auto simp: keeps_def holds_flat lookup_record_block flat_record_block_workers lookup_touch_block
      flat_touch_block_def purge_shard_def lookup_retain_shard Let_def filter_empty_conv)

lemma holds_kept_acts_from:
  "index_inv idx \<Longrightarrow> \<forall>a \<in> set as. action_ok a \<Longrightarrow> \<forall>a \<in> set as. keeps w a \<Longrightarrow> holds idx w h
     \<Longrightarrow> holds (fold index_act as idx) w h"
  by (induction as arbitrary: idx) (auto simp: index_inv_act holds_kept_act)

lemma holds_kept_acts:
  assumes "index_inv idx" and "\<forall>a \<in> set as. action_ok a" and "\<forall>a \<in> set as. keeps w a"
    and "RecordBlock now w h \<in> set as"
  shows "holds (fold index_act as idx) w h"
proof -
  obtain xs ys where as: "as = xs @ RecordBlock now w h # ys"
    using assms(4) by (meson split_list)
  let ?mid = "record_block now w h (fold index_act xs idx)"
  have inv: "index_inv (fold index_act xs idx)"
    using assms(1,2) as by (intro index_inv_acts) auto
  have "holds ?mid w h"
    using inv by (simp add: holds_flat lookup_record_block flat_record_block_workers)
  then show ?thesis
    using holds_kept_acts_from [OF index_inv_record_block [OF inv], of ys w now w h h] assms(2,3) as by simp
qed

section \<open>Properties\<close>

text \<open>
  C5: the sharded operations refine the same operations on one flat map from block hashes to
  entries: recording, matching (its value and its refresh of the matched entries) and removing
  a worker commute with the lookup abstraction, so the shard count is never observable.
\<close>

theorem index_refines_flat_map:
  assumes "index_inv idx"
  defines "held \<equiv> \<lambda>w h. \<exists>e. index_lookup idx h = Some e \<and> w \<in> set (entry_workers e)"
  shows "index_lookup (index_record now w chain idx) = fold (flat_record_block now w) chain (index_lookup idx)
    \<and> fst (longest_match now w chain idx) = length (takeWhile (held w) chain)
    \<and> index_lookup (snd (longest_match now w chain idx))
        = fold (flat_touch_block now) (takeWhile (held w) chain) (index_lookup idx)
    \<and> index_lookup (index_remove_worker w idx) = flat_purge w (index_lookup idx)"
proof (intro conjI)
  have held: "holds idx w = held w"
    unfolding held_def by (rule ext) (rule holds_flat)
  show "index_lookup (index_record now w chain idx) = fold (flat_record_block now w) chain (index_lookup idx)"
    using index_record_fold [OF assms(1)] by blast
  show "index_lookup (index_remove_worker w idx) = flat_purge w (index_lookup idx)"
    using index_remove_worker_fold [OF assms(1)] by blast
  show "fst (longest_match now w chain idx) = length (takeWhile (held w) chain)"
    using idx.match_value [OF assms(1)] by (simp add: held)
  show "index_lookup (snd (longest_match now w chain idx))
      = fold (flat_touch_block now) (takeWhile (held w) chain) (index_lookup idx)"
    using touch_fold [OF assms(1), of now "matched_hashes w chain idx"]
    by (simp add: longest_match_def Let_def matched_hashes_takeWhile held)
qed

theorem index_refines_flat_map_witness:
  "index_lookup (index_record (Instant 5) 0 [1, 65] index_new)
     = fold (flat_record_block (Instant 5) 0) [1, 65] (index_lookup index_new)"
  using index_refines_flat_map [OF index_inv_new] by blast

text \<open>
  C6: after a worker is recorded with a chain, the whole chain matches for it, every chain that
  shares its first \<open>k\<close> blocks matches at least \<open>k\<close> blocks, no match of any worker shrinks, and
  the matches of the other workers are as before.
\<close>

theorem recorded_chain_matches:
  assumes "index_inv idx"
  shows "fst (longest_match now w chain (index_record t w chain idx)) = length chain
    \<and> (\<forall>k d. k \<le> length chain \<and> k \<le> length d \<and> take k d = take k chain
         \<longrightarrow> k \<le> fst (longest_match now w d (index_record t w chain idx)))
    \<and> (\<forall>v d. fst (longest_match now v d idx) \<le> fst (longest_match now v d (index_record t w chain idx)))
    \<and> (\<forall>v d. v \<noteq> w \<longrightarrow> fst (longest_match now v d (index_record t w chain idx)) = fst (longest_match now v d idx))"
  using idx.match_after_learn [OF assms] idx.match_shared_prefix [OF assms] idx.match_learn_mono [OF assms]
    idx.match_learn_other [OF assms] by (intro conjI allI impI) auto

theorem recorded_chain_matches_witness:
  "fst (longest_match (Instant 9) 3 [7, 71] (index_record (Instant 5) 3 [7, 71] index_new)) = 2"
  using recorded_chain_matches [OF index_inv_new, of "Instant 9" 3 "[7, 71]" "Instant 5"] by simp

text \<open>
  After \<open>remove_worker\<close> nothing matches for the removed worker, before and after any
  eviction sweep, while every other worker's matches are untouched.
\<close>

theorem removed_worker_forgotten:
  assumes "index_inv idx"
  shows "fst (longest_match now w chain (index_remove_worker w idx)) = 0
    \<and> fst (longest_match now w chain (snd (evict t ttl cap (index_remove_worker w idx)))) = 0
    \<and> (\<forall>v d. v \<noteq> w \<longrightarrow> fst (longest_match now v d (index_remove_worker w idx)) = fst (longest_match now v d idx))
    \<and> index_inv (index_remove_worker w idx)"
  using idx.match_after_forget [OF assms] idx.forgotten_after_sweep [OF assms] idx.match_forget_other [OF assms]
    idx.inv_forget [OF assms] by blast

theorem removed_worker_forgotten_witness:
  "fst (longest_match (Instant 9) 3 [7, 71]
     (index_remove_worker 3 (index_record (Instant 5) 3 [7, 71] index_new))) = 0"
  using removed_worker_forgotten [OF idx.inv_learn [OF index_inv_new]] by blast

text \<open>
  C15: an eviction sweep leaves at most \<open>max_entries\<close> entries, reports exactly what it removed
  (the entries beyond the TTL and the overflow of the fresh ones), changes no entry it keeps and
  keeps only fresh ones, and evicts by age: a fresh entry it evicts is no younger than any entry
  it keeps.
\<close>

theorem evict_sweep_correct:
  assumes "index_inv idx" and "evict now ttl cap idx = (stats, idx')"
  shows "index_inv idx' \<and> index_len idx' \<le> cap
    \<and> index_len idx = index_len idx' + expired stats + lru_evicted stats
    \<and> lru_evicted stats = card {h. flat_expire now ttl (index_lookup idx) h \<noteq> None} - cap
    \<and> (\<forall>h e. index_lookup idx' h = Some e
         \<longrightarrow> index_lookup idx h = Some e \<and> duration_since now (last_touched e) \<le> ttl)
    \<and> (\<forall>h e h' e'. index_lookup idx h = Some e \<and> duration_since now (last_touched e) \<le> ttl
         \<and> index_lookup idx' h = None \<and> index_lookup idx' h' = Some e' \<longrightarrow> last_touched e \<le> last_touched e')"
proof -
  have fresh: "flat_expire now ttl (index_lookup idx) h = Some e
      \<longleftrightarrow> index_lookup idx h = Some e \<and> duration_since now (last_touched e) \<le> ttl" for h e
    by (auto simp: flat_expire_def bind_eq_Some_conv split: if_splits)
  note spec = evict_spec [OF assms]
  have "\<forall>h e. index_lookup idx' h = Some e
      \<longrightarrow> index_lookup idx h = Some e \<and> duration_since now (last_touched e) \<le> ttl"
    using spec(6) by (metis fresh option.distinct(1))
  moreover have "\<forall>h e h' e'. index_lookup idx h = Some e \<and> duration_since now (last_touched e) \<le> ttl
      \<and> index_lookup idx' h = None \<and> index_lookup idx' h' = Some e' \<longrightarrow> last_touched e \<le> last_touched e'"
    using spec(7) fresh by blast
  ultimately show ?thesis using spec(1,2,3,5) by blast
qed

theorem evict_sweep_correct_witness:
  "index_len (snd (evict (Instant 9) 6 1 (index_record (Instant 5) 3 [7, 71] index_new))) \<le> 1"
proof -
  let ?idx = "index_record (Instant 5) 3 [7, 71] index_new"
  obtain stats idx' where sweep: "evict (Instant 9) 6 1 ?idx = (stats, idx')" by fastforce
  have "index_len idx' \<le> 1"
    using evict_sweep_correct [OF idx.inv_learn [OF index_inv_new] sweep] by blast
  then show ?thesis unfolding sweep by simp
qed

text \<open>A sweep whose fresh entries fit under the cap removes exactly the expired entries.\<close>

lemma sweep_under_cap:
  assumes "index_inv idx" and "card {h. flat_expire now ttl (index_lookup idx) h \<noteq> None} \<le> cap"
  shows "index_lookup (snd (evict now ttl cap idx)) h = flat_expire now ttl (index_lookup idx) h"
proof -
  obtain stats idx' where sweep: "evict now ttl cap idx = (stats, idx')" by fastforce
  note spec = evict_spec [OF assms(1) sweep]
  let ?fresh = "{h. flat_expire now ttl (index_lookup idx) h \<noteq> None}"
  have fresh: "?fresh \<subseteq> {h. index_lookup idx h \<noteq> None}"
    by (auto simp: flat_expire_def bind_eq_Some_conv)
  have len: "card {h. index_lookup idx' h \<noteq> None} = card ?fresh"
    using spec(4,5) assms(2) by (simp add: index_len_card [OF spec(1)])
  have sub: "{h. index_lookup idx' h \<noteq> None} \<subseteq> ?fresh"
  proof
    fix h assume "h \<in> {h. index_lookup idx' h \<noteq> None}"
    then show "h \<in> ?fresh" using spec(6) [of h] by auto
  qed
  have "{h. index_lookup idx' h \<noteq> None} = ?fresh"
    by (rule card_subset_eq [OF finite_subset [OF fresh finite_index_dom [OF assms(1)]] sub len])
  then have "index_lookup idx' h \<noteq> None \<longleftrightarrow> flat_expire now ttl (index_lookup idx) h \<noteq> None" by blast
  then show ?thesis using spec(6) [of h] by (cases "index_lookup idx' h") (auto simp: sweep)
qed

text \<open>
  C22: a match refreshes what it matched. If the entries still fresh at the sweep fit under the
  cap, however many stale ones there are besides, then a sweep within the TTL of the match leaves
  the match at full length, however old the entries were before it. (An
  index that is within the cap as a whole always meets the condition.)
\<close>

theorem matched_blocks_survive_sweep:
  assumes "index_inv idx" and "longest_match now w chain idx = (k, idx1)"
    and "duration_since later now \<le> ttl"
    and "card {h. flat_expire later ttl (index_lookup idx1) h \<noteq> None} \<le> cap"
  shows "fst (longest_match t w chain (snd (evict later ttl cap idx1))) = k"
proof -
  have inv1: "index_inv idx1" and k: "k = length (takeWhile (holds idx w) chain)"
    and same: "holds idx1 = holds idx"
    using idx.inv_match [OF assms(1), of now w chain] idx.match_value [OF assms(1), of now w chain]
      idx.believes_match [OF assms(1), of now w chain] assms(2) by simp_all
  let ?m = "takeWhile (holds idx w) chain" and ?idx2 = "snd (evict later ttl cap idx1)"
  have look1: "index_lookup idx1 h = (if h \<in> set ?m
      then map_option (last_touched_update (\<lambda>_. now)) (index_lookup idx h) else index_lookup idx h)" for h
    using lookup_longest_match [OF assms(1), of now w chain h] assms(2) by simp
  note look2 = sweep_under_cap [OF inv1 assms(4)]
  have "holds ?idx2 w h" if mem: "h \<in> set ?m" for h
  proof -
    have "holds idx w h" using mem by (rule set_takeWhileD [THEN conjunct2])
    then obtain e where "index_lookup idx h = Some e" and "w \<in> set (entry_workers e)"
      unfolding holds_flat by blast
    then show ?thesis using mem assms(3) by (simp add: holds_flat look2 look1 flat_expire_def)
  qed
  then have "k \<le> fst (longest_match t w chain ?idx2)"
    using idx.match_ge_iff [OF idx.inv_sweep [OF inv1], of k t w chain] takeWhile_eq_take [of "holds idx w" chain]
    by (simp add: k length_takeWhile_le)
  moreover have "fst (longest_match t w chain ?idx2) \<le> k"
    using idx.match_sweep_le [OF inv1, of t w chain later ttl cap] idx.match_value [OF inv1, of t w chain]
    by (simp add: same k)
  ultimately show ?thesis by simp
qed

text \<open>Three entries, a cap of two: the stale third is swept, the two just matched stay.\<close>

theorem matched_blocks_survive_sweep_witness:
  "\<exists>idx1. longest_match (Instant 100) 3 [7, 71] (index_record (Instant 5) 3 [7, 71, 9] index_new) = (2, idx1)
     \<and> index_len idx1 = 3
     \<and> fst (longest_match (Instant 200) 3 [7, 71] (snd (evict (Instant 110) 20 2 idx1))) = 2"
proof -
  let ?idx = "index_record (Instant 5) 3 [7, 71, 9] index_new"
  have inv: "index_inv ?idx" by (rule idx.inv_learn [OF index_inv_new])
  obtain k idx1 where match: "longest_match (Instant 100) 3 [7, 71] ?idx = (k, idx1)" by fastforce
  have run: "longest_match (Instant 100) 3 [7, 71] ?idx = (2, snd (longest_match (Instant 100) 3 [7, 71] ?idx))"
    and len: "index_len (snd (longest_match (Instant 100) 3 [7, 71] ?idx)) = 3" by code_simp+
  have stale: "index_lookup ?idx h = (if h \<in> {7, 71, 9} then Some \<lparr>entry_workers = [3], last_touched = Instant 5\<rparr> else None)" for h
    using index_record_fold [OF index_inv_new, of "Instant 5" 3 "[7, 71, 9]"]
    by (auto simp: flat_record_block_def add_worker_def index_lookup_def shard_entries_def index_new_def shard_of_less hm_get_def)
  have "{h. flat_expire (Instant 110) 20 (index_lookup idx1) h \<noteq> None} \<subseteq> {7, 71}"
    using lookup_longest_match [OF inv, of "Instant 100" 3 "[7, 71]"] match stale
    by (auto simp: flat_expire_def duration_since_def split: if_splits)
  then have "card {h. flat_expire (Instant 110) 20 (index_lookup idx1) h \<noteq> None} \<le> card {7, 71 :: u64}"
    by (intro card_mono) simp_all
  then have "card {h. flat_expire (Instant 110) 20 (index_lookup idx1) h \<noteq> None} \<le> 2" by simp
  then show ?thesis
    using matched_blocks_survive_sweep [OF inv match, of "Instant 110" 20 2 "Instant 200"] match run len
    by (simp add: duration_since_def)
qed

text \<open>
  C21: concurrency. Whatever lock sections of whatever operations run in whatever order, the
  invariant holds after each of them. A \<open>remove_worker\<close> interleaved in any way with other lock
  sections, none of which records that worker, leaves no block credited to it; a \<open>record\<close>
  interleaved in any way with recordings, matches and removals of other workers leaves its whole
  chain credited.
\<close>

theorem interleaved_operations:
  assumes "index_inv idx" and "\<forall>a \<in> set others. action_ok a"
  shows "(\<forall>n. index_inv (fold index_act (take n others) idx))
    \<and> (as \<in> shuffles (purge_actions w) others \<and> (\<forall>now h. RecordBlock now w h \<notin> set others)
      \<longrightarrow> (\<forall>n. index_inv (fold index_act (take n as) idx)) \<and> (\<forall>h. \<not> holds (fold index_act as idx) w h))
    \<and> (as \<in> shuffles (record_actions now w chain) others \<and> (\<forall>a \<in> set others. keeps w a)
      \<longrightarrow> (\<forall>n. index_inv (fold index_act (take n as) idx)) \<and> (\<forall>h \<in> set chain. holds (fold index_act as idx) w h))"
proof (intro conjI impI; (elim conjE)?)
  show "\<forall>n. index_inv (fold index_act (take n others) idx)"
    using assms by (blast intro: index_inv_acts dest: in_set_takeD)
next
  assume as: "as \<in> shuffles (purge_actions w) others" and quiet: "\<forall>now h. RecordBlock now w h \<notin> set others"
  have set_as: "set as = PurgeShard w ` {..<num_shards} \<union> set others"
    using set_shuffles [OF as] by (simp add: purge_actions_def lessThan_atLeast0)
  then have ok: "\<forall>a \<in> set as. action_ok a" using assms(2) by auto
  then show "\<forall>n. index_inv (fold index_act (take n as) idx)"
    using assms(1) by (blast intro: index_inv_acts dest: in_set_takeD)
  have "\<not> holds (fold index_act as idx) w h" for h
    by (rule purged_acts [OF assms(1) ok]) (use set_as quiet shard_of_less in auto)
  then show "\<forall>h. \<not> holds (fold index_act as idx) w h" by simp
next
  assume as: "as \<in> shuffles (record_actions now w chain) others"
    and kind: "\<forall>a \<in> set others. keeps w a"
  have set_as: "set as = RecordBlock now w ` set chain \<union> set others"
    using set_shuffles [OF as] by (simp add: record_actions_def)
  have ok: "\<forall>a \<in> set as. action_ok a" using assms(2) set_as by auto
  then show "\<forall>n. index_inv (fold index_act (take n as) idx)"
    using assms(1) by (blast intro: index_inv_acts dest: in_set_takeD)
  have "\<forall>a \<in> set as. keeps w a"
    using kind set_as by (auto simp: keeps_def [of _ "RecordBlock _ _ _"])
  then show "\<forall>h \<in> set chain. holds (fold index_act as idx) w h"
    using set_as holds_kept_acts [OF assms(1) ok] by blast
qed

text \<open>
  A recording overtaken by a TTL pass; a removal during which another block is touched; a
  recording during which another worker is removed.
\<close>

theorem interleaved_operations_witness:
  "index_inv (fold index_act [RecordBlock (Instant 1) 3 7, ExpireShard (Instant 9) 2 7] index_new)
   \<and> \<not> holds (fold index_act (TouchBlock (Instant 4) 7 # purge_actions 3) (index_record (Instant 5) 3 [7, 71] index_new)) 3 7
   \<and> takeWhile (holds (fold index_act [RecordBlock (Instant 6) 3 7, PurgeShard 2 7, RecordBlock (Instant 6) 3 71] index_new) 3) [7, 71] = [7, 71]"
proof (intro conjI)
  let ?idx = "index_record (Instant 5) 3 [7, 71] index_new"
  have "\<forall>a \<in> set [RecordBlock (Instant 1) 3 7, ExpireShard (Instant 9) 2 7]. action_ok a"
    by (simp add: num_shards_def)
  from interleaved_operations [OF index_inv_new this, THEN conjunct1, rule_format, of 2]
  show "index_inv (fold index_act [RecordBlock (Instant 1) 3 7, ExpireShard (Instant 9) 2 7] index_new)" by simp
  have "TouchBlock (Instant 4) 7 # purge_actions 3 \<in> shuffles (purge_actions 3) [TouchBlock (Instant 4) 7]"
    by (simp add: Cons_in_shuffles_rightI)
  then show "\<not> holds (fold index_act (TouchBlock (Instant 4) 7 # purge_actions 3) ?idx) 3 7"
    using interleaved_operations [where idx = ?idx and others = "[TouchBlock (Instant 4) 7]" and w = 3
        and as = "TouchBlock (Instant 4) 7 # purge_actions 3"] idx.inv_learn [OF index_inv_new] by simp
  let ?as = "[RecordBlock (Instant 6) 3 7, PurgeShard 2 7, RecordBlock (Instant 6) 3 71]"
  have "?as \<in> shuffles (record_actions (Instant 6) 3 [7, 71]) [PurgeShard 2 7]"
    by (simp add: record_actions_def Cons_in_shuffles_leftI Cons_in_shuffles_rightI)
  moreover have "keeps 3 (PurgeShard 2 7)" by (simp add: keeps_def)
  ultimately show "takeWhile (holds (fold index_act ?as index_new) 3) [7, 71] = [7, 71]"
    using interleaved_operations [where idx = index_new and others = "[PurgeShard 2 7]" and as = ?as and w = 3
        and now = "Instant 6" and chain = "[7, 71]"] index_inv_new
    by (simp add: num_shards_def)
qed

end
