(* ===== verification/Inflight.thy ===== *)
theory Inflight
  imports Config "HOL-Library.Multiset"
begin

text \<open>
  \<open>crates/router-core/src/inflight.rs\<close>: per-worker in-flight counters and the RAII guard that
  holds one. A counter is an \<open>AtomicU64\<close>; an update of a worker beyond the vector is silently
  skipped, as in the code. The locale \<open>load_tracker\<close> is what the server's request paths rely
  on; live guards are a multiset, since Rust drops each guard exactly once.
\<close>

section \<open>State and operations\<close>

record inflight_tracker =
  counts :: "u64 list"

record inflight_guard =
  guard_worker :: worker_id

definition with_capacity :: "nat \<Rightarrow> inflight_tracker" where
  "with_capacity workers = \<lparr>counts = replicate workers 0\<rparr>"

definition ensure_capacity :: "nat \<Rightarrow> inflight_tracker \<Rightarrow> inflight_tracker" where
  "ensure_capacity workers t =
     (if length (counts t) < workers
      then t\<lparr>counts := counts t @ replicate (workers - length (counts t)) 0\<rparr> else t)"

definition inflight_count :: "inflight_tracker \<Rightarrow> worker_id \<Rightarrow> u64" where
  "inflight_count t worker = (if unat worker < length (counts t) then counts t ! unat worker else 0)"

definition inflight_total :: "inflight_tracker \<Rightarrow> u64" where
  "inflight_total t = sum_list (counts t)"

definition increment :: "worker_id \<Rightarrow> inflight_tracker \<Rightarrow> inflight_tracker" where
  "increment worker t =
     (if unat worker < length (counts t)
      then t\<lparr>counts := (counts t)[unat worker := counts t ! unat worker + 1]\<rparr> else t)"

definition decrement :: "worker_id \<Rightarrow> inflight_tracker \<Rightarrow> inflight_tracker" where
  "decrement worker t =
     (if unat worker < length (counts t)
      then t\<lparr>counts := (counts t)[unat worker := counts t ! unat worker - 1]\<rparr> else t)"

definition guard_acquire :: "worker_id \<Rightarrow> inflight_tracker \<Rightarrow> inflight_guard \<times> inflight_tracker" where
  "guard_acquire worker t = (let t = increment worker t in (\<lparr>guard_worker = worker\<rparr>, t))"

definition guard_drop :: "inflight_guard \<Rightarrow> inflight_tracker \<Rightarrow> inflight_tracker" where
  "guard_drop g t = decrement (guard_worker g) t"

definition tracked :: "inflight_tracker \<Rightarrow> worker_id \<Rightarrow> bool" where
  "tracked t worker \<longleftrightarrow> unat worker < length (counts t)"

section \<open>Contract\<close>

text \<open>\<open>accounts t live\<close>: the tracker accounts exactly for the live guards \<open>live\<close>.\<close>

locale load_tracker =
  fixes accounts :: "'t \<Rightarrow> worker_id multiset \<Rightarrow> bool"
    and known :: "'t \<Rightarrow> worker_id \<Rightarrow> bool"
    and load :: "'t \<Rightarrow> worker_id \<Rightarrow> nat"
    and enter :: "worker_id \<Rightarrow> 't \<Rightarrow> 't"
    and leave :: "worker_id \<Rightarrow> 't \<Rightarrow> 't"
    and grow :: "nat \<Rightarrow> 't \<Rightarrow> 't"
  assumes load_live: "accounts t live \<Longrightarrow> load t w = count live w"
    and live_known: "accounts t live \<Longrightarrow> w \<in># live \<Longrightarrow> known t w"
    and accounts_enter: "accounts t live \<Longrightarrow> known t w \<Longrightarrow> size live + 1 < 2 ^ 64
        \<Longrightarrow> accounts (enter w t) (add_mset w live)"
    and accounts_leave: "accounts t live \<Longrightarrow> w \<in># live \<Longrightarrow> accounts (leave w t) (live - {#w#})"
    and accounts_grow: "accounts t live \<Longrightarrow> n < 2 ^ 64 \<Longrightarrow> accounts (grow n t) live"
    and known_grow: "known (grow n t) w \<longleftrightarrow> known t w \<or> unat w < n"
    and known_enter: "known (enter v t) w \<longleftrightarrow> known t w"
    and known_leave: "known (leave v t) w \<longleftrightarrow> known t w"
begin

lemma balanced:
  assumes "accounts t live" and "known t w" and "size live + 1 < 2 ^ 64"
  shows "accounts (leave w (enter w t)) live" and "load (leave w (enter w t)) v = load t v"
proof -
  show "accounts (leave w (enter w t)) live"
    using accounts_leave [OF accounts_enter [OF assms], of w] by simp
  then show "load (leave w (enter w t)) v = load t v"
    using assms(1) by (simp add: load_live)
qed

lemma entered_load:
  assumes "accounts t live" and "known t w" and "size live + 1 < 2 ^ 64"
  shows "load (enter w t) v = load t v + (if v = w then 1 else 0)"
  using load_live [OF accounts_enter [OF assms]] load_live [OF assms(1)] by simp

lemma idle: "accounts t {#} \<Longrightarrow> load t w = 0"
  by (simp add: load_live)

end

definition inflight_accounts :: "inflight_tracker \<Rightarrow> worker_id multiset \<Rightarrow> bool" where
  "inflight_accounts t live \<longleftrightarrow> length (counts t) < 2 ^ 64 \<and> size live < 2 ^ 64
     \<and> (\<forall>w \<in># live. tracked t w) \<and> (\<forall>w. tracked t w \<longrightarrow> counts t ! unat w = of_nat (count live w))"

lemma count_less_size: "size live < 2 ^ 64 \<Longrightarrow> count live w < 2 ^ 64"
  using count_le_size [of live w] by linarith

lemma inflight_accounts_count:
  assumes "inflight_accounts t live"
  shows "unat (inflight_count t w) = count live w"
proof (cases "tracked t w")
  case True
  then show ?thesis
    using assms count_less_size [of live w]
    by (simp add: inflight_accounts_def inflight_count_def tracked_def unat_of_nat take_bit_nat_eq_self)
next
  case False
  then have "count live w = 0"
    using assms by (auto simp: inflight_accounts_def not_in_iff)
  then show ?thesis
    using False by (simp add: inflight_count_def tracked_def)
qed

lemma tracked_simps [simp]:
  "tracked (increment v t) w \<longleftrightarrow> tracked t w"
  "tracked (decrement v t) w \<longleftrightarrow> tracked t w"
  "tracked (ensure_capacity n t) w \<longleftrightarrow> tracked t w \<or> unat w < n"
  by (auto simp: tracked_def increment_def decrement_def ensure_capacity_def)

interpretation fl: load_tracker inflight_accounts tracked "\<lambda>t w. unat (inflight_count t w)"
  "\<lambda>w t. snd (guard_acquire w t)" "\<lambda>w t. guard_drop \<lparr>guard_worker = w\<rparr> t" ensure_capacity
proof unfold_locales
  fix t live w n
  assume acc: "inflight_accounts t live"
  show "unat (inflight_count t w) = count live w"
    by (rule inflight_accounts_count [OF acc])
  show "w \<in># live \<Longrightarrow> tracked t w"
    using acc by (simp add: inflight_accounts_def)
  show "tracked t w \<Longrightarrow> size live + 1 < 2 ^ 64 \<Longrightarrow> inflight_accounts (snd (guard_acquire w t)) (add_mset w live)"
    using acc by (auto simp: inflight_accounts_def guard_acquire_def Let_def increment_def
        tracked_def nth_list_update dest: word_unat_eq_iff [THEN iffD2])
  show "inflight_accounts (guard_drop \<lparr>guard_worker = w\<rparr> t) (live - {#w#})" if live: "w \<in># live"
  proof -
    have "tracked t w" using acc live by (simp add: inflight_accounts_def)
    moreover have "count live w \<ge> 1" using live by (simp add: Suc_le_eq)
    then have "of_nat (count live w) - 1 = (of_nat (count live w - 1) :: u64)"
      by (simp add: of_nat_diff)
    ultimately show ?thesis
      using acc size_Diff1_le [of live w]
      by (auto simp: inflight_accounts_def guard_drop_def decrement_def tracked_def
          nth_list_update dest: in_diffD word_unat_eq_iff [THEN iffD2])
  qed
  show "n < 2 ^ 64 \<Longrightarrow> inflight_accounts (ensure_capacity n t) live"
    using acc inflight_accounts_count [OF acc]
    by (auto simp: inflight_accounts_def ensure_capacity_def tracked_def nth_append not_in_iff)
qed (auto simp: guard_acquire_def guard_drop_def Let_def)

lemma inflight_accounts_init: "n < 2 ^ 64 \<Longrightarrow> inflight_accounts (with_capacity n) {#}"
  by (simp add: inflight_accounts_def with_capacity_def tracked_def)

text \<open>The total is the number of live guards.\<close>

lemma inflight_accounts_total:
  assumes "inflight_accounts t live"
  shows "inflight_total t = of_nat (size live)"
proof -
  let ?n = "length (counts t)"
  have inj: "inj_on (of_nat :: nat \<Rightarrow> u64) {..<?n}"
    using assms by (auto intro!: inj_onI simp: inflight_accounts_def word_of_nat_eq_iff take_bit_nat_eq_self)
  have sub: "set_mset live \<subseteq> of_nat ` {..<?n}"
    using assms by (force simp: inflight_accounts_def tracked_def image_iff intro: exI [of _ "unat _"])
  have nth: "counts t ! i = of_nat (count live (of_nat i))" if "i < ?n" for i
  proof -
    have "unat (of_nat i :: u64) = i"
      using assms that by (simp add: inflight_accounts_def unat_of_nat take_bit_nat_eq_self)
    then show ?thesis
      using assms that by (metis inflight_accounts_def tracked_def)
  qed
  have "size live = (\<Sum>w \<in> of_nat ` {..<?n}. count live w)"
    unfolding size_multiset_overloaded_eq
    by (rule sum.mono_neutral_left [OF _ sub]) (auto simp: not_in_iff)
  also have "\<dots> = (\<Sum>i < ?n. count live (of_nat i))"
    by (simp add: sum.reindex [OF inj])
  finally have "of_nat (size live) = (\<Sum>i < ?n. of_nat (count live (of_nat i)) :: u64)"
    by simp
  also have "\<dots> = (\<Sum>i < ?n. counts t ! i)"
    using nth by simp
  finally show ?thesis
    by (simp add: inflight_total_def sum_list_sum_nth atLeast0LessThan)
qed

section \<open>Runs\<close>

text \<open>
  What a program holding guards can do: acquire one, drop one it holds, or grow the vector.
  \<open>Acquire\<close> is unrestricted here, as in the code.
\<close>

datatype inflight_event = Acquire worker_id | Release worker_id | Grow nat

type_synonym inflight_state = "inflight_tracker \<times> worker_id multiset"

inductive inflight_step :: "inflight_state \<Rightarrow> inflight_event \<Rightarrow> inflight_state \<Rightarrow> bool" where
  acquire: "guard_acquire w t = (g, t') \<Longrightarrow> inflight_step (t, live) (Acquire w) (t', add_mset w live)"
| release: "w \<in># live \<Longrightarrow>
    inflight_step (t, live) (Release w) (guard_drop \<lparr>guard_worker = w\<rparr> t, live - {#w#})"
| grow: "n < 2 ^ 64 \<Longrightarrow> inflight_step (t, live) (Grow n) (ensure_capacity n t, live)"

inductive inflight_run :: "inflight_state \<Rightarrow> inflight_event list \<Rightarrow> inflight_state \<Rightarrow> bool" where
  run_Nil: "inflight_run s [] s"
| run_Cons: "inflight_step s e s' \<Longrightarrow> inflight_run s' es s'' \<Longrightarrow> inflight_run s (e # es) s''"

inductive_cases inflight_run_ConsE: "inflight_run s (e # es) s'"
inductive_simps inflight_run_Nil: "inflight_run s [] s'"

text \<open>The steps as introduction rules for concrete runs.\<close>

lemma run_acquire:
  "inflight_run (snd (guard_acquire w t), add_mset w live) es s \<Longrightarrow> inflight_run (t, live) (Acquire w # es) s"
  by (rule inflight_run.run_Cons [OF inflight_step.acquire]) (simp_all add: guard_acquire_def Let_def)

lemma run_release:
  "w \<in># live \<Longrightarrow> inflight_run (guard_drop \<lparr>guard_worker = w\<rparr> t, live - {#w#}) es s
     \<Longrightarrow> inflight_run (t, live) (Release w # es) s"
  by (rule inflight_run.run_Cons [OF inflight_step.release])

lemma run_grow:
  "n < 2 ^ 64 \<Longrightarrow> inflight_run (ensure_capacity n t, live) es s \<Longrightarrow> inflight_run (t, live) (Grow n # es) s"
  by (rule inflight_run.run_Cons [OF inflight_step.grow])

text \<open>The discipline under which the counts are exact: acquire only where there is a counter.\<close>

fun acquires_tracked :: "nat \<Rightarrow> inflight_event list \<Rightarrow> bool" where
  "acquires_tracked cap [] \<longleftrightarrow> True"
| "acquires_tracked cap (Acquire w # es) \<longleftrightarrow> unat w < cap \<and> acquires_tracked cap es"
| "acquires_tracked cap (Release w # es) \<longleftrightarrow> acquires_tracked cap es"
| "acquires_tracked cap (Grow n # es) \<longleftrightarrow> acquires_tracked (max cap n) es"

lemma length_counts_simps [simp]:
  "length (counts (increment w t)) = length (counts t)"
  "length (counts (decrement w t)) = length (counts t)"
  "length (counts (ensure_capacity n t)) = max (length (counts t)) n"
  by (auto simp: increment_def decrement_def ensure_capacity_def)

lemma inflight_run_accounts:
  assumes "inflight_run (t, live) es (t', live')" and "inflight_accounts t live"
    and "acquires_tracked (length (counts t)) es" and "size live + length es < 2 ^ 64"
  shows "inflight_accounts t' live'"
  using assms
proof (induction es arbitrary: t live)
  case Nil
  then show ?case by (simp add: inflight_run_Nil)
next
  case (Cons e es)
  from Cons.prems(1) obtain t1 live1 where step: "inflight_step (t, live) e (t1, live1)"
    and rest: "inflight_run (t1, live1) es (t', live')"
    by (auto elim: inflight_run_ConsE)
  from step show ?case
  proof (cases rule: inflight_step.cases)
    case (acquire w g)
    then show ?thesis
      using Cons.IH [OF rest] Cons.prems fl.accounts_enter [of t live w]
      by (auto simp: guard_acquire_def Let_def tracked_def)
  next
    case (release w)
    moreover have "size (live - {#w#}) \<le> size live"
      by (rule size_Diff1_le)
    ultimately show ?thesis
      using Cons.IH [OF rest] Cons.prems fl.accounts_leave [of t live w]
      by (simp add: guard_drop_def)
  next
    case (grow n)
    then show ?thesis
      using Cons.IH [OF rest] Cons.prems fl.accounts_grow [of t live n] by simp
  qed
qed

section \<open>Properties\<close>

text \<open>
  From a fresh tracker, after any sequence of guard acquisitions, guard drops and growths in
  which guards are acquired only for workers the vector covers, every worker's count is exactly
  its number of live guards and the total is the number of live guards; in particular with no
  guard left alive every count is zero.
\<close>

theorem inflight_counts_live_guards:
  assumes "inflight_run (with_capacity n, {#}) es (t, live)" and "n < 2 ^ 64"
    and "acquires_tracked n es" and "length es < 2 ^ 64"
  shows "(\<forall>w. unat (inflight_count t w) = count live w) \<and> inflight_total t = of_nat (size live)
    \<and> (live = {#} \<longrightarrow> (\<forall>w. inflight_count t w = 0))"
proof -
  have acc: "inflight_accounts t live"
    using inflight_run_accounts [OF assms(1) inflight_accounts_init [OF assms(2)]] assms(3,4)
    by (simp add: with_capacity_def)
  then show ?thesis
    using fl.load_live [OF acc] inflight_accounts_total [OF acc]
    by (auto simp: unat_eq_0)
qed

theorem inflight_counts_live_guards_witness:
  "\<exists>t. inflight_run (with_capacity 2, {#}) [Acquire 0, Acquire 1, Acquire 0, Release 1, Grow 4, Acquire 3] (t, {#0, 0, 3#})
     \<and> unat (inflight_count t 0) = 2 \<and> inflight_total t = 3"
proof -
  have run: "inflight_run (with_capacity 2, {#}) [Acquire 0, Acquire 1, Acquire 0, Release 1, Grow 4, Acquire 3]
      (snd (guard_acquire 3 (ensure_capacity 4 (guard_drop \<lparr>guard_worker = 1\<rparr>
         (snd (guard_acquire 0 (snd (guard_acquire 1 (snd (guard_acquire 0 (with_capacity 2)))))))))),
       add_mset 3 (add_mset 0 (add_mset 1 {#0#}) - {#1#}))"
    by (intro run_acquire run_release run_grow) (simp_all add: inflight_run_Nil)
  from inflight_counts_live_guards [OF run] run show ?thesis
    by (intro exI conjI) (auto simp: add_mset_commute)
qed

text \<open>
  C37: a guard acquired while the vector does not cover its worker counts nothing, and if the
  vector grows before it is dropped the drop wraps the counter below zero: the worker appears to
  have \<open>2 ^ 64 - 1\<close> requests in flight although none is.
\<close>

theorem untracked_guard_underflows:
  assumes "n \<le> unat w" and "unat w < m"
    and "guard_acquire w (with_capacity n) = (g, t)"
  shows "inflight_count t w = 0
    \<and> inflight_count (guard_drop g (ensure_capacity m t)) w = - 1"
  using assms
  by (auto simp: guard_acquire_def Let_def increment_def guard_drop_def decrement_def with_capacity_def
      ensure_capacity_def inflight_count_def nth_append)

theorem untracked_guard_underflows_witness:
  "unat (inflight_count (guard_drop \<lparr>guard_worker = 17\<rparr> (ensure_capacity 18 (with_capacity 17))) 17)
     = 18446744073709551615"
proof -
  have "guard_acquire 17 (with_capacity 17) = (\<lparr>guard_worker = 17\<rparr>, with_capacity 17)"
    by (simp add: guard_acquire_def Let_def increment_def with_capacity_def)
  from untracked_guard_underflows [OF _ _ this, of 18] show ?thesis
    by (simp add: unat_max_u64)
qed

end
