(* ===== verification/Router.thy ===== *)
theory Router
  imports Registry PrefixIndex Inflight Request "HOL-Library.Product_Lexorder"
begin

text \<open>
  \<open>crates/router-core/src/router.rs\<close>: the candidate order, the score, and the routing decisions.
  The registry is shared with the health poller and discovery, so it is an argument; the rest
  of the router's state is a record, threaded through. \<open>clk\<close> gives the clock readings of a
  call in the order the code takes them.
\<close>

section \<open>Candidates\<close>

record candidate =
  cand_score :: f64
  cand_in_flight :: u64
  cand_id :: worker_id

text \<open>\<open>Ord for Candidate\<close>.\<close>

definition candidate_cmp :: "candidate \<Rightarrow> candidate \<Rightarrow> ordering" where
  "candidate_cmp a b =
     then_with
       (then_with
         (case partial_cmp (cand_score a) (cand_score b) of None \<Rightarrow> Equal | Some c \<Rightarrow> c)
         (cmp_of (cand_in_flight b) (cand_in_flight a)))
       (cmp_of (cand_id b) (cand_id a))"

text \<open>\<open>PartialEq for Candidate\<close>.\<close>

definition candidate_eq :: "candidate \<Rightarrow> candidate \<Rightarrow> bool" where
  "candidate_eq a b \<longleftrightarrow> candidate_cmp a b = Equal"

section \<open>The router\<close>

record route_decision =
  d_worker :: worker
  matched_prefix_len :: nat
  prompt_blocks :: nat
  d_score :: f64

record router =
  rt_policy :: routing_policy
  next_worker :: u64
  rt_index :: prefix_index
  rt_inflight :: inflight_tracker
  block_size :: nat
  cache_weight :: f64
  load_weight :: f64

record scored_worker =
  sw_worker :: worker
  sw_matched :: nat
  sw_candidate :: candidate

definition router_new :: "router_config \<Rightarrow> router" where
  "router_new config =
     \<lparr>rt_policy = cfg_policy config, next_worker = 0, rt_index = index_new,
      rt_inflight = with_capacity (length (cfg_workers config)),
      block_size = max (prompt_block_chars config) 1,
      cache_weight = cfg_cache_weight config, load_weight = cfg_load_weight config\<rparr>"

definition score_worker :: "router \<Rightarrow> worker_id \<Rightarrow> nat \<Rightarrow> f64" where
  "score_worker r worker matched_blocks =
     f64_sub (f64_mul (f64_of_nat matched_blocks) (cache_weight r))
       (f64_mul (f64_of_nat (unat (inflight_count (rt_inflight r) worker))) (load_weight r))"

text \<open>The \<open>map\<close> of \<open>pick_best\<close>; the \<open>i\<close>-th call of \<open>longest_match\<close> reads the clock \<open>clk i\<close>.\<close>

fun score_candidates ::
  "(nat \<Rightarrow> instant) \<Rightarrow> nat \<Rightarrow> u64 list \<Rightarrow> worker list \<Rightarrow> router \<Rightarrow> scored_worker list \<times> router" where
  "score_candidates clk i chain [] r = ([], r)"
| "score_candidates clk i chain (w # ws) r =
     (let (matched, idx) = longest_match (clk i) (wid w) chain (rt_index r);
          r = r\<lparr>rt_index := idx\<rparr>;
          candidate = \<lparr>cand_score = score_worker r (wid w) matched,
                       cand_in_flight = inflight_count (rt_inflight r) (wid w), cand_id = wid w\<rparr>;
          (rest, r) = score_candidates clk (Suc i) chain ws r
      in (\<lparr>sw_worker = w, sw_matched = matched, sw_candidate = candidate\<rparr> # rest, r))"

definition scored_cmp :: "scored_worker \<Rightarrow> scored_worker \<Rightarrow> ordering" where
  "scored_cmp a b = candidate_cmp (sw_candidate a) (sw_candidate b)"

definition pick_best ::
  "(nat \<Rightarrow> instant) \<Rightarrow> worker list \<Rightarrow> u64 list \<Rightarrow> router \<Rightarrow> scored_worker option \<times> router" where
  "pick_best clk candidates chain r =
     (let (scored, r) = score_candidates clk 0 chain candidates r in (max_by scored_cmp scored, r))"

text \<open>Workers labelled \<open>both\<close> if any is healthy, else every healthy worker.\<close>

definition chat_candidates :: "worker list \<Rightarrow> worker list" where
  "chat_candidates healthy =
     (if list_ex (\<lambda>w. wpool w = Both) healthy then filter (\<lambda>w. wpool w = Both) healthy else healthy)"

definition select_for_chat ::
  "(nat \<Rightarrow> instant) \<Rightarrow> worker_registry \<Rightarrow> 'json chat_request \<Rightarrow> router
     \<Rightarrow> (router_error + route_decision) \<times> router" where
  "select_for_chat clk registry request r =
     (let chain = chain_hash (canonical_prompt request) (block_size r);
          healthy = healthy_workers registry
      in if healthy = [] then (Inl (NoHealthyWorkers (policy_to_string (rt_policy r))), r)
         else let candidates = chat_candidates healthy
         in case rt_policy r of
              RoundRobin \<Rightarrow>
                (let index = unat (next_worker r) mod length candidates;
                     r = r\<lparr>next_worker := next_worker r + 1\<rparr>;
                     worker = candidates ! index;
                     (matched, idx) = longest_match (clk 0) (wid worker) chain (rt_index r);
                     idx = index_record (clk 1) (wid worker) chain idx
                 in (Inr \<lparr>d_worker = worker, matched_prefix_len = matched,
                          prompt_blocks = length chain, d_score = pos_zero\<rparr>, r\<lparr>rt_index := idx\<rparr>))
            | CacheAware \<Rightarrow>
                (case pick_best clk candidates chain r of
                   (None, r) \<Rightarrow> (Inl (NoHealthyWorkers (policy_to_string (rt_policy r))), r)
                 | (Some best, r) \<Rightarrow>
                     (Inr \<lparr>d_worker = sw_worker best, matched_prefix_len = sw_matched best,
                           prompt_blocks = length chain, d_score = cand_score (sw_candidate best)\<rparr>,
                      r\<lparr>rt_index := index_record (clk (length candidates)) (wid (sw_worker best)) chain (rt_index r)\<rparr>))
            | Disaggregated \<Rightarrow> (Inl DisaggregatedRequiresTwoPhase, r))"

definition select_in_pool ::
  "(nat \<Rightarrow> instant) \<Rightarrow> worker_registry \<Rightarrow> pool \<Rightarrow> u64 list \<Rightarrow> router
     \<Rightarrow> (router_error + route_decision) \<times> router" where
  "select_in_pool clk registry p chain r =
     (let candidates = filter (\<lambda>w. wpool w = p) (healthy_workers registry)
      in if candidates = []
         then (Inl (NoHealthyWorkersInPool (pool_to_string p) (policy_to_string (rt_policy r))), r)
         else case pick_best clk candidates chain r of
                (None, r) \<Rightarrow>
                  (Inl (NoHealthyWorkersInPool (pool_to_string p) (policy_to_string (rt_policy r))), r)
              | (Some best, r) \<Rightarrow>
                  (Inr \<lparr>d_worker = sw_worker best, matched_prefix_len = sw_matched best,
                        prompt_blocks = length chain, d_score = cand_score (sw_candidate best)\<rparr>,
                   r\<lparr>rt_index := index_record (clk (length candidates)) (wid (sw_worker best)) chain (rt_index r)\<rparr>))"

section \<open>The candidate order\<close>

text \<open>Without NaN the order is the lexicographic one on score, load and identifier.\<close>

definition candidate_key :: "candidate \<Rightarrow> ((int \<times> rat) \<times> int) \<times> int" where
  "candidate_key c = ((f64_key (cand_score c), - uint (cand_in_flight c)), - uint (cand_id c))"

lemma then_with_cmp_of: "then_with (cmp_of a b) (cmp_of c d) = cmp_of (a, c) (b, d)"
  by (cases "cmp_of a b") (auto simp: cmp_of_def less_prod_def split: if_splits)

lemma cmp_of_uint: "cmp_of (b :: u64) a = cmp_of (- uint a) (- uint b)"
  by (auto simp: cmp_of_def word_less_def word_uint_eq_iff)

lemma key_cmp_of: "key_cmp p q = cmp_of p q"
  by (simp add: key_cmp_def then_with_cmp_of)

lemma candidate_cmp_key:
  assumes "cand_score a \<noteq> NaN" and "cand_score b \<noteq> NaN"
  shows "candidate_cmp a b = cmp_of (candidate_key a) (candidate_key b)"
  unfolding candidate_cmp_def candidate_key_def partial_cmp_key [OF assms] option.case key_cmp_of
    cmp_of_uint then_with_cmp_of ..

lemma cmp_of_laws:
  "cmp_of a a = Equal" "cmp_of a b = Greater \<longleftrightarrow> cmp_of b a = Less" "cmp_of a b \<noteq> Greater \<longleftrightarrow> a \<le> b"
  by (auto simp: cmp_of_def)

interpretation cand: comparator "\<lambda>c. cand_score c \<noteq> NaN" candidate_cmp
proof unfold_locales
  fix a b c :: candidate
  assume ok: "cand_score a \<noteq> NaN" "cand_score b \<noteq> NaN" "cand_score c \<noteq> NaN"
  show "candidate_cmp a b \<noteq> Greater \<Longrightarrow> candidate_cmp b c \<noteq> Greater \<Longrightarrow> candidate_cmp a c \<noteq> Greater"
    unfolding candidate_cmp_key [OF ok(1,2)] candidate_cmp_key [OF ok(2,3)] candidate_cmp_key [OF ok(1,3)]
      cmp_of_laws(3) by (rule order_trans)
qed (simp_all add: candidate_cmp_key cmp_of_laws(1,2))

interpretation scored: comparator "\<lambda>s. cand_score (sw_candidate s) \<noteq> NaN" scored_cmp
proof unfold_locales
  fix a b c :: scored_worker
  assume ok: "cand_score (sw_candidate a) \<noteq> NaN" "cand_score (sw_candidate b) \<noteq> NaN" "cand_score (sw_candidate c) \<noteq> NaN"
  show "scored_cmp a a = Equal"
    unfolding scored_cmp_def by (rule cand.cmp_refl [OF ok(1)])
  show "scored_cmp a b = Greater \<longleftrightarrow> scored_cmp b a = Less"
    unfolding scored_cmp_def by (rule cand.cmp_antisym [OF ok(1,2)])
  show "scored_cmp a b \<noteq> Greater \<Longrightarrow> scored_cmp b c \<noteq> Greater \<Longrightarrow> scored_cmp a c \<noteq> Greater"
    unfolding scored_cmp_def by (rule cand.cmp_trans [OF ok])
qed

section \<open>Invariant and effects\<close>

definition router_inv :: "router \<Rightarrow> bool" where
  "router_inv r \<longleftrightarrow> index_inv (rt_index r) \<and> 1 \<le> block_size r"

lemma router_inv_new: "router_inv (router_new config)"
  by (simp add: router_inv_def router_new_def index_inv_new)

text \<open>The blocks of \<open>chain\<close> the router believes a worker holds, as a value.\<close>

definition match_len :: "router \<Rightarrow> worker_id \<Rightarrow> u64 list \<Rightarrow> nat" where
  "match_len r w chain = length (takeWhile (holds (rt_index r) w) chain)"

lemma match_len_le: "match_len r w chain \<le> length chain"
  by (simp add: match_len_def length_takeWhile_le)

lemma match_len_full: "match_len r w chain = length chain \<longleftrightarrow> (\<forall>h \<in> set chain. holds (rt_index r) w h)"
proof
  assume "match_len r w chain = length chain"
  then have "takeWhile (holds (rt_index r) w) chain = chain"
    unfolding match_len_def using takeWhile_eq_take [of "holds (rt_index r) w" chain] by (metis take_all order_refl)
  then show "\<forall>h \<in> set chain. holds (rt_index r) w h"
    by (simp add: takeWhile_eq_all_conv)
next
  assume "\<forall>h \<in> set chain. holds (rt_index r) w h"
  then have "takeWhile (holds (rt_index r) w) chain = chain"
    by (simp add: takeWhile_eq_all_conv)
  then show "match_len r w chain = length chain"
    unfolding match_len_def by (rule arg_cong)
qed

text \<open>Two routers that differ only in when index entries were touched.\<close>

definition touched :: "router \<Rightarrow> router \<Rightarrow> bool" where
  "touched r r' \<longleftrightarrow> r' = r\<lparr>rt_index := rt_index r'\<rparr> \<and> holds (rt_index r') = holds (rt_index r)
     \<and> router_inv r'"

text \<open>What scoring one worker yields.\<close>

definition scored_of :: "router \<Rightarrow> u64 list \<Rightarrow> worker \<Rightarrow> scored_worker" where
  "scored_of r chain w =
     (let matched = match_len r (wid w) chain
      in \<lparr>sw_worker = w, sw_matched = matched,
          sw_candidate = \<lparr>cand_score = score_worker r (wid w) matched,
            cand_in_flight = inflight_count (rt_inflight r) (wid w), cand_id = wid w\<rparr>\<rparr>)"

lemma touched_refl: "router_inv r \<Longrightarrow> touched r r"
  by (simp add: touched_def)

lemma touched_match:
  assumes "router_inv r" and "longest_match t w chain (rt_index r) = (k, idx)"
  shows "k = match_len r w chain" and "touched r (r\<lparr>rt_index := idx\<rparr>)"
  using assms idx.match_value [of "rt_index r" t w chain] idx.believes_match [of "rt_index r" t w chain]
    idx.inv_match [of "rt_index r" t w chain]
  by (simp_all add: touched_def router_inv_def match_len_def)

lemma touchedE:
  assumes "touched r r'"
  obtains i where "r' = r\<lparr>rt_index := i\<rparr>" and "holds i = holds (rt_index r)" and "router_inv r'"
  using assms by (auto simp: touched_def)

lemma touched_trans:
  assumes "touched r r'" and "touched r' r''"
  shows "touched r r''"
proof -
  obtain i where r': "r' = r\<lparr>rt_index := i\<rparr>" "holds i = holds (rt_index r)"
    using assms(1) by (rule touchedE)
  obtain j where r'': "r'' = r'\<lparr>rt_index := j\<rparr>" "holds j = holds (rt_index r')" "router_inv r''"
    using assms(2) by (rule touchedE)
  then show ?thesis using r' by (simp add: touched_def)
qed

lemma touched_scored_of: "touched r r' \<Longrightarrow> scored_of r' = scored_of r"
  by (erule touchedE, intro ext) (simp add: scored_of_def match_len_def score_worker_def)

lemma score_candidates_spec:
  assumes "router_inv r"
  shows "fst (score_candidates clk i chain ws r) = map (scored_of r chain) ws
     \<and> touched r (snd (score_candidates clk i chain ws r))"
  using assms
proof (induction ws arbitrary: i r)
  case (Cons w ws)
  obtain k idx where match: "longest_match (clk i) (wid w) chain (rt_index r) = (k, idx)"
    by fastforce
  let ?r = "r\<lparr>rt_index := idx\<rparr>"
  note first = touched_match [OF Cons.prems match]
  have inv: "router_inv ?r" using first(2) by (simp add: touched_def)
  obtain rest r' where rec: "score_candidates clk (Suc i) chain ws ?r = (rest, r')"
    by fastforce
  have "rest = map (scored_of r chain) ws" and "touched ?r r'"
    using Cons.IH [OF inv, of "Suc i"] rec touched_scored_of [OF first(2)] by simp_all
  moreover have "score_worker ?r v n = score_worker r v n" for v n
    by (simp add: score_worker_def)
  ultimately show ?case
    using match rec first touched_trans [OF first(2)] by (simp add: Let_def scored_of_def)
qed (simp add: touched_refl)

lemma pick_best_spec:
  assumes "router_inv r"
  shows "fst (pick_best clk ws chain r) = max_by scored_cmp (map (scored_of r chain) ws)"
    and "touched r (snd (pick_best clk ws chain r))"
  using score_candidates_spec [OF assms, of clk 0 chain ws]
  by (simp_all add: pick_best_def case_prod_beta Let_def)

lemma pick_best_Some:
  assumes "router_inv r" and "ws \<noteq> []"
  obtains w r' where "w \<in> set ws" and "pick_best clk ws chain r = (Some (scored_of r chain w), r')"
    and "touched r r'" and "max_by scored_cmp (map (scored_of r chain) ws) = Some (scored_of r chain w)"
proof -
  obtain b where best: "max_by scored_cmp (map (scored_of r chain) ws) = Some b"
    using assms(2) by (cases "max_by scored_cmp (map (scored_of r chain) ws)") auto
  then obtain w where w: "w \<in> set ws" and b: "b = scored_of r chain w"
    using max_by_in [OF best] by auto
  show thesis
    by (rule that [OF w, of "snd (pick_best clk ws chain r)"])
      (use pick_best_spec [OF assms(1), of clk ws chain] best b in \<open>auto intro: prod_eqI\<close>)
qed

text \<open>
  The effect of a successful decision for worker \<open>w\<close> on the router: the chain is credited to
  \<open>w\<close>, entries are refreshed, the round-robin counter may advance, nothing else changes.
\<close>

definition decided :: "worker_id \<Rightarrow> u64 list \<Rightarrow> router \<Rightarrow> router \<Rightarrow> bool" where
  "decided w chain r r' \<longleftrightarrow>
     r' = r\<lparr>rt_index := rt_index r', next_worker := next_worker r'\<rparr> \<and> router_inv r'
     \<and> (\<forall>v h. holds (rt_index r') v h \<longleftrightarrow> holds (rt_index r) v h \<or> v = w \<and> h \<in> set chain)"

lemma decided_frame:
  assumes "decided w chain r r'"
  shows "router_inv r'" and "rt_policy r' = rt_policy r" and "block_size r' = block_size r"
    and "cache_weight r' = cache_weight r" and "load_weight r' = load_weight r" and "rt_inflight r' = rt_inflight r"
proof -
  from assms obtain i n where "r' = r\<lparr>rt_index := i, next_worker := n\<rparr>" unfolding decided_def by blast
  then show "router_inv r'" and "rt_policy r' = rt_policy r" and "block_size r' = block_size r"
    and "cache_weight r' = cache_weight r" and "load_weight r' = load_weight r" and "rt_inflight r' = rt_inflight r"
    using assms by (simp_all add: decided_def)
qed

lemma decided_record:
  assumes "touched r r1" and "r2 = r1\<lparr>next_worker := n\<rparr>"
  shows "decided w chain r (r2\<lparr>rt_index := index_record t w chain (rt_index r1)\<rparr>)"
proof -
  obtain i where r1: "r1 = r\<lparr>rt_index := i\<rparr>" "holds i = holds (rt_index r)" "router_inv r1"
    using assms(1) by (rule touchedE)
  then have inv: "index_inv i" and "1 \<le> block_size r"
    by (simp_all add: router_inv_def)
  then show ?thesis
    using idx.inv_learn [OF inv] idx.believes_learn [OF inv] r1(2)
    by (simp add: decided_def router_inv_def r1(1) assms(2))
qed

lemma decided_match:
  "decided w chain r r' \<Longrightarrow> match_len r' w chain = length chain"
  by (simp add: match_len_full decided_def)

lemma set_chat_candidates:
  "w \<in> set (chat_candidates ws) \<Longrightarrow> w \<in> set ws \<and> ((\<exists>v \<in> set ws. wpool v = Both) \<longrightarrow> wpool w = Both)"
  by (auto simp: chat_candidates_def list_ex_iff split: if_splits)

lemma chat_candidates_Nil [simp]: "chat_candidates ws = [] \<longleftrightarrow> ws = []"
  by (auto simp: chat_candidates_def list_ex_iff filter_empty_conv)

end
