(* ===== verification/Routing.thy ===== *)
theory Routing
  imports Router
begin

text \<open>
  The outcomes of the two selection functions of \<open>router.rs\<close>, one lemma per function that lists
  them, and the properties that follow: which worker a request goes to, when routing fails, and
  what the router learns. The policies themselves are in \<open>Policies\<close>.
\<close>

section \<open>Outcomes\<close>

abbreviation chain_of :: "router \<Rightarrow> 'json chat_request \<Rightarrow> u64 list" where
  "chain_of r request \<equiv> chain_hash (canonical_prompt request) (block_size r)"

lemma select_for_chat_none:
  "healthy_workers reg = [] \<Longrightarrow>
     select_for_chat clk reg q r = (Inl (NoHealthyWorkers (policy_to_string (rt_policy r))), r)"
  by (simp add: select_for_chat_def Let_def)

lemma select_for_chat_disaggregated:
  "healthy_workers reg \<noteq> [] \<Longrightarrow> rt_policy r = Disaggregated \<Longrightarrow>
     select_for_chat clk reg q r = (Inl DisaggregatedRequiresTwoPhase, r)"
  by (simp add: select_for_chat_def Let_def)

lemma select_for_chat_round_robin:
  assumes "router_inv r" and "healthy_workers reg \<noteq> []" and "rt_policy r = RoundRobin"
  defines "ws \<equiv> chat_candidates (healthy_workers reg)"
  defines "w \<equiv> ws ! (unat (next_worker r) mod length ws)"
  obtains r' where "select_for_chat clk reg q r = (Inr \<lparr>d_worker = w,
      matched_prefix_len = match_len r (wid w) (chain_of r q), prompt_blocks = length (chain_of r q),
      d_score = pos_zero\<rparr>, r')"
    and "w \<in> set ws" and "decided (wid w) (chain_of r q) r r'" and "next_worker r' = next_worker r + 1"
proof -
  obtain k idx where match: "longest_match (clk 0) (wid w) (chain_of r q) (rt_index r) = (k, idx)"
    by fastforce
  note eff = touched_match [OF assms(1) match]
  have ne: "ws \<noteq> []" using assms(2) by (simp add: ws_def)
  then have "unat (next_worker r) mod length ws < length ws" by simp
  then have mem: "w \<in> set ws" unfolding w_def by (rule nth_mem)
  let ?r2 = "r\<lparr>rt_index := idx, next_worker := next_worker r + 1\<rparr>"
  have dec: "decided (wid w) (chain_of r q) r (?r2\<lparr>rt_index := index_record (clk 1) (wid w) (chain_of r q) idx\<rparr>)"
    using decided_record [OF eff(2), of ?r2 "next_worker r + 1" "wid w" "chain_of r q" "clk 1"] by simp
  show thesis
    by (rule that [OF _ mem dec])
      (use match eff(1) assms(2,3) in \<open>simp_all add: select_for_chat_def Let_def w_def ws_def\<close>)
qed

lemma select_for_chat_cache_aware:
  assumes "router_inv r" and "healthy_workers reg \<noteq> []" and "rt_policy r = CacheAware"
  defines "ws \<equiv> chat_candidates (healthy_workers reg)"
  obtains w r' where "select_for_chat clk reg q r = (Inr \<lparr>d_worker = w,
      matched_prefix_len = match_len r (wid w) (chain_of r q), prompt_blocks = length (chain_of r q),
      d_score = score_worker r (wid w) (match_len r (wid w) (chain_of r q))\<rparr>, r')"
    and "w \<in> set ws" and "decided (wid w) (chain_of r q) r r'" and "next_worker r' = next_worker r"
    and "max_by scored_cmp (map (scored_of r (chain_of r q)) ws) = Some (scored_of r (chain_of r q) w)"
proof -
  have "ws \<noteq> []" using assms(2) by (simp add: ws_def)
  from pick_best_Some [OF assms(1) this, of clk "chain_of r q"]
  obtain w r1 where w: "w \<in> set ws" and pick: "pick_best clk ws (chain_of r q) r = (Some (scored_of r (chain_of r q) w), r1)"
    and eff: "touched r r1" and best: "max_by scored_cmp (map (scored_of r (chain_of r q)) ws) = Some (scored_of r (chain_of r q) w)" .
  let ?r' = "r1\<lparr>rt_index := index_record (clk (length ws)) (wid w) (chain_of r q) (rt_index r1)\<rparr>"
  have dec: "decided (wid w) (chain_of r q) r ?r'"
    using decided_record [OF eff, of r1 "next_worker r1"] by simp
  show thesis
    by (rule that [OF _ w dec _ best])
      (use pick eff assms(2,3) in \<open>auto simp: select_for_chat_def Let_def ws_def scored_of_def elim: touchedE\<close>)
qed

text \<open>Both policies at once.\<close>

lemma select_for_chat_ok:
  assumes "router_inv r" and "healthy_workers reg \<noteq> []" and "rt_policy r \<noteq> Disaggregated"
  obtains d r' where "select_for_chat clk reg q r = (Inr d, r')"
    and "d_worker d \<in> set (chat_candidates (healthy_workers reg))"
    and "decided (wid (d_worker d)) (chain_of r q) r r'"
    and "matched_prefix_len d = match_len r (wid (d_worker d)) (chain_of r q)"
    and "prompt_blocks d = length (chain_of r q)"
proof (cases "rt_policy r")
  case RoundRobin
  show thesis
    by (rule select_for_chat_round_robin [OF assms(1,2) RoundRobin, of clk q], erule that) simp_all
next
  case CacheAware
  show thesis
    by (rule select_for_chat_cache_aware [OF assms(1,2) CacheAware, of clk q], erule that) simp_all
qed (use assms(3) in simp)

lemma select_in_pool_ok:
  fixes reg p
  defines "ws \<equiv> filter (\<lambda>w. wpool w = p) (healthy_workers reg)"
  assumes "router_inv r" and "ws \<noteq> []"
  obtains w r' where "select_in_pool clk reg p chain r = (Inr \<lparr>d_worker = w,
      matched_prefix_len = match_len r (wid w) chain, prompt_blocks = length chain,
      d_score = score_worker r (wid w) (match_len r (wid w) chain)\<rparr>, r')"
    and "w \<in> set ws" and "decided (wid w) chain r r'" and "next_worker r' = next_worker r"
    and "max_by scored_cmp (map (scored_of r chain) ws) = Some (scored_of r chain w)"
proof -
  from pick_best_Some [OF assms(2,3), of clk chain]
  obtain w r1 where w: "w \<in> set ws" and pick: "pick_best clk ws chain r = (Some (scored_of r chain w), r1)"
    and eff: "touched r r1" and best: "max_by scored_cmp (map (scored_of r chain) ws) = Some (scored_of r chain w)" .
  let ?r' = "r1\<lparr>rt_index := index_record (clk (length ws)) (wid w) chain (rt_index r1)\<rparr>"
  have dec: "decided (wid w) chain r ?r'"
    using decided_record [OF eff, of r1 "next_worker r1"] by simp
  show thesis
    by (rule that [OF _ w dec _ best])
      (use pick eff assms(3) in \<open>auto simp: select_in_pool_def Let_def ws_def scored_of_def elim: touchedE\<close>)
qed

lemma select_in_pool_none:
  "filter (\<lambda>w. wpool w = p) (healthy_workers reg) = [] \<Longrightarrow> select_in_pool clk reg p chain r
     = (Inl (NoHealthyWorkersInPool (pool_to_string p) (policy_to_string (rt_policy r))), r)"
  by (simp add: select_in_pool_def Let_def)

text \<open>The winner of \<open>max_by\<close> among scored workers, written out on scores, loads and identifiers.\<close>

definition preferred :: "router \<Rightarrow> u64 list \<Rightarrow> worker \<Rightarrow> worker \<Rightarrow> bool" where
  "preferred r chain w v \<longleftrightarrow>
     (let s = (\<lambda>x. score_worker r (wid x) (match_len r (wid x) chain));
          n = (\<lambda>x. inflight_count (rt_inflight r) (wid x))
      in partial_cmp (s v) (s w) = Some Less
         \<or> partial_cmp (s v) (s w) = Some Equal \<and> (n w < n v \<or> n w = n v \<and> wid w \<le> wid v))"

lemma then_with_not_Greater:
  "then_with a b \<noteq> Greater \<longleftrightarrow> a = Less \<or> a = Equal \<and> b \<noteq> Greater"
  by (cases a) auto

lemma scored_cmp_preferred:
  assumes "score_worker r (wid v) (match_len r (wid v) chain) \<noteq> NaN"
    and "score_worker r (wid w) (match_len r (wid w) chain) \<noteq> NaN"
  shows "scored_cmp (scored_of r chain v) (scored_of r chain w) \<noteq> Greater \<longleftrightarrow> preferred r chain w v"
proof -
  have 1: "cmp_of a b = Less \<longleftrightarrow> a < b" and 2: "cmp_of a b = Equal \<longleftrightarrow> a = b" for a b :: u64
    by (auto simp: cmp_of_def)
  obtain c where c: "partial_cmp (score_worker r (wid v) (match_len r (wid v) chain))
      (score_worker r (wid w) (match_len r (wid w) chain)) = Some c"
    using assms by (meson not_None_eq partial_cmp_None)
  have flat: "then_with (then_with x y) z \<noteq> Greater
      \<longleftrightarrow> x = Less \<or> x = Equal \<and> (y = Less \<or> y = Equal \<and> z \<noteq> Greater)" for x y z
    by (cases x; cases y) auto
  show ?thesis
    unfolding scored_cmp_def candidate_cmp_def scored_of_def Let_def preferred_def
    by (simp add: c flat 1 2 cmp_of_laws(3))
qed

lemma max_by_preferred:
  assumes "max_by scored_cmp (map (scored_of r chain) ws) = Some (scored_of r chain w)"
    and "w \<in> set ws" and "v \<in> set ws"
    and "\<forall>x \<in> set ws. score_worker r (wid x) (match_len r (wid x) chain) \<noteq> NaN"
  shows "preferred r chain w v"
proof -
  have "scored_cmp (scored_of r chain v) (scored_of r chain w) \<noteq> Greater"
    by (rule scored.max_by_max [OF assms(1)])
      (use assms(3,4) in \<open>auto simp: scored_of_def Let_def\<close>)
  then show ?thesis
    using assms by (simp add: scored_cmp_preferred)
qed

section \<open>Sample deployment\<close>

definition sample_config :: "routing_policy \<Rightarrow> router_config" where
  "sample_config p =
     \<lparr>cfg_workers = two_workers, cfg_policy = p,
      health_check_interval_secs = default_health_check_interval_secs,
      prompt_block_chars = default_prompt_block_chars, cfg_cache_weight = default_cache_weight,
      cfg_load_weight = default_load_weight, prefix_index_ttl_secs = default_prefix_index_ttl_secs,
      prefix_index_max_entries = default_prefix_index_max_entries,
      kv_transfer_cost_ms = default_kv_transfer_cost_ms, metrics_scrape = False,
      engine_metrics_interval_secs = default_engine_metrics_interval_secs,
      engine_cache_hit_metric = default_engine_cache_hit_metric, cfg_discovery = discovery_config_default\<rparr>"

text \<open>Two workers, the first \<open>n\<close> of them healthy.\<close>

definition sample_registry :: "nat \<Rightarrow> worker_registry" where
  "sample_registry n = fold (\<lambda>i r. snd (set_healthy (of_nat i) True r)) [0..<n] (from_config two_workers)"

lemma sample_registry_inv: "reg_inv (sample_registry n)"
proof -
  have "reg_inv (from_config two_workers)"
    by (rule reg_inv_from_config) (simp add: two_workers_def)
  then have "reg_inv (fold (\<lambda>i r. snd (set_healthy (of_nat i) True r)) is (from_config two_workers))" for "is"
    by (induction "is" rule: rev_induct) (simp_all add: reg_inv_set_healthy)
  then show ?thesis by (simp add: sample_registry_def)
qed

lemma sample_registry_healthy:
  "map wid (healthy_workers (sample_registry 1)) = [0]"
  "map wid (healthy_workers (sample_registry 2)) = [0, 1]"
  "map wpool (healthy_workers (sample_registry 2)) = [Both, Both]"
  by code_simp+

lemma sample_router_inv: "router_inv (router_new (sample_config p))"
  by (rule router_inv_new)

lemma sample_policy [simp]: "rt_policy (router_new (sample_config p)) = p"
  by (simp add: router_new_def sample_config_def)

lemma sample_routes:
  assumes "healthy_workers reg \<noteq> []" and "p \<noteq> Disaggregated"
  obtains d r' where "select_for_chat clk reg q (router_new (sample_config p)) = (Inr d, r')"
  by (rule select_for_chat_ok [OF sample_router_inv assms(1), of p clk q]) (simp_all add: assms(2))

section \<open>Properties\<close>

text \<open>
  C8: safety of single-phase routing. A request is only ever sent to a worker that is registered
  and marked healthy, and to one labelled \<open>both\<close> whenever a healthy one exists.
\<close>

theorem routes_to_healthy_workers:
  assumes "reg_inv reg" and "router_inv r"
    and "select_for_chat clk reg q r = (Inr d, r')"
  shows "get_worker reg (wid (d_worker d)) = Some (d_worker d) \<and> is_healthy reg (wid (d_worker d))
    \<and> ((\<exists>v \<in> set (healthy_workers reg). wpool v = Both) \<longrightarrow> wpool (d_worker d) = Both)
    \<and> router_inv r'"
proof -
  have ne: "healthy_workers reg \<noteq> []" and pol: "rt_policy r \<noteq> Disaggregated"
    using assms(3) select_for_chat_none [of reg clk q r] select_for_chat_disaggregated [of reg r clk q]
    by auto
  obtain w where "d_worker d = w" and cand: "w \<in> set (chat_candidates (healthy_workers reg))"
    and dec: "decided (wid w) (chain_of r q) r r'"
    using select_for_chat_ok [OF assms(2) ne pol, of clk q] assms(3) by (metis Pair_inject sum.inject(2))
  then have "reg_status reg (wid w) = Some (w, True)"
    using set_chat_candidates [OF cand] set_healthy_workers [OF assms(1)] by auto
  then show ?thesis
    using \<open>d_worker d = w\<close> set_chat_candidates [OF cand] dec
    by (auto simp: reg_status_def get_worker_def is_healthy_def decided_def)
qed

theorem routes_to_healthy_workers_witness:
  "\<exists>d r'. select_for_chat Instant (sample_registry 1) (sample_request (ascii ''hi'') [])
        (router_new (sample_config CacheAware)) = (Inr d, r')
     \<and> is_healthy (sample_registry 1) (wid (d_worker d))"
proof -
  have "healthy_workers (sample_registry 1) \<noteq> []"
    using sample_registry_healthy(1) by auto
  then obtain d r' where "select_for_chat Instant (sample_registry 1) (sample_request (ascii ''hi'') [])
        (router_new (sample_config CacheAware)) = (Inr d, r')"
    by (rule sample_routes [of _ CacheAware]) simp_all
  then show ?thesis
    using routes_to_healthy_workers [OF sample_registry_inv sample_router_inv] by blast
qed

text \<open>
  Routing fails in exactly two cases, with the error of that case and the router unchanged:
  no worker is healthy, or the policy is \<open>disaggregated\<close>, which needs the two-phase calls.
\<close>

theorem routing_errors:
  assumes "router_inv r"
  shows "select_for_chat clk reg q r = (Inl e, r') \<longleftrightarrow>
    r' = r \<and> (if healthy_workers reg = [] then e = NoHealthyWorkers (policy_to_string (rt_policy r))
              else rt_policy r = Disaggregated \<and> e = DisaggregatedRequiresTwoPhase)"
proof (cases "healthy_workers reg = [] \<or> rt_policy r = Disaggregated")
  case True
  then show ?thesis
    using select_for_chat_none [of reg clk q r] select_for_chat_disaggregated [of reg r clk q] by auto
next
  case False
  then obtain d r1 where "select_for_chat clk reg q r = (Inr d, r1)"
    using select_for_chat_ok [OF assms, of reg clk q] by metis
  then show ?thesis using False by simp
qed

theorem routing_errors_witness:
  "select_for_chat Instant (sample_registry 0) (sample_request (ascii ''hi'') [])
     (router_new (sample_config RoundRobin))
     = (Inl (NoHealthyWorkers ''round_robin''), router_new (sample_config RoundRobin))"
proof -
  have "healthy_workers (sample_registry 0) = []" by code_simp
  then show ?thesis
    unfolding routing_errors [OF sample_router_inv] by (simp add: router_new_def sample_config_def)
qed

text \<open>
  C24: what a decision reports and teaches the router. It reports the blocks the chosen worker
  held before; afterwards that worker matches the whole prompt, no other worker's match changes,
  and the in-flight counts, policy and weights are untouched.
\<close>

theorem decision_credits_chosen_worker:
  assumes "router_inv r" and "select_for_chat clk reg q r = (Inr d, r')"
  defines "chain \<equiv> chain_hash (canonical_prompt q) (block_size r)"
    and "w \<equiv> wid (d_worker d)"
  shows "matched_prefix_len d = fst (longest_match t w chain (rt_index r))
    \<and> prompt_blocks d = length chain \<and> matched_prefix_len d \<le> prompt_blocks d
    \<and> fst (longest_match t w chain (rt_index r')) = prompt_blocks d
    \<and> (\<forall>v c. v \<noteq> w \<longrightarrow> fst (longest_match t v c (rt_index r')) = fst (longest_match t v c (rt_index r)))
    \<and> rt_inflight r' = rt_inflight r \<and> rt_policy r' = rt_policy r
    \<and> cache_weight r' = cache_weight r \<and> load_weight r' = load_weight r"
proof -
  have ne: "healthy_workers reg \<noteq> []" and pol: "rt_policy r \<noteq> Disaggregated"
    using assms(2) select_for_chat_none [of reg clk q r] select_for_chat_disaggregated [of reg r clk q]
    by auto
  have dec: "decided w chain r r'" and "matched_prefix_len d = match_len r w chain"
    and "prompt_blocks d = length chain"
    using select_for_chat_ok [OF assms(1) ne pol, of clk q] assms(2) unfolding chain_def w_def
    by (metis Pair_inject sum.inject(2))+
  have val: "fst (longest_match t v c (rt_index r)) = match_len r v c"
    and val': "fst (longest_match t v c (rt_index r')) = match_len r' v c" for v c
    using assms(1) dec idx.match_value by (auto simp: match_len_def decided_def router_inv_def)
  have "match_len r' v c = match_len r v c" if "v \<noteq> w" for v c
  proof -
    have "holds (rt_index r') v = holds (rt_index r) v"
      using dec that by (auto simp: decided_def)
    then show ?thesis by (simp add: match_len_def)
  qed
  then show ?thesis
    using decided_frame [OF dec] \<open>matched_prefix_len d = _\<close> \<open>prompt_blocks d = _\<close> match_len_le [of r w chain] decided_match [OF dec]
    by (simp add: val val')
qed

theorem decision_credits_chosen_worker_witness:
  "\<exists>d r'. select_for_chat Instant (sample_registry 2) (sample_request (ascii ''hi'') [])
        (router_new (sample_config RoundRobin)) = (Inr d, r')
     \<and> fst (longest_match (Instant 9) (wid (d_worker d))
          (chain_hash (canonical_prompt (sample_request (ascii ''hi'') [])) (block_size (router_new (sample_config RoundRobin))))
          (rt_index r')) = prompt_blocks d"
proof -
  have "healthy_workers (sample_registry 2) \<noteq> []"
    using sample_registry_healthy(2) by auto
  then obtain d r' where "select_for_chat Instant (sample_registry 2) (sample_request (ascii ''hi'') [])
        (router_new (sample_config RoundRobin)) = (Inr d, r')"
    by (rule sample_routes [of _ RoundRobin]) simp_all
  then show ?thesis
    using decision_credits_chosen_worker [OF sample_router_inv] by blast
qed

end
