(* ===== verification/Policies.thy ===== *)
theory Policies
  imports Routing
begin

text \<open>
  The policies of \<open>router.rs\<close> in depth: the round-robin cycle over a run of requests, the
  optimality of cache-aware and pool selection, the score as exact arithmetic under the default
  weights, its monotonicity, and the candidate order when scores overflow.
\<close>

section \<open>Round robin\<close>

text \<open>A run of requests with an unchanged registry; request \<open>i\<close> reads the clock through \<open>clk i\<close>.\<close>

fun route_all ::
  "(nat \<Rightarrow> nat \<Rightarrow> instant) \<Rightarrow> worker_registry \<Rightarrow> 'json chat_request list \<Rightarrow> router
     \<Rightarrow> (router_error + route_decision) list \<times> router" where
  "route_all clk reg [] r = ([], r)"
| "route_all clk reg (q # qs) r =
     (let (d, r) = select_for_chat (clk 0) reg q r;
          (ds, r) = route_all (\<lambda>i. clk (Suc i)) reg qs r
      in (d # ds, r))"

text \<open>The worker that serves a request.\<close>

fun served :: "router_error + route_decision \<Rightarrow> worker option" where
  "served (Inl e) = None"
| "served (Inr d) = Some (d_worker d)"

lemma decided_policy: "decided w chain r r' \<Longrightarrow> rt_policy r' = rt_policy r \<and> router_inv r'"
  unfolding decided_def by (metis router.select_convs(1) router.surjective router.update_convs(2,3))

lemma round_robin_run:
  assumes "router_inv r" and "healthy_workers reg \<noteq> []" and "rt_policy r = RoundRobin"
    and "unat (next_worker r) + length qs < 2 ^ 64"
  defines "ws \<equiv> chat_candidates (healthy_workers reg)"
  shows "map served (fst (route_all clk reg qs r))
    = map (\<lambda>i. Some (ws ! ((unat (next_worker r) + i) mod length ws))) [0..<length qs]"
  using assms(1,3,4)
proof (induction qs arbitrary: r clk)
  case (Cons q qs)
  let ?w = "ws ! (unat (next_worker r) mod length ws)"
  from select_for_chat_round_robin [OF Cons.prems(1) assms(2) Cons.prems(2), of "clk 0" q, folded ws_def]
  obtain d r1 where sel: "select_for_chat (clk 0) reg q r = (Inr d, r1)" and w: "d_worker d = ?w"
    and dec: "decided (wid ?w) (chain_of r q) r r1" and next_id: "next_worker r1 = next_worker r + 1"
    by (metis route_decision.select_convs(1))
  have "next_worker r \<noteq> - 1"
    using Cons.prems(3) by (auto simp: unat_max_u64)
  then have step: "unat (next_worker r1) = Suc (unat (next_worker r))"
    using next_id by (simp add: unat_add_one)
  have "map served (fst (route_all (\<lambda>i. clk (Suc i)) reg qs r1))
      = map (\<lambda>i. Some (ws ! ((unat (next_worker r1) + i) mod length ws))) [0..<length qs]"
    using decided_policy [OF dec] Cons.prems step by (intro Cons.IH) simp_all
  then show ?case
    using sel w step by (simp add: case_prod_beta map_upt_Suc del: upt_Suc)
qed simp

lemma map_nth_mod_rotate: "map (\<lambda>i. xs ! ((s + i) mod length xs)) [0..<length xs] = rotate s xs"
  by (rule nth_equalityI) (simp_all add: nth_rotate)

lemma mset_rotate: "mset (rotate n xs) = mset xs"
  by (metis append_take_drop_id mset_append add.commute rotate_drop_take)

text \<open>
  C17: round robin is strictly cyclic. With the healthy set unchanged and the \<open>usize\<close> counter not
  wrapping, request \<open>i\<close> of a run goes to candidate \<open>(start + i) mod n\<close> in identifier order, and
  any \<open>n\<close> consecutive requests serve every candidate exactly once.
\<close>

theorem round_robin_is_cyclic:
  assumes "router_inv r" and "healthy_workers reg \<noteq> []" and "rt_policy r = RoundRobin"
    and "unat (next_worker r) + length qs < 2 ^ 64"
  defines "ws \<equiv> chat_candidates (healthy_workers reg)"
  shows "map served (fst (route_all clk reg qs r))
      = map (\<lambda>i. Some (ws ! ((unat (next_worker r) + i) mod length ws))) [0..<length qs]
    \<and> (length qs = length ws \<longrightarrow> mset (map served (fst (route_all clk reg qs r))) = mset (map Some ws))"
proof (intro conjI impI)
  show run: "map served (fst (route_all clk reg qs r))
      = map (\<lambda>i. Some (ws ! ((unat (next_worker r) + i) mod length ws))) [0..<length qs]"
    unfolding ws_def by (rule round_robin_run [OF assms(1-4)])
  assume len: "length qs = length ws"
  have "map served (fst (route_all clk reg qs r)) = map Some (rotate (unat (next_worker r)) ws)"
    unfolding run len map_nth_mod_rotate [symmetric] map_map comp_def ..
  then show "mset (map served (fst (route_all clk reg qs r))) = mset (map Some ws)"
    by (simp add: mset_rotate)
qed

theorem round_robin_is_cyclic_witness:
  "map (map_option wid \<circ> served) (fst (route_all (\<lambda>_. Instant) (sample_registry 2)
     (replicate 3 (sample_request (ascii ''hello'') [])) (router_new (sample_config RoundRobin))))
     = [Some 0, Some 1, Some 0]"
proof -
  let ?ws = "chat_candidates (healthy_workers (sample_registry 2))"
  let ?out = "fst (route_all (\<lambda>_. Instant) (sample_registry 2)
     (replicate 3 (sample_request (ascii ''hello'') [])) (router_new (sample_config RoundRobin)))"
  have len: "length ?ws = 2" and ids: "wid (?ws ! 0) = 0" "wid (?ws ! 1) = 1"
    by code_simp+
  have ne: "healthy_workers (sample_registry 2) \<noteq> []"
    using sample_registry_healthy(2) by auto
  have next_id: "next_worker (router_new (sample_config RoundRobin)) = 0"
    by (simp add: router_new_def)
  have "map served ?out = map (\<lambda>i. Some (?ws ! ((0 + i) mod 2))) [0..<3]"
    using round_robin_is_cyclic [OF sample_router_inv ne sample_policy,
        of "replicate 3 (sample_request (ascii ''hello'') [])" "\<lambda>_. Instant"]
    unfolding next_id len by simp
  then have "map (map_option wid) (map served ?out) = [Some 0, Some 1, Some 0]"
    using ids by (simp add: upt_rec)
  then show ?thesis by (simp only: map_map)
qed

section \<open>Cache-aware selection\<close>

text \<open>
  C16: cache-aware selection is optimal. If no score is NaN, the chosen worker is preferred to
  every candidate: its score is greater, or equal with fewer requests in flight, or equal in both
  with the lower identifier.
\<close>

theorem cache_aware_picks_preferred:
  assumes "router_inv r" and "rt_policy r = CacheAware"
    and "select_for_chat clk reg q r = (Inr d, r')"
    and "\<forall>v \<in> set (chat_candidates (healthy_workers reg)).
           score_worker r (wid v) (match_len r (wid v) (chain_of r q)) \<noteq> NaN"
    and "v \<in> set (chat_candidates (healthy_workers reg))"
  shows "d_worker d \<in> set (chat_candidates (healthy_workers reg))
    \<and> preferred r (chain_of r q) (d_worker d) v
    \<and> d_score d = score_worker r (wid (d_worker d)) (matched_prefix_len d)"
proof -
  have ne: "healthy_workers reg \<noteq> []"
    using assms(3) select_for_chat_none [of reg clk q r] by auto
  from select_for_chat_cache_aware [OF assms(1) ne assms(2), of clk q]
  obtain w where "d = \<lparr>d_worker = w, matched_prefix_len = match_len r (wid w) (chain_of r q),
      prompt_blocks = length (chain_of r q),
      d_score = score_worker r (wid w) (match_len r (wid w) (chain_of r q))\<rparr>"
    and mem: "w \<in> set (chat_candidates (healthy_workers reg))"
    and best: "max_by scored_cmp (map (scored_of r (chain_of r q)) (chat_candidates (healthy_workers reg)))
      = Some (scored_of r (chain_of r q) w)"
    using assms(3) by (metis Pair_inject sum.inject(2))
  then show ?thesis
    using max_by_preferred [OF best mem assms(5,4)] by simp
qed

section \<open>Scores\<close>

text \<open>Under the default weights, one and one half, the score is computed exactly.\<close>

lemma default_score_value:
  assumes "m \<le> 2 ^ 52" and "n \<le> 2 ^ 52"
  defines "score \<equiv> f64_sub (f64_mul (f64_of_nat m) default_cache_weight)
      (f64_mul (f64_of_nat n) default_load_weight)"
  shows "is_finite score" and "fval score = of_nat m - of_nat n / 2"
proof -
  have le: "(of_nat k :: rat) \<le> 2 ^ 52" if "k \<le> 2 ^ 52" for k
    using that by (metis of_nat_le_iff of_nat_numeral of_nat_power)
  have m: "0 \<le> (of_nat m :: rat)" "(of_nat m :: rat) \<le> 2 ^ 52"
    and n: "0 \<le> (of_nat n :: rat)" "(of_nat n :: rat) \<le> 2 ^ 52"
    by (rule of_nat_0_le_iff le [OF assms(1)] le [OF assms(2)])+
  have big: "(2 :: rat) ^ 52 \<le> 2 ^ 1023" by simp
  have of_nat: "f64_of_nat m = Fin (of_nat m)" "f64_of_nat n = Fin (of_nat n)"
    using assms(1,2) by (simp_all add: f64_of_nat_exact)
  let ?a = "f64_mul (f64_of_nat m) default_cache_weight"
  let ?b = "f64_mul (f64_of_nat n) default_load_weight"
  have "\<bar>(of_nat m :: rat) * 1\<bar> \<le> 2 ^ 1023"
    using m big by simp
  then have a: "is_finite ?a" "fval ?a = of_nat m"
    using f64_mul_finite [of "Fin (of_nat m)" "Fin 1"] rnd_exact_nat [of m] assms(1)
    by (simp_all add: of_nat default_cache_weight_def)
  have "\<bar>(of_nat n :: rat) * (1 / 2)\<bar> \<le> 2 ^ 1023"
    using n big by simp
  moreover have "rnd (of_nat n * (1 / 2)) = of_nat n * (1 / 2)"
    using rnd_exact_half [of "int n"] assms(2) by simp
  ultimately have b: "is_finite ?b" "fval ?b = of_nat n / 2"
    using f64_mul_finite [of "Fin (of_nat n)" "Fin (1 / 2)"]
    by (simp_all add: of_nat default_load_weight_def)
  have diff: "(of_nat m - of_nat n / 2 :: rat) = of_int (2 * int m - int n) / 2"
    by simp
  have "\<bar>(of_nat m - of_nat n / 2 :: rat)\<bar> \<le> 2 ^ 52"
    using m n by (simp add: abs_le_iff)
  then have small: "\<bar>fval ?a - fval ?b\<bar> \<le> 2 ^ 1023"
    unfolding a b using big by (rule order_trans)
  have "rnd (of_nat m - of_nat n / 2) = of_nat m - of_nat n / 2"
    unfolding diff by (rule rnd_exact_half) (use assms(1,2) in auto)
  then show "is_finite score" and "fval score = of_nat m - of_nat n / 2"
    using f64_sub_finite [OF a(1) b(1) small] by (simp_all add: score_def a(2) b(2))
qed

lemma default_score:
  assumes "cache_weight r = default_cache_weight" and "load_weight r = default_load_weight"
    and "m \<le> 2 ^ 52" and "unat (inflight_count (rt_inflight r) w) \<le> 2 ^ 52"
  shows "is_finite (score_worker r w m)"
    and "fval (score_worker r w m) = of_nat m - of_nat (unat (inflight_count (rt_inflight r) w)) / 2"
  unfolding score_worker_def assms(1,2) by (rule default_score_value [OF assms(3,4)])+

text \<open>Twice the default score, as an integer.\<close>

definition gain :: "router \<Rightarrow> u64 list \<Rightarrow> worker \<Rightarrow> int" where
  "gain r chain w = 2 * int (match_len r (wid w) chain) - int (unat (inflight_count (rt_inflight r) (wid w)))"

lemma preferred_gain:
  assumes "cache_weight r = default_cache_weight" and "load_weight r = default_load_weight"
    and "length chain \<le> 2 ^ 52"
    and "unat (inflight_count (rt_inflight r) (wid v)) \<le> 2 ^ 52"
    and "unat (inflight_count (rt_inflight r) (wid w)) \<le> 2 ^ 52"
    and "preferred r chain w v"
  shows "gain r chain v < gain r chain w \<or> gain r chain v = gain r chain w
    \<and> (inflight_count (rt_inflight r) (wid w) < inflight_count (rt_inflight r) (wid v)
       \<or> inflight_count (rt_inflight r) (wid w) = inflight_count (rt_inflight r) (wid v) \<and> wid w \<le> wid v)"
proof -
  let ?s = "\<lambda>x. score_worker r (wid x) (match_len r (wid x) chain)"
  have m: "match_len r x chain \<le> 2 ^ 52" for x
    using match_len_le [of r x chain] assms(3) by (rule order_trans)
  note v = default_score [OF assms(1,2) m assms(4)] and w = default_score [OF assms(1,2) m assms(5)]
  have score: "fval (?s x) = of_int (gain r chain x) / 2"
    if "unat (inflight_count (rt_inflight r) (wid x)) \<le> 2 ^ 52" for x
    unfolding default_score(2) [OF assms(1,2) m that] gain_def by simp
  have less: "cmp_of (fval (?s v)) (fval (?s w)) = Less \<longleftrightarrow> gain r chain v < gain r chain w"
    and eq: "cmp_of (fval (?s v)) (fval (?s w)) = Equal \<longleftrightarrow> gain r chain v = gain r chain w"
    unfolding score [OF assms(4)] score [OF assms(5)] by (auto simp: cmp_of_def)
  show ?thesis
    using assms(6) unfolding preferred_def Let_def partial_cmp_finite [OF v(1) w(1)] option.inject less eq .
qed

text \<open>What a cache-aware decision under the default weights maximises, over the candidates.\<close>

lemma chosen_gain:
  assumes "router_inv r" and "rt_policy r = CacheAware"
    and "cache_weight r = default_cache_weight" and "load_weight r = default_load_weight"
    and "length (chain_of r q) \<le> 2 ^ 52"
    and "\<forall>v \<in> set (chat_candidates (healthy_workers reg)). unat (inflight_count (rt_inflight r) (wid v)) \<le> 2 ^ 52"
    and "select_for_chat clk reg q r = (Inr d, r')"
    and "v \<in> set (chat_candidates (healthy_workers reg))"
  defines "w \<equiv> d_worker d"
  shows "gain r (chain_of r q) v < gain r (chain_of r q) w \<or> gain r (chain_of r q) v = gain r (chain_of r q) w
    \<and> (inflight_count (rt_inflight r) (wid w) < inflight_count (rt_inflight r) (wid v)
       \<or> inflight_count (rt_inflight r) (wid w) = inflight_count (rt_inflight r) (wid v) \<and> wid w \<le> wid v)"
proof -
  have ne: "healthy_workers reg \<noteq> []"
    using assms(7) select_for_chat_none [of reg clk q r] by auto
  from select_for_chat_cache_aware [OF assms(1) ne assms(2), of clk q]
  have mem: "w \<in> set (chat_candidates (healthy_workers reg))"
    and best: "max_by scored_cmp (map (scored_of r (chain_of r q)) (chat_candidates (healthy_workers reg)))
      = Some (scored_of r (chain_of r q) w)"
    unfolding w_def using assms(7) by (metis Pair_inject sum.inject(2) route_decision.select_convs(1))+
  have "match_len r x (chain_of r q) \<le> 2 ^ 52" for x
    using match_len_le [of r x "chain_of r q"] assms(5) by (rule order_trans)
  then have "\<forall>x \<in> set (chat_candidates (healthy_workers reg)).
      score_worker r (wid x) (match_len r (wid x) (chain_of r q)) \<noteq> NaN"
    using default_score(1) [OF assms(3,4)] assms(6) is_finite_not_NaN by blast
  from max_by_preferred [OF best mem assms(8) this] show ?thesis
    using assms(6,8) mem by (intro preferred_gain [OF assms(3,4,5)]) auto
qed

text \<open>
  C7: under the default weights the decision is exact integer arithmetic, free of rounding: among
  the candidates it maximises twice the matched blocks minus the requests in flight, then
  minimises the requests in flight, then the identifier. A busy worker loses its traffic once
  more than two requests per matched block are queued on it.
\<close>

theorem default_weights_choose_best:
  assumes "router_inv r" and "rt_policy r = CacheAware"
    and "cache_weight r = default_cache_weight" and "load_weight r = default_load_weight"
    and "length (chain_of r q) \<le> 2 ^ 52"
    and "\<forall>v \<in> set (chat_candidates (healthy_workers reg)). unat (inflight_count (rt_inflight r) (wid v)) \<le> 2 ^ 52"
    and "select_for_chat clk reg q r = (Inr d, r')"
    and "v \<in> set (chat_candidates (healthy_workers reg))"
  defines "w \<equiv> d_worker d"
  shows "gain r (chain_of r q) v < gain r (chain_of r q) w \<or> gain r (chain_of r q) v = gain r (chain_of r q) w
    \<and> (inflight_count (rt_inflight r) (wid w) < inflight_count (rt_inflight r) (wid v)
       \<or> inflight_count (rt_inflight r) (wid w) = inflight_count (rt_inflight r) (wid v) \<and> wid w \<le> wid v)"
  unfolding w_def by (rule chosen_gain [OF assms(1-8)])

text \<open>Asked again about the same prompt, with nothing else changed, the router repeats its choice.\<close>

lemma repeated_choice:
  assumes "router_inv r" and "rt_policy r = CacheAware" and "reg_inv reg"
    and "cache_weight r = default_cache_weight" and "load_weight r = default_load_weight"
    and "length (chain_of r q) \<le> 2 ^ 52"
    and "\<forall>v \<in> set (chat_candidates (healthy_workers reg)). unat (inflight_count (rt_inflight r) (wid v)) \<le> 2 ^ 52"
    and "select_for_chat clk reg q r = (Inr d, r1)" and "select_for_chat clk' reg q r1 = (Inr d', r2)"
  shows "d_worker d' = d_worker d" and "matched_prefix_len d' = prompt_blocks d'"
proof -
  let ?ws = "chat_candidates (healthy_workers reg)" and ?w = "d_worker d" and ?v = "d_worker d'" and ?c = "chain_of r q"
  have ne: "healthy_workers reg \<noteq> []" using assms(8) select_for_chat_none [of reg clk q r] by auto
  from select_for_chat_ok [OF assms(1) ne, of clk q] assms(2,8)
  have w: "?w \<in> set ?ws" and dec: "decided (wid ?w) ?c r r1"
    by (metis Pair_inject routing_policy.distinct(5) sum.inject(2))+
  note frame = decided_frame [OF dec]
  from select_for_chat_ok [OF frame(1) ne, of clk' q] assms(2,9) frame(2,3)
  have v: "?v \<in> set ?ws" and match: "matched_prefix_len d' = match_len r1 (wid ?v) ?c" "prompt_blocks d' = length ?c"
    by (metis Pair_inject routing_policy.distinct(5) sum.inject(2))+
  have full: "match_len r1 (wid ?w) ?c = length ?c" by (rule decided_match [OF dec])
  then have up: "gain r ?c ?w \<le> gain r1 ?c ?w"
    using match_len_le [of r "wid ?w" ?c] by (simp add: gain_def frame(6))
  have same: "gain r1 ?c x = gain r ?c x" if "wid x \<noteq> wid ?w" for x
  proof -
    have "holds (rt_index r1) (wid x) = holds (rt_index r) (wid x)"
      using dec that by (auto simp: decided_def)
    then show ?thesis by (simp add: gain_def match_len_def frame(6))
  qed
  have "gain r ?c ?v < gain r ?c ?w \<or> gain r ?c ?v = gain r ?c ?w
    \<and> (inflight_count (rt_inflight r) (wid ?w) < inflight_count (rt_inflight r) (wid ?v)
       \<or> inflight_count (rt_inflight r) (wid ?w) = inflight_count (rt_inflight r) (wid ?v) \<and> wid ?w \<le> wid ?v)"
    by (rule chosen_gain [OF assms(1,2,4-8) v])
  moreover have "gain r1 ?c ?w < gain r1 ?c ?v \<or> gain r1 ?c ?w = gain r1 ?c ?v
    \<and> (inflight_count (rt_inflight r) (wid ?v) < inflight_count (rt_inflight r) (wid ?w)
       \<or> inflight_count (rt_inflight r) (wid ?v) = inflight_count (rt_inflight r) (wid ?w) \<and> wid ?v \<le> wid ?w)"
    using chosen_gain [OF frame(1) _ _ _ _ _ assms(9) w] assms(2,4-7) unfolding frame(2-6) by simp
  ultimately have wid: "wid ?v = wid ?w"
    using up same [of ?v] by (cases "wid ?v = wid ?w") auto
  moreover have "?w \<in> set (healthy_workers reg)" "?v \<in> set (healthy_workers reg)"
    using set_chat_candidates [OF w] set_chat_candidates [OF v] by simp_all
  ultimately show "?v = ?w"
    unfolding set_healthy_workers [OF assms(3)] by simp
  then show "matched_prefix_len d' = prompt_blocks d'" using match full by simp
qed

lemma sample_weights:
  "cache_weight (router_new (sample_config p)) = default_cache_weight"
  "load_weight (router_new (sample_config p)) = default_load_weight"
  "inflight_count (rt_inflight (router_new (sample_config p))) w = 0"
  by (simp_all add: router_new_def sample_config_def inflight_count_def with_capacity_def)

lemma short_prompt_chain: "length (chain_of (router_new (sample_config p)) (sample_request (ascii ''hi'') [])) \<le> 2 ^ 52"
  by (simp add: chain_hash_def blocks_of_def length_chunks router_new_def sample_config_def default_prompt_block_chars_def
      canonical_prompt_def sample_request_def ascii_def)

theorem default_weights_choose_best_witness:
  "\<exists>d r'. select_for_chat Instant (sample_registry 2) (sample_request (ascii ''hi'') [])
        (router_new (sample_config CacheAware)) = (Inr d, r')
     \<and> (\<forall>v \<in> set (chat_candidates (healthy_workers (sample_registry 2))). wid (d_worker d) \<le> wid v
         \<or> gain (router_new (sample_config CacheAware)) (chain_of (router_new (sample_config CacheAware)) (sample_request (ascii ''hi'') [])) v
           < gain (router_new (sample_config CacheAware)) (chain_of (router_new (sample_config CacheAware)) (sample_request (ascii ''hi'') [])) (d_worker d))"
proof -
  have ne: "healthy_workers (sample_registry 2) \<noteq> []"
    using sample_registry_healthy(2) by auto
  then obtain d r' where sel: "select_for_chat Instant (sample_registry 2) (sample_request (ascii ''hi'') [])
        (router_new (sample_config CacheAware)) = (Inr d, r')"
    by (rule sample_routes [of _ CacheAware]) simp_all
  then show ?thesis
    using default_weights_choose_best [OF sample_router_inv sample_policy sample_weights(1,2) short_prompt_chain _ sel]
    by (auto simp: sample_weights(3))
qed

lemma sample_scores:
  "score_worker (router_new (sample_config p)) w (match_len (router_new (sample_config p)) w c) \<noteq> NaN"
  if "length c \<le> 2 ^ 52"
proof -
  have "match_len (router_new (sample_config p)) w c \<le> 2 ^ 52"
    using match_len_le that by (rule order_trans)
  then show ?thesis
    by (intro is_finite_not_NaN default_score(1) sample_weights(1,2)) (simp_all add: sample_weights(3))
qed

theorem cache_aware_picks_preferred_witness:
  "\<exists>d r'. select_for_chat Instant (sample_registry 2) (sample_request (ascii ''hi'') [])
        (router_new (sample_config CacheAware)) = (Inr d, r')
     \<and> d_score d = score_worker (router_new (sample_config CacheAware)) (wid (d_worker d)) (matched_prefix_len d)"
proof -
  have ne: "healthy_workers (sample_registry 2) \<noteq> []"
    using sample_registry_healthy(2) by auto
  then obtain v where v: "v \<in> set (chat_candidates (healthy_workers (sample_registry 2)))"
    by (metis chat_candidates_Nil list.set_intros(1) neq_Nil_conv)
  from ne obtain d r' where sel: "select_for_chat Instant (sample_registry 2) (sample_request (ascii ''hi'') [])
        (router_new (sample_config CacheAware)) = (Inr d, r')"
    by (rule sample_routes [of _ CacheAware]) simp_all
  then show ?thesis
    using cache_aware_picks_preferred [OF sample_router_inv sample_policy sel _ v]
      sample_scores [OF short_prompt_chain] by blast
qed

text \<open>A weighted count stays far inside the range of doubles.\<close>

lemma weighted_count:
  assumes "is_finite c" and "0 \<le> fval c" and "fval c \<le> 2 ^ 900" and "k \<le> 2 ^ 64"
  shows "is_finite (f64_mul (f64_of_nat k) c)"
    and "fval (f64_mul (f64_of_nat k) c) = rnd (fval (f64_of_nat k) * fval c)"
    and "0 \<le> fval (f64_mul (f64_of_nat k) c)" and "fval (f64_mul (f64_of_nat k) c) \<le> 2 ^ 1022"
proof -
  note f = f64_of_nat_finite [OF assms(4)]
  have lo: "0 \<le> fval (f64_of_nat k) * fval c"
    using f(3) assms(2) by simp
  have "fval (f64_of_nat k) * fval c \<le> 2 ^ 64 * 2 ^ 900"
    using f(3,4) assms(2,3) by (intro mult_mono) simp_all
  moreover have "(2 :: rat) ^ 64 * 2 ^ 900 \<le> 2 ^ 1022" by simp
  ultimately have hi: "\<bar>fval (f64_of_nat k) * fval c\<bar> \<le> 2 ^ 1022"
    using lo by (simp only: abs_of_nonneg)
  have "(2 :: rat) ^ 1022 \<le> 2 ^ 1023" by simp
  with hi have "\<bar>fval (f64_of_nat k) * fval c\<bar> \<le> 2 ^ 1023" by (rule order_trans)
  note mul = f64_mul_finite [OF f(1) assms(1) this]
  show "is_finite (f64_mul (f64_of_nat k) c)"
    and val: "fval (f64_mul (f64_of_nat k) c) = rnd (fval (f64_of_nat k) * fval c)" using mul by simp_all
  show "0 \<le> fval (f64_mul (f64_of_nat k) c)" and "fval (f64_mul (f64_of_nat k) c) \<le> 2 ^ 1022"
    unfolding val using rnd_nonneg [OF lo] rnd_abs_le [OF hi] by simp_all
qed

lemma weighted_count_mono:
  assumes "is_finite c" and "0 \<le> fval c" and "fval c \<le> 2 ^ 900" and "k \<le> n" and "n \<le> 2 ^ 64"
  shows "fval (f64_mul (f64_of_nat k) c) \<le> fval (f64_mul (f64_of_nat n) c)"
proof -
  have "k \<le> 2 ^ 64" using assms(4,5) by simp
  then show ?thesis
    using weighted_count(2) [OF assms(1-3)] f64_of_nat_mono [OF assms(4,5)] assms(2,5)
    by (simp add: rnd_mono mult_right_mono)
qed

lemma diff_in_range:
  assumes "0 \<le> x" and "x \<le> 2 ^ 1022" and "0 \<le> y" and "y \<le> (2 :: rat) ^ 1022"
  shows "\<bar>x - y\<bar> \<le> 2 ^ 1023"
proof -
  have "(2 :: rat) ^ 1022 \<le> 2 ^ 1023" by simp
  then show ?thesis using assms by (simp only: abs_le_iff) linarith
qed

text \<open>
  C30: with finite non-negative weights up to \<open>2 ^ 900\<close> scores are finite and monotone: holding
  more blocks never lowers a score, and more requests in flight never raise it.
\<close>

theorem score_is_monotone:
  assumes "is_finite (cache_weight r)" and "0 \<le> fval (cache_weight r)" and "fval (cache_weight r) \<le> 2 ^ 900"
    and "is_finite (load_weight r)" and "0 \<le> fval (load_weight r)" and "fval (load_weight r) \<le> 2 ^ 900"
    and "cache_weight r' = cache_weight r" and "load_weight r' = load_weight r"
    and "m \<le> m'" and "m' \<le> 2 ^ 64"
    and "inflight_count (rt_inflight r') w' \<le> inflight_count (rt_inflight r) w"
  shows "is_finite (score_worker r w m) \<and> is_finite (score_worker r' w' m')
    \<and> fval (score_worker r w m) \<le> fval (score_worker r' w' m')"
proof -
  let ?n = "unat (inflight_count (rt_inflight r) w)" and ?n' = "unat (inflight_count (rt_inflight r') w')"
  have n: "?n' \<le> ?n"
    using assms(11) by (simp add: word_le_nat_alt)
  have "?n < 2 ^ LENGTH(64)" by (rule unsigned_less)
  then have n_le: "?n \<le> 2 ^ 64" and n'_le: "?n' \<le> 2 ^ 64" and m_le: "m \<le> 2 ^ 64"
    using n assms(9,10) by simp_all
  let ?a = "f64_mul (f64_of_nat m) (cache_weight r)" and ?b = "f64_mul (f64_of_nat ?n) (load_weight r)"
  let ?a' = "f64_mul (f64_of_nat m') (cache_weight r)" and ?b' = "f64_mul (f64_of_nat ?n') (load_weight r)"
  note a = weighted_count [OF assms(1-3) m_le] and a' = weighted_count [OF assms(1-3) assms(10)]
    and b = weighted_count [OF assms(4-6) n_le] and b' = weighted_count [OF assms(4-6) n'_le]
  have le: "fval ?a - fval ?b \<le> fval ?a' - fval ?b'"
    using weighted_count_mono [OF assms(1-3) assms(9,10)] weighted_count_mono [OF assms(4-6) n n_le]
    by (rule diff_mono)
  note small = diff_in_range [OF a(3,4) b(3,4)] and small' = diff_in_range [OF a'(3,4) b'(3,4)]
  show ?thesis
    using f64_sub_finite [OF a(1) b(1) small] f64_sub_finite [OF a'(1) b'(1) small'] rnd_mono [OF le]
    by (simp add: score_worker_def assms(7,8))
qed

theorem score_is_monotone_witness:
  "fval (score_worker (router_new (sample_config CacheAware)) 0 1)
     \<le> fval (score_worker (router_new (sample_config CacheAware)) 1 3)"
  using score_is_monotone [of "router_new (sample_config CacheAware)" "router_new (sample_config CacheAware)" 1 3 1 0]
  by (simp add: sample_weights default_cache_weight_def default_load_weight_def)

section \<open>Pool selection\<close>

text \<open>
  C26: one phase of the disaggregated flow. Selection in a pool fails exactly when the pool has no
  healthy worker, with the pool and policy named and nothing changed; otherwise it picks a
  registered healthy worker of that pool, preferred to every other one of the pool when no score
  is NaN, and credits it with the chain, whatever the configured policy.
\<close>

theorem pool_selection_correct:
  assumes "reg_inv reg" and "router_inv r" and "select_in_pool clk reg p chain r = (out, r')"
  shows "case out of
      Inl e \<Rightarrow> r' = r \<and> (\<forall>w \<in> set (healthy_workers reg). wpool w \<noteq> p)
        \<and> e = NoHealthyWorkersInPool (pool_to_string p) (policy_to_string (rt_policy r))
    | Inr d \<Rightarrow> get_worker reg (wid (d_worker d)) = Some (d_worker d) \<and> is_healthy reg (wid (d_worker d))
        \<and> wpool (d_worker d) = p \<and> router_inv r'
        \<and> matched_prefix_len d = match_len r (wid (d_worker d)) chain
        \<and> match_len r' (wid (d_worker d)) chain = length chain \<and> next_worker r' = next_worker r
        \<and> ((\<forall>v \<in> set (healthy_workers reg). score_worker r (wid v) (match_len r (wid v) chain) \<noteq> NaN)
           \<longrightarrow> (\<forall>v \<in> set (healthy_workers reg). wpool v = p \<longrightarrow> preferred r chain (d_worker d) v))"
proof (cases "filter (\<lambda>w. wpool w = p) (healthy_workers reg) = []")
  case True
  then show ?thesis
    using assms(3) select_in_pool_none [OF True, of clk chain r] by (auto simp: filter_empty_conv)
next
  case False
  from select_in_pool_ok [OF assms(2) False, of clk chain]
  obtain w r1 where sel: "select_in_pool clk reg p chain r = (Inr \<lparr>d_worker = w,
      matched_prefix_len = match_len r (wid w) chain, prompt_blocks = length chain,
      d_score = score_worker r (wid w) (match_len r (wid w) chain)\<rparr>, r1)"
    and mem: "w \<in> set (filter (\<lambda>w. wpool w = p) (healthy_workers reg))"
    and dec: "decided (wid w) chain r r1" and rr: "next_worker r1 = next_worker r"
    and best: "max_by scored_cmp (map (scored_of r chain) (filter (\<lambda>w. wpool w = p) (healthy_workers reg)))
      = Some (scored_of r chain w)" .
  have out: "out = Inr \<lparr>d_worker = w, matched_prefix_len = match_len r (wid w) chain,
      prompt_blocks = length chain, d_score = score_worker r (wid w) (match_len r (wid w) chain)\<rparr>"
    and r1: "r1 = r'"
    using assms(3) sel by simp_all
  have "reg_status reg (wid w) = Some (w, True)"
    using mem set_healthy_workers [OF assms(1)] by auto
  then have "get_worker reg (wid w) = Some w" and "is_healthy reg (wid w)"
    by (auto simp: reg_status_def get_worker_def is_healthy_def)
  moreover have "preferred r chain w v"
    if "\<forall>v \<in> set (healthy_workers reg). score_worker r (wid v) (match_len r (wid v) chain) \<noteq> NaN"
      and "v \<in> set (healthy_workers reg)" and "wpool v = p" for v
    by (rule max_by_preferred [OF best mem]) (use that in auto)
  ultimately show ?thesis
    using mem rr decided_policy [OF dec] decided_match [OF dec] unfolding out r1 by simp
qed

theorem pool_selection_correct_witness:
  "\<exists>d r'. select_in_pool Instant (sample_registry 2) Both [7, 8] (router_new (sample_config Disaggregated)) = (Inr d, r')
     \<and> wpool (d_worker d) = Both \<and> match_len r' (wid (d_worker d)) [7, 8] = 2"
proof -
  have "filter (\<lambda>w. wpool w = Both) (healthy_workers (sample_registry 2)) \<noteq> []"
    using sample_registry_healthy(2,3) by (cases "healthy_workers (sample_registry 2)") auto
  from select_in_pool_ok [OF sample_router_inv this, of Instant "[7, 8]" Disaggregated]
  obtain d r' where sel: "select_in_pool Instant (sample_registry 2) Both [7, 8]
      (router_new (sample_config Disaggregated)) = (Inr d, r')" by metis
  then show ?thesis
    using pool_selection_correct [OF sample_registry_inv sample_router_inv sel] by auto
qed

section \<open>Scores that overflow\<close>

text \<open>
  Finite weights and counts do not keep scores finite: a product can overflow, and the difference
  of two infinities is NaN, which \<open>cmp\<close> treats as equal to anything. Under a non-negative load
  weight that does no harm, because a NaN score has its load term at infinity: every candidate with
  as many requests in flight scores NaN or minus infinity too.
\<close>

lemma f64_mul_round:
  assumes "is_finite c" and "k \<le> 2 ^ 64"
  shows "f64_mul (f64_of_nat k) c
    = f64_round (sign_bit (f64_of_nat k) \<noteq> sign_bit c) (fval (f64_of_nat k) * fval c)"
  using f64_of_nat_finite(1) [OF assms(2)] assms(1) by (simp add: f64_mul_def Let_def is_finite_not_NaN)

lemma f64_round_cases:
  "f64_round s x \<noteq> NaN" "f64_round s x = PInf \<longleftrightarrow> 2 ^ 1024 \<le> rnd x" "0 \<le> x \<Longrightarrow> f64_round s x \<noteq> NInf"
proof -
  have "f64_round s x = NInf \<Longrightarrow> rnd x \<le> - (2 ^ 1024)"
    by (auto simp: f64_round_def Let_def split: if_splits)
  moreover have "(- (2 ^ 1024) :: rat) < 0" by simp
  ultimately show "0 \<le> x \<Longrightarrow> f64_round s x \<noteq> NInf"
    using rnd_nonneg [of x] by force
qed (auto simp: f64_round_def Let_def)

lemma f64_sub_NaN:
  assumes "a \<noteq> NaN" and "b \<noteq> NaN" and "b \<noteq> NInf" and "f64_sub a b = NaN"
  shows "b = PInf"
  using assms f64_round_cases(1) by (cases a; cases b) (auto simp: f64_sub_def f64_add_def split: if_splits)

lemma f64_sub_PInf: "f64_sub a PInf = NaN \<or> f64_sub a PInf = NInf"
  by (cases a) (simp_all add: f64_sub_def f64_add_def)

text \<open>A worker whose score is NaN has more in flight than any worker with an ordinary score.\<close>

lemma nan_score_is_loaded:
  assumes "is_finite (cache_weight r)" and "is_finite (load_weight r)" and "0 \<le> fval (load_weight r)"
    and "m \<le> 2 ^ 64" and "score_worker r w m = NaN"
    and "score_worker r v k \<noteq> NaN" and "score_worker r v k \<noteq> NInf"
  shows "inflight_count (rt_inflight r) v < inflight_count (rt_inflight r) w"
proof (rule ccontr)
  let ?n = "\<lambda>x. unat (inflight_count (rt_inflight r) x)"
  let ?b = "\<lambda>x. f64_mul (f64_of_nat (?n x)) (load_weight r)"
  assume "\<not> inflight_count (rt_inflight r) v < inflight_count (rt_inflight r) w"
  then have le: "?n w \<le> ?n v" by (simp add: word_le_nat_alt not_less)
  have bound: "?n x \<le> 2 ^ 64" for x
    using unsigned_less [of "inflight_count (rt_inflight r) x", where ?'a = nat] by simp
  note round = f64_mul_round [OF assms(2) bound]
  have nonneg: "0 \<le> fval (f64_of_nat (?n x)) * fval (load_weight r)" for x
    using f64_of_nat_finite(3) [OF bound] assms(3) by simp
  have "?b w = PInf"
    using f64_sub_NaN [of "f64_mul (f64_of_nat m) (cache_weight r)" "?b w"] assms(5)
      f64_mul_round [OF assms(1,4)] round [of w] f64_round_cases nonneg
    unfolding score_worker_def by metis
  then have "2 ^ 1024 \<le> rnd (fval (f64_of_nat (?n w)) * fval (load_weight r))"
    unfolding round f64_round_cases(2) .
  also have "\<dots> \<le> rnd (fval (f64_of_nat (?n v)) * fval (load_weight r))"
    using f64_of_nat_mono [OF le bound] assms(3) by (intro rnd_mono mult_right_mono)
  finally have "?b v = PInf" unfolding round f64_round_cases(2) .
  then show False
    using assms(6,7) f64_sub_PInf unfolding score_worker_def by metis
qed

text \<open>The order with NaN as the lowest score.\<close>

definition nan_lowest :: "f64 \<Rightarrow> f64" where
  "nan_lowest s = (if s = NaN then NInf else s)"

definition total_key :: "candidate \<Rightarrow> ((int \<times> rat) \<times> int) \<times> int" where
  "total_key c = candidate_key (c\<lparr>cand_score := nan_lowest (cand_score c)\<rparr>)"

lemma nan_lowest_simps [simp]: "nan_lowest s \<noteq> NaN" "s \<noteq> NaN \<Longrightarrow> nan_lowest s = s" "nan_lowest NaN = NInf"
  by (simp_all add: nan_lowest_def)

lemma candidate_cmp_swap_NaN:
  assumes "cand_score a = NaN \<or> cand_score b = NaN"
    and "cand_score a = NaN \<Longrightarrow> cand_score b \<noteq> NaN \<Longrightarrow> cand_score b \<noteq> NInf \<Longrightarrow> cand_in_flight b < cand_in_flight a"
    and "cand_score b = NaN \<Longrightarrow> cand_score a \<noteq> NaN \<Longrightarrow> cand_score a \<noteq> NInf \<Longrightarrow> cand_in_flight a < cand_in_flight b"
  shows "candidate_cmp a b
    = candidate_cmp (a\<lparr>cand_score := nan_lowest (cand_score a)\<rparr>) (b\<lparr>cand_score := nan_lowest (cand_score b)\<rparr>)"
  using assms
  by (cases "cand_score a"; cases "cand_score b") (auto simp: candidate_cmp_def cmp_of_def)

lemma candidate_cmp_nan_lowest:
  assumes "is_finite (cache_weight r)" and "is_finite (load_weight r)" and "0 \<le> fval (load_weight r)"
    and "length chain \<le> 2 ^ 64"
  defines "c \<equiv> \<lambda>x. sw_candidate (scored_of r chain x)"
    and "k \<equiv> \<lambda>a. a\<lparr>cand_score := nan_lowest (cand_score a)\<rparr>"
  shows "candidate_cmp (c x) (c y) = candidate_cmp (k (c x)) (k (c y))"
proof (cases "cand_score (c x) = NaN \<or> cand_score (c y) = NaN")
  case True
  have m: "match_len r z chain \<le> 2 ^ 64" for z
    using match_len_le assms(4) by (rule order_trans)
  have "cand_score (c u) = NaN \<Longrightarrow> cand_score (c v) \<noteq> NaN \<Longrightarrow> cand_score (c v) \<noteq> NInf
      \<Longrightarrow> cand_in_flight (c v) < cand_in_flight (c u)" for u v
    using nan_score_is_loaded [OF assms(1-3) m] by (simp add: c_def scored_of_def Let_def)
  then show ?thesis
    unfolding k_def using True by (intro candidate_cmp_swap_NaN) auto
qed (simp add: k_def)

lemma candidate_order_total:
  assumes "is_finite (cache_weight r)" and "is_finite (load_weight r)" and "0 \<le> fval (load_weight r)"
    and "length chain \<le> 2 ^ 64"
  defines "c \<equiv> \<lambda>x. sw_candidate (scored_of r chain x)"
  shows "candidate_cmp (c x) (c y) = cmp_of (total_key (c x)) (total_key (c y))"
  unfolding c_def candidate_cmp_nan_lowest [OF assms(1-4)] total_key_def
  by (rule candidate_cmp_key) simp_all

lemma scored_total_comparator:
  assumes "is_finite (cache_weight r)" and "is_finite (load_weight r)" and "0 \<le> fval (load_weight r)"
    and "length chain \<le> 2 ^ 64"
  shows "comparator (\<lambda>s. s \<in> range (scored_of r chain)) scored_cmp"
proof -
  have key: "scored_cmp a b = cmp_of (total_key (sw_candidate a)) (total_key (sw_candidate b))"
    if "a \<in> range (scored_of r chain)" and "b \<in> range (scored_of r chain)" for a b
    using that candidate_order_total [OF assms] unfolding scored_cmp_def by auto
  show ?thesis
  proof
    fix a b c
    assume ok: "a \<in> range (scored_of r chain)" "b \<in> range (scored_of r chain)" "c \<in> range (scored_of r chain)"
    show "scored_cmp a b \<noteq> Greater \<Longrightarrow> scored_cmp b c \<noteq> Greater \<Longrightarrow> scored_cmp a c \<noteq> Greater"
      unfolding key [OF ok(1,2)] key [OF ok(2,3)] key [OF ok(1,3)] cmp_of_laws(3) by (rule order_trans)
  qed (simp_all add: key cmp_of_laws(1,2))
qed

lemma candidate_cmp_not_Greater:
  assumes "cand_score a \<noteq> NaN" and "cand_score b \<noteq> NaN"
  shows "candidate_cmp a b \<noteq> Greater \<longleftrightarrow> partial_cmp (cand_score a) (cand_score b) = Some Less
    \<or> partial_cmp (cand_score a) (cand_score b) = Some Equal
      \<and> (cand_in_flight b < cand_in_flight a \<or> cand_in_flight b = cand_in_flight a \<and> cand_id b \<le> cand_id a)"
proof -
  obtain c where "partial_cmp (cand_score a) (cand_score b) = Some c"
    using assms by (meson not_None_eq partial_cmp_None)
  then show ?thesis
    by (cases c) (auto simp: candidate_cmp_def then_with_not_Greater cmp_of_def)
qed

text \<open>
  C40: overflow does not break the candidate order. With finite weights and a non-negative load
  weight, scores may still overflow, to infinities and to NaN (infinity minus infinity), and NaN
  compares equal to every score. But \<open>cmp\<close> on the candidates of one selection is then the
  comparison of a linearly ordered key in which NaN counts as minus infinity, so it is total and
  transitive; and the worker chosen is preferred to every candidate in that order: by score, NaN
  below every ordinary score, then by fewer requests in flight, then by identifier.
\<close>

theorem overflow_keeps_order_total:
  assumes "router_inv r" and "rt_policy r = CacheAware"
    and "is_finite (cache_weight r)" and "is_finite (load_weight r)" and "0 \<le> fval (load_weight r)"
    and "length (chain_of r q) \<le> 2 ^ 64"
    and "select_for_chat clk reg q r = (Inr d, r')"
    and "v \<in> set (chat_candidates (healthy_workers reg))"
  defines "s \<equiv> \<lambda>x. nan_lowest (score_worker r (wid x) (match_len r (wid x) (chain_of r q)))"
    and "n \<equiv> \<lambda>x. inflight_count (rt_inflight r) (wid x)" and "w \<equiv> d_worker d"
    and "c \<equiv> \<lambda>x. sw_candidate (scored_of r (chain_of r q) x)"
  shows "w \<in> set (chat_candidates (healthy_workers reg))
    \<and> (partial_cmp (s v) (s w) = Some Less
       \<or> partial_cmp (s v) (s w) = Some Equal \<and> (n w < n v \<or> n w = n v \<and> wid w \<le> wid v))
    \<and> (\<forall>x y. candidate_cmp (c x) (c y) = cmp_of (total_key (c x)) (total_key (c y)))"
proof (intro conjI allI)
  note total = candidate_order_total [OF assms(3-6)]
  show "candidate_cmp (c x) (c y) = cmp_of (total_key (c x)) (total_key (c y))" for x y
    unfolding c_def by (rule total)
  have ne: "healthy_workers reg \<noteq> []"
    using assms(7) select_for_chat_none [of reg clk q r] by auto
  from select_for_chat_cache_aware [OF assms(1) ne assms(2), of clk q]
  show mem: "w \<in> set (chat_candidates (healthy_workers reg))"
    unfolding w_def using assms(7) by (metis Pair_inject sum.inject(2) route_decision.select_convs(1))
  from select_for_chat_cache_aware [OF assms(1) ne assms(2), of clk q]
  have best: "max_by scored_cmp (map (scored_of r (chain_of r q)) (chat_candidates (healthy_workers reg)))
      = Some (scored_of r (chain_of r q) w)"
    unfolding w_def using assms(7) by (metis Pair_inject sum.inject(2) route_decision.select_convs(1))
  have "candidate_cmp (c v) (c w) \<noteq> Greater"
    using comparator.max_by_max [OF scored_total_comparator [OF assms(3-6)] best] assms(8)
    by (simp add: scored_cmp_def c_def)
  then show "partial_cmp (s v) (s w) = Some Less
       \<or> partial_cmp (s v) (s w) = Some Equal \<and> (n w < n v \<or> n w = n v \<and> wid w \<le> wid v)"
    unfolding c_def candidate_cmp_nan_lowest [OF assms(3-6)]
    by (simp add: candidate_cmp_not_Greater scored_of_def Let_def s_def n_def)
qed

text \<open>
  Two workers under weights of \<open>2 ^ 1023\<close>: the first holds the whole prompt and has two requests in
  flight, so its score is NaN; the idle second one is chosen.
\<close>

definition overflowing_router :: router where
  "overflowing_router = (router_new (sample_config CacheAware))
     \<lparr>cache_weight := Fin (2 ^ 1023), load_weight := Fin (2 ^ 1023), rt_inflight := \<lparr>counts = [2, 0]\<rparr>,
      block_size := 4, rt_index := index_record (Instant 1) 0 (chain_hash (canonical_prompt (sample_request (ascii ''hi'') [])) 4) index_new\<rparr>"

lemma overflowing_product: "2 \<le> k \<Longrightarrow> k \<le> 2 ^ 53 \<Longrightarrow> f64_mul (f64_of_nat k) (Fin (2 ^ 1023)) = PInf"
proof -
  assume k: "2 \<le> k" "k \<le> 2 ^ 53"
  have "(2 :: rat) ^ 1024 \<le> of_nat k * 2 ^ 1023"
    using k(1) mult_right_mono [of "2 :: rat" "of_nat k" "2 ^ 1023"] by (simp flip: power_Suc)
  then have "2 ^ 1024 \<le> rnd (of_nat k * 2 ^ 1023)"
    using rnd_mono rnd_exact_pow2 [of 1024] by metis
  moreover have "k \<le> 2 ^ 64" using k(2) by simp
  ultimately show ?thesis
    using f64_mul_round [of "Fin (2 ^ 1023)" k] k(2) by (simp add: f64_of_nat_exact f64_round_cases(2))
qed

theorem overflow_keeps_order_total_witness:
  "\<exists>d r'. select_for_chat Instant (sample_registry 2) (sample_request (ascii ''hi'') []) overflowing_router = (Inr d, r')
     \<and> score_worker overflowing_router 0 (match_len overflowing_router 0
         (chain_of overflowing_router (sample_request (ascii ''hi'') []))) = NaN
     \<and> wid (d_worker d) \<noteq> 0"
proof -
  let ?r = overflowing_router and ?q = "sample_request (ascii ''hi'') []"
  define c where "c = chain_of ?r ?q"
  have bs: "block_size ?r = 4" and pol: "rt_policy ?r = CacheAware"
    and weights: "cache_weight ?r = Fin (2 ^ 1023)" "load_weight ?r = Fin (2 ^ 1023)"
    and load: "inflight_count (rt_inflight ?r) 0 = 2" "inflight_count (rt_inflight ?r) 1 = 0"
    and index: "rt_index ?r = index_record (Instant 1) 0 c index_new"
    by (simp_all add: overflowing_router_def router_new_def sample_config_def inflight_count_def c_def)
  have inv: "router_inv ?r"
    by (simp add: router_inv_def index bs idx.inv_learn index_inv_new)
  have len: "2 \<le> length c" "length c \<le> 3"
    unfolding c_def bs by (simp_all add: chain_hash_def blocks_of_def length_chunks canonical_prompt_def sample_request_def ascii_def Let_def)
  have held: "holds (rt_index ?r) v h \<longleftrightarrow> v = 0 \<and> h \<in> set c" for v h
    unfolding index using idx.believes_learn [OF index_inv_new, of "Instant 1" 0 c v h] by (simp add: holds_index_new)
  have "match_len ?r 0 c = length c" by (simp add: match_len_full held)
  then have nan: "score_worker ?r 0 (match_len ?r 0 c) = NaN"
    using len overflowing_product [of "length c"] overflowing_product [of 2]
    by (simp add: score_worker_def weights load f64_sub_def f64_add_def)
  have "match_len ?r 1 c = 0" using len(1) by (cases c) (simp_all add: match_len_def held)
  then have zero: "score_worker ?r 1 (match_len ?r 1 c) = Fin 0"
    using f64_of_nat_exact [of 0]
    by (simp add: score_worker_def weights load f64_mul_def f64_sub_def f64_add_def f64_round_def Let_def)
  have ne: "healthy_workers (sample_registry 2) \<noteq> []"
    using sample_registry_healthy(2) by auto
  have "rt_policy ?r \<noteq> Disaggregated" by (simp add: pol)
  then obtain d r' where sel: "select_for_chat Instant (sample_registry 2) ?q ?r = (Inr d, r')"
    by (rule select_for_chat_ok [OF inv ne, of Instant ?q])
  have "map wid (chat_candidates (healthy_workers (sample_registry 2))) = [0, 1]" by code_simp
  then have "1 \<in> wid ` set (chat_candidates (healthy_workers (sample_registry 2)))"
    by (metis list.set_intros set_map)
  then obtain v where v: "v \<in> set (chat_candidates (healthy_workers (sample_registry 2)))" "wid v = 1" by auto
  have "wid (d_worker d) \<noteq> 0"
    using overflow_keeps_order_total [OF inv pol _ _ _ _ sel v(1)] len nan zero v(2)
    by (auto simp: weights c_def [symmetric])
  then show ?thesis using sel nan unfolding c_def by blast
qed

text \<open>
  The sign of the load weight matters, and nothing checks it: with two negative weights the worker
  whose score is NaN can be the less loaded one, and three workers are each preferred to the next.
\<close>

lemma negative_load_weight_breaks_order:
  fixes r :: router and t :: instant and u :: string
  defines "r2 \<equiv> r\<lparr>cache_weight := Fin (- (2 ^ 1023)), load_weight := Fin (- (2 ^ 1023)),
      rt_inflight := \<lparr>counts = [2, 3, 1]\<rparr>, rt_index := index_record t 0 [7, 8] index_new\<rparr>"
    and "a \<equiv> \<lparr>wid = 0, url = u, wpool = Both\<rparr>" and "b \<equiv> \<lparr>wid = 1, url = u, wpool = Both\<rparr>"
    and "c \<equiv> \<lparr>wid = 2, url = u, wpool = Both\<rparr>"
  defines "cmp \<equiv> \<lambda>x y. scored_cmp (scored_of r2 [7, 8] x) (scored_of r2 [7, 8] y)"
  shows "cmp a b = Greater \<and> cmp b c = Greater \<and> cmp c a = Greater"
proof -
  have held: "holds (rt_index r2) v h \<longleftrightarrow> v = 0 \<and> h \<in> {7, 8}" for v h
    unfolding r2_def using idx.believes_learn [OF index_inv_new, of t 0 "[7, 8]" v h] by (simp add: holds_index_new)
  have m: "match_len r2 0 [7, 8] = 2" "match_len r2 1 [7, 8] = 0" "match_len r2 2 [7, 8] = 0"
    by (simp_all add: match_len_def held)
  have n: "f64_of_nat 0 = Fin 0" "f64_of_nat 1 = Fin 1" "f64_of_nat 2 = Fin 2" "f64_of_nat 3 = Fin 3"
    by (simp_all add: f64_of_nat_exact)
  have "(2 :: rat) ^ 1024 \<le> 3 * 2 ^ 1023" by simp
  then have three: "2 ^ 1024 \<le> rnd (3 * 2 ^ 1023)"
    using rnd_mono rnd_exact_pow2 [of 1024] by metis
  have prod: "f64_mul (Fin 0) (Fin (- (2 ^ 1023))) = NZero" "f64_mul (Fin 1) (Fin (- (2 ^ 1023))) = Fin (- (2 ^ 1023))"
    "f64_mul (Fin 2) (Fin (- (2 ^ 1023))) = NInf" "f64_mul (Fin 3) (Fin (- (2 ^ 1023))) = NInf"
    using three rnd_exact_pow2 [of 1024] rnd_exact_pow2 [of 1023]
    by (simp_all add: f64_mul_def f64_round_def Let_def rnd_uminus flip: power_Suc)
  have diff: "f64_sub NInf NInf = NaN" "f64_sub NZero NInf = PInf" "f64_sub NZero (Fin (- (2 ^ 1023))) = Fin (2 ^ 1023)"
    using rnd_exact_pow2 [of 1023] by (simp_all add: f64_sub_def f64_add_def f64_round_def Let_def)
  have load: "unat (inflight_count (rt_inflight r2) 0) = 2" "unat (inflight_count (rt_inflight r2) 1) = 3"
    "unat (inflight_count (rt_inflight r2) 2) = 1"
    and weights: "cache_weight r2 = Fin (- (2 ^ 1023))" "load_weight r2 = Fin (- (2 ^ 1023))"
    by (simp_all only: r2_def) (simp_all add: inflight_count_def)
  have score: "score_worker r2 0 2 = NaN" "score_worker r2 1 0 = PInf" "score_worker r2 2 0 = Fin (2 ^ 1023)"
    unfolding score_worker_def load weights n prod diff by (rule refl)+
  show ?thesis
    by (simp add: cmp_def scored_cmp_def scored_of_def Let_def a_def b_def c_def m score candidate_cmp_def cmp_of_def)
      (simp add: r2_def inflight_count_def)
qed

end
