(* ===== verification/Metrics.thy ===== *)
theory Metrics
  imports Config
begin

text \<open>
  \<open>crates/router-server/src/metrics.rs\<close>. The \<open>metrics\<close> facade is write-only third-party code: a
  call to it is an emission appended to a log. The per-worker hit statistics, which the code
  reads back, are a hash map. Emission lists name the metric, its labels and its value.
\<close>

section \<open>Emissions\<close>

type_synonym labels = "(string \<times> string) list"

datatype emission =
    Counter string labels u64
  | Gauge string labels f64
  | Histogram string labels f64
  | Describe string string

record metrics =
  hit_stats :: "(string, u64 \<times> u64) hashmap"
  emissions :: "emission list"

definition metrics_new :: metrics where
  "metrics_new = \<lparr>hit_stats = [], emissions = []\<rparr>"

definition emit :: "emission \<Rightarrow> metrics \<Rightarrow> metrics" where
  "emit e m = m\<lparr>emissions := emissions m @ [e]\<rparr>"

text \<open>\<open>Duration::as_secs_f64\<close>.\<close>

definition as_secs_f64 :: "duration \<Rightarrow> f64" where
  "as_secs_f64 d = f64_add (f64_of_nat (d div 1000000000)) (f64_div (f64_of_nat (d mod 1000000000)) (Fin 1000000000))"

definition as_millis :: "duration \<Rightarrow> nat" where
  "as_millis d = d div 1000000"

definition register_descriptions :: "metrics \<Rightarrow> metrics" where
  "register_descriptions m = fold (\<lambda>(n, h). emit (Describe n h))
     [(''kvrouter_requests_total'', ''Chat completion requests by worker, policy and status.''),
      (''kvrouter_cache_hit_blocks'', ''Cache-hit blocks credited to routing decisions (matched prefix length).''),
      (''kvrouter_prompt_blocks_total'', ''Prompt blocks across routed requests.''),
      (''kvrouter_ttft_seconds'', ''Time to first token, seconds.''),
      (''kvrouter_request_duration_seconds'', ''End-to-end request duration, seconds.''),
      (''kvrouter_tokens_generated_total'', ''Tokens streamed back to clients, counted from streamed chunks.''),
      (''kvrouter_inflight_requests'', ''Requests currently in flight, per worker.''),
      (''kvrouter_prefix_index_entries'', ''Router-side prefix index size.''),
      (''kvrouter_worker_up'', ''1 if the worker is currently healthy.''),
      (''kvrouter_kv_transfer_seconds'', ''KV transfer duration between prefill and decode workers (disaggregated mode).''),
      (''kvrouter_engine_cache_hit_rate'', ''Engine-reported prefix cache hit rate (metrics_scrape mode).''),
      (''kvrouter_predicted_cache_hit_rate'', ''Router-predicted prefix cache hit rate from its belief index.''),
      (''kvrouter_hit_rate_prediction_error'', ''Predicted minus engine-reported cache hit rate.'')] m"

section \<open>Operations\<close>

definition record_hit_stats :: "string \<Rightarrow> u64 \<Rightarrow> u64 \<Rightarrow> metrics \<Rightarrow> metrics" where
  "record_hit_stats worker matched_blocks prompt_blocks m =
     (let (hits, prompts) = (case hm_get (hit_stats m) worker of None \<Rightarrow> (0, 0) | Some e \<Rightarrow> e)
      in m\<lparr>hit_stats := hm_insert worker (hits + matched_blocks, prompts + prompt_blocks) (hit_stats m)\<rparr>)"

definition predicted_cache_hit_rate :: "metrics \<Rightarrow> string \<Rightarrow> f64 option" where
  "predicted_cache_hit_rate m worker =
     (case hm_get (hit_stats m) worker of
        None \<Rightarrow> None
      | Some (hits, prompts) \<Rightarrow>
          if prompts > 0 then Some (f64_div (f64_of_nat (unat hits)) (f64_of_nat (unat prompts))) else None)"

definition set_engine_cache_hit_rate :: "string \<Rightarrow> f64 \<Rightarrow> metrics \<Rightarrow> metrics" where
  "set_engine_cache_hit_rate worker rate = emit (Gauge ''kvrouter_engine_cache_hit_rate'' [(''worker'', worker)] rate)"

definition set_predicted_cache_hit_rate :: "string \<Rightarrow> f64 \<Rightarrow> metrics \<Rightarrow> metrics" where
  "set_predicted_cache_hit_rate worker rate = emit (Gauge ''kvrouter_predicted_cache_hit_rate'' [(''worker'', worker)] rate)"

definition set_hit_rate_prediction_error :: "string \<Rightarrow> f64 \<Rightarrow> metrics \<Rightarrow> metrics" where
  "set_hit_rate_prediction_error worker err = emit (Gauge ''kvrouter_hit_rate_prediction_error'' [(''worker'', worker)] err)"

definition record_request :: "string \<Rightarrow> routing_policy \<Rightarrow> nat \<Rightarrow> metrics \<Rightarrow> metrics" where
  "record_request worker policy status = emit (Counter ''kvrouter_requests_total''
     [(''worker'', worker), (''policy'', policy_to_string policy), (''status'', show_nat status)] 1)"

definition record_cache_hit_blocks :: "u64 \<Rightarrow> metrics \<Rightarrow> metrics" where
  "record_cache_hit_blocks blocks = emit (Counter ''kvrouter_cache_hit_blocks'' [] blocks)"

definition record_prompt_blocks :: "u64 \<Rightarrow> metrics \<Rightarrow> metrics" where
  "record_prompt_blocks blocks = emit (Counter ''kvrouter_prompt_blocks_total'' [] blocks)"

definition record_ttft :: "routing_policy \<Rightarrow> f64 \<Rightarrow> metrics \<Rightarrow> metrics" where
  "record_ttft policy seconds = emit (Histogram ''kvrouter_ttft_seconds'' [(''policy'', policy_to_string policy)] seconds)"

definition record_request_duration :: "routing_policy \<Rightarrow> f64 \<Rightarrow> metrics \<Rightarrow> metrics" where
  "record_request_duration policy seconds =
     emit (Histogram ''kvrouter_request_duration_seconds'' [(''policy'', policy_to_string policy)] seconds)"

definition record_tokens_generated :: "string \<Rightarrow> u64 \<Rightarrow> metrics \<Rightarrow> metrics" where
  "record_tokens_generated worker tokens = emit (Counter ''kvrouter_tokens_generated_total'' [(''worker'', worker)] tokens)"

definition record_kv_transfer :: "f64 \<Rightarrow> metrics \<Rightarrow> metrics" where
  "record_kv_transfer seconds = emit (Histogram ''kvrouter_kv_transfer_seconds'' [] seconds)"

definition set_inflight :: "string \<Rightarrow> u64 \<Rightarrow> metrics \<Rightarrow> metrics" where
  "set_inflight worker n = emit (Gauge ''kvrouter_inflight_requests'' [(''worker'', worker)] (f64_of_nat (unat n)))"

definition set_prefix_index_entries :: "u64 \<Rightarrow> metrics \<Rightarrow> metrics" where
  "set_prefix_index_entries n = emit (Gauge ''kvrouter_prefix_index_entries'' [] (f64_of_nat (unat n)))"

definition set_worker_up :: "string \<Rightarrow> bool \<Rightarrow> metrics \<Rightarrow> metrics" where
  "set_worker_up worker up = emit (Gauge ''kvrouter_worker_up'' [(''worker'', worker)] (if up then Fin 1 else Fin 0))"

lemma hit_stats_emit [simp]: "hit_stats (emit e m) = hit_stats m"
  by (simp add: emit_def)

section \<open>The predicted hit rate\<close>

text \<open>The totals a worker was credited with over a list of reports (worker, hits, prompts).\<close>

definition total_of :: "(nat \<times> nat \<Rightarrow> nat) \<Rightarrow> string \<Rightarrow> (string \<times> nat \<times> nat) list \<Rightarrow> nat" where
  "total_of f worker reports = sum_list (map (\<lambda>(w, e). if w = worker then f e else 0) reports)"

definition report_all :: "(string \<times> nat \<times> nat) list \<Rightarrow> metrics \<Rightarrow> metrics" where
  "report_all reports m = fold (\<lambda>(w, h, p). record_hit_stats w (of_nat h) (of_nat p)) reports m"

definition stats_of :: "metrics \<Rightarrow> string \<Rightarrow> u64 \<times> u64" where
  "stats_of m w = (case hm_get (hit_stats m) w of None \<Rightarrow> (0, 0) | Some e \<Rightarrow> e)"

lemma stats_of_record:
  "stats_of (record_hit_stats v h p m) w
     = (if w = v then (fst (stats_of m w) + h, snd (stats_of m w) + p) else stats_of m w)"
  by (auto simp: stats_of_def record_hit_stats_def Let_def case_prod_beta hashmap_simps)

lemma stats_of_report_all:
  "stats_of (report_all reports m) w
     = (fst (stats_of m w) + of_nat (total_of fst w reports), snd (stats_of m w) + of_nat (total_of snd w reports))"
proof (induction reports arbitrary: m)
  case (Cons e reports)
  obtain v h p where e: "e = (v, h, p)" by (cases e)
  have all: "report_all (e # reports) m = report_all reports (record_hit_stats v (of_nat h) (of_nat p) m)"
    by (simp add: report_all_def e)
  show ?case
    unfolding all Cons.IH by (auto simp: e stats_of_record total_of_def)
qed (simp add: report_all_def total_of_def)

lemma predicted_stats_of:
  "predicted_cache_hit_rate m w = (if snd (stats_of m w) > 0
     then Some (f64_div (f64_of_nat (unat (fst (stats_of m w)))) (f64_of_nat (unat (snd (stats_of m w))))) else None)"
  by (auto simp: predicted_cache_hit_rate_def stats_of_def split: option.splits)

lemma total_of_le:
  "\<forall>(w, h, p) \<in> set reports. h \<le> p \<Longrightarrow> total_of fst w reports \<le> total_of snd w reports"
  unfolding total_of_def by (rule sum_list_mono) auto

lemma ratio_le_one:
  assumes "h \<le> p" and "0 < p" and "p \<le> 2 ^ 64"
  shows "is_finite (f64_div (f64_of_nat h) (f64_of_nat p))"
    and "0 \<le> fval (f64_div (f64_of_nat h) (f64_of_nat p))"
    and "fval (f64_div (f64_of_nat h) (f64_of_nat p)) \<le> 1"
proof -
  have h: "h \<le> 2 ^ 64" using assms by simp
  note fh = f64_of_nat_finite [OF h] and fp = f64_of_nat_finite [OF assms(3)]
  have le: "fval (f64_of_nat h) \<le> fval (f64_of_nat p)"
    by (rule f64_of_nat_mono [OF assms(1,3)])
  have "fval (f64_of_nat 1) = 1"
    by (simp add: f64_of_nat_exact)
  then have pos: "1 \<le> fval (f64_of_nat p)"
    using f64_of_nat_mono [of 1 p] assms by simp
  let ?q = "fval (f64_of_nat h) / fval (f64_of_nat p)"
  have q: "0 \<le> ?q" "?q \<le> 1"
    using le pos fh(3) by (simp_all add: divide_le_eq)
  then have "\<bar>?q\<bar> \<le> 2 ^ 0" by simp
  then have range: "\<bar>?q\<bar> \<le> 2 ^ 1023" by (rule order_trans) simp
  have eq: "f64_div (f64_of_nat h) (f64_of_nat p)
      = f64_round (sign_bit (f64_of_nat h) \<noteq> sign_bit (f64_of_nat p)) ?q"
    using fh(1) fp(1) pos by (auto simp: f64_div_def Let_def dest: is_finite_not_NaN)
  show "is_finite (f64_div (f64_of_nat h) (f64_of_nat p))"
    unfolding eq by (rule f64_round_in_range(1) [OF range])
  show "0 \<le> fval (f64_div (f64_of_nat h) (f64_of_nat p))"
    and "fval (f64_div (f64_of_nat h) (f64_of_nat p)) \<le> 1"
    unfolding eq f64_round_in_range(2) [OF range]
    using rnd_nonneg [OF q(1)] rnd_mono [OF q(2)] rnd_exact_int [of 1] by simp_all
qed

text \<open>
  C31: the predicted hit rate of a worker exists exactly when it was credited with at least one
  prompt block; it is the quotient of its cumulative totals and, since no decision matches more
  blocks than the prompt has, a finite number between zero and one.
\<close>

theorem predicted_rate_is_a_rate:
  assumes "\<forall>(w, h, p) \<in> set reports. h \<le> p" and "total_of snd worker reports < 2 ^ 64"
  shows "case predicted_cache_hit_rate (report_all reports metrics_new) worker of
      None \<Rightarrow> total_of snd worker reports = 0
    | Some rate \<Rightarrow> 0 < total_of snd worker reports \<and> is_finite rate \<and> 0 \<le> fval rate \<and> fval rate \<le> 1
        \<and> rate = f64_div (f64_of_nat (total_of fst worker reports)) (f64_of_nat (total_of snd worker reports))"
proof -
  let ?h = "total_of fst worker reports" and ?p = "total_of snd worker reports"
  have le: "?h \<le> ?p" by (rule total_of_le [OF assms(1)])
  have "unat (of_nat ?h :: u64) = ?h" and p: "unat (of_nat ?p :: u64) = ?p"
    using le assms(2) by (simp_all add: unat_of_nat take_bit_nat_eq_self)
  moreover have "(0 :: u64) < of_nat ?p \<longleftrightarrow> 0 < ?p"
    using p by (simp add: word_less_nat_alt)
  moreover have "stats_of metrics_new worker = (0, 0)"
    by (simp add: stats_of_def metrics_new_def hashmap_simps)
  ultimately show ?thesis
    using ratio_le_one [OF le] assms(2) by (auto simp: predicted_stats_of stats_of_report_all)
qed

theorem predicted_rate_is_a_rate_witness:
  "predicted_cache_hit_rate (report_all [(''a'', 1, 4), (''b'', 0, 3), (''a'', 2, 2)] metrics_new) ''a''
     = Some (f64_div (f64_of_nat 3) (f64_of_nat 6))"
  using predicted_rate_is_a_rate [of "[(''a'', 1, 4), (''b'', 0, 3), (''a'', 2, 2)]" "''a''"]
  by (simp add: total_of_def numeral_3_eq_3 split: option.splits)

end
