(* ===== verification/App.thy ===== *)
theory App
  imports Routing Metrics
begin

text \<open>
  \<open>crates/router-server/src/state.rs\<close>, \<open>crates/router-core/src/kv_transfer.rs\<close> and the gauge
  refresh of \<open>metrics.rs\<close>: the state every handler and background task shares. HTTP replies of
  workers come from outside the program; their status and body are values of \<open>http_reply\<close>.
\<close>

section \<open>KV transfer\<close>

text \<open>The trait \<open>KvTransfer\<close>: how long the transfer takes and how it ends.\<close>

type_synonym kv_transfer = "worker_id \<Rightarrow> worker_id \<Rightarrow> nat \<Rightarrow> duration \<times> (router_error + unit)"

record mock_kv_transfer =
  kv_cost :: duration

definition mock_new :: "duration \<Rightarrow> mock_kv_transfer" where
  "mock_new cost = \<lparr>kv_cost = cost\<rparr>"

definition mock_transfer :: "mock_kv_transfer \<Rightarrow> kv_transfer" where
  "mock_transfer t from_worker to_worker blocks = (kv_cost t, Inr ())"

section \<open>Replies\<close>

text \<open>The outcome of \<open>client.get(..).send()\<close>: a status with a body, or a transport error.\<close>

datatype 'body http_reply = Reply nat 'body | Transport string

definition is_success :: "nat \<Rightarrow> bool" where
  "is_success status \<longleftrightarrow> 200 \<le> status \<and> status < 300"

section \<open>State\<close>

record app_state =
  app_config :: router_config
  app_registry :: worker_registry
  app_router :: router
  app_metrics :: metrics
  app_kv :: kv_transfer

text \<open>
  \<open>AppState::new\<close>. The results of installing the metrics recorder and of building the HTTP
  client, third-party calls, are arguments.
\<close>

definition app_new :: "string + unit \<Rightarrow> string + unit \<Rightarrow> router_config \<Rightarrow> router_error + app_state" where
  "app_new install client config =
     (case install of
        Inl e \<Rightarrow> Inl (ConfigError (''failed to install metrics recorder: '' @ e))
      | Inr _ \<Rightarrow>
          let m = register_descriptions metrics_new;
              registry = from_config (cfg_workers config);
              router = router_new config
          in case client of
               Inl e \<Rightarrow> Inl (ConfigError (''failed to build http client: '' @ e))
             | Inr _ \<Rightarrow> Inr \<lparr>app_config = config, app_registry = registry, app_router = router, app_metrics = m,
                 app_kv = mock_transfer (mock_new (kv_transfer_cost_ms config * 1000000))\<rparr>)"

definition refresh_gauges :: "app_state \<Rightarrow> app_state" where
  "refresh_gauges st =
     (let m = fold (\<lambda>w m. set_inflight (url w) (inflight_count (rt_inflight (app_router st)) (wid w))
                            (set_worker_up (url w) (is_healthy (app_registry st) (wid w)) m))
                (all_workers (app_registry st)) (app_metrics st)
      in st\<lparr>app_metrics := set_prefix_index_entries (of_nat (index_len (rt_index (app_router st)))) m\<rparr>)"

section \<open>Invariants\<close>

definition app_inv :: "app_state \<Rightarrow> bool" where
  "app_inv st \<longleftrightarrow> reg_inv (app_registry st) \<and> router_inv (app_router st)"

text \<open>Only healthy registered workers are credited with blocks.\<close>

definition credit_inv :: "app_state \<Rightarrow> bool" where
  "credit_inv st \<longleftrightarrow> (\<forall>w h. holds (rt_index (app_router st)) w h \<longrightarrow> is_healthy (app_registry st) w)"

lemma app_new_fields:
  assumes "app_new install client config = Inr st"
  shows "app_registry st = from_config (cfg_workers config)" and "app_router st = router_new config"
    and "app_config st = config"
  using assms by (auto simp: app_new_def Let_def split: sum.splits)

lemma app_new_inv:
  assumes "app_new install client config = Inr st" and "length (cfg_workers config) < 2 ^ 64"
  shows "app_inv st" and "credit_inv st"
proof -
  note st = app_new_fields [OF assms(1)]
  show "app_inv st"
    by (simp add: app_inv_def st reg_inv_from_config [OF assms(2)] router_inv_new)
  show "credit_inv st"
    by (simp add: credit_inv_def st router_new_def holds_index_new)
qed

lemma is_healthy_status: "is_healthy r i \<longleftrightarrow> (\<exists>w. reg_status r i = Some (w, True))"
  by (auto simp: is_healthy_def reg_status_def split: option.splits)

lemma get_worker_status_map: "get_worker r i = map_option fst (reg_status r i)"
  by (simp add: get_worker_def reg_status_def option.map_comp comp_def)

section \<open>Sample state\<close>

definition sample_app :: "routing_policy \<Rightarrow> app_state" where
  "sample_app p = \<lparr>app_config = sample_config p, app_registry = sample_registry 2,
     app_router = router_new (sample_config p), app_metrics = metrics_new, app_kv = mock_transfer (mock_new 20000000)\<rparr>"

lemma sample_app_inv: "app_inv (sample_app p)" and sample_app_credit: "credit_inv (sample_app p)"
  by (simp_all add: app_inv_def credit_inv_def sample_app_def sample_registry_inv sample_router_inv)
    (simp add: router_new_def holds_index_new)

end
