(* ===== verification/Health.thy ===== *)
theory Health
  imports App
begin

text \<open>
  \<open>crates/router-server/src/health.rs\<close>: one round of the health poller. \<open>probe\<close> is the network:
  the reply of a GET to a URL. The loop around it repeats the round every \<open>poll_interval\<close>.
\<close>

definition poll_interval :: "router_config \<Rightarrow> duration" where
  "poll_interval config = secs (max (health_check_interval_secs config) 1)"

definition probe_ok :: "(string \<Rightarrow> unit http_reply) \<Rightarrow> worker \<Rightarrow> bool" where
  "probe_ok probe w =
     (case probe (trim_end_matches CHR ''/'' (url w) @ ''/health'') of
        Reply status _ \<Rightarrow> is_success status
      | Transport _ \<Rightarrow> False)"

definition poll_worker :: "(string \<Rightarrow> unit http_reply) \<Rightarrow> worker \<Rightarrow> app_state \<Rightarrow> app_state" where
  "poll_worker probe w st =
     (let healthy = probe_ok probe w;
          (changed, registry) = set_healthy (wid w) healthy (app_registry st);
          st = st\<lparr>app_registry := registry\<rparr>
      in if changed \<and> \<not> healthy
         then st\<lparr>app_router := (app_router st)\<lparr>rt_index := index_remove_worker (wid w) (rt_index (app_router st))\<rparr>\<rparr>
         else st)"

definition poll_round :: "(string \<Rightarrow> unit http_reply) \<Rightarrow> app_state \<Rightarrow> app_state" where
  "poll_round probe st = fold (poll_worker probe) (all_workers (app_registry st)) st"

section \<open>One worker\<close>

lemma poll_worker_spec:
  assumes "app_inv st"
  shows "app_inv (poll_worker probe w st)"
    and "reg_status (app_registry (poll_worker probe w st))
      = (reg_status (app_registry st))(wid w := map_option (\<lambda>(v, _). (v, probe_ok probe w)) (reg_status (app_registry st) (wid w)))"
    and "holds (rt_index (app_router (poll_worker probe w st))) v h \<longleftrightarrow> holds (rt_index (app_router st)) v h
      \<and> \<not> (v = wid w \<and> is_healthy (app_registry st) v \<and> \<not> probe_ok probe w)"
    and "app_router (poll_worker probe w st) = (app_router st)\<lparr>rt_index := rt_index (app_router (poll_worker probe w st))\<rparr>"
proof -
  have reg: "reg_inv (app_registry st)" and idx: "index_inv (rt_index (app_router st))"
    using assms by (simp_all add: app_inv_def router_inv_def)
  let ?set = "set_healthy (wid w) (probe_ok probe w) (app_registry st)"
  have registry: "app_registry (poll_worker probe w st) = snd ?set"
    by (simp add: poll_worker_def Let_def case_prod_beta)
  have index: "app_router (poll_worker probe w st) = (app_router st)\<lparr>rt_index :=
      (if fst ?set \<and> \<not> probe_ok probe w then index_remove_worker (wid w) (rt_index (app_router st))
       else rt_index (app_router st))\<rparr>"
    by (cases "fst ?set \<and> \<not> probe_ok probe w") (auto simp: poll_worker_def Let_def case_prod_beta)
  show "reg_status (app_registry (poll_worker probe w st))
      = (reg_status (app_registry st))(wid w := map_option (\<lambda>(v, _). (v, probe_ok probe w)) (reg_status (app_registry st) (wid w)))"
    unfolding registry by (rule reg.status_mark [OF reg])
  show "app_inv (poll_worker probe w st)"
    using assms idx.inv_forget [OF idx] unfolding app_inv_def registry index
    by (simp add: reg_inv_set_healthy router_inv_def)
  show "holds (rt_index (app_router (poll_worker probe w st))) v h \<longleftrightarrow> holds (rt_index (app_router st)) v h
      \<and> \<not> (v = wid w \<and> is_healthy (app_registry st) v \<and> \<not> probe_ok probe w)"
    unfolding index using idx.believes_forget [OF idx] reg.mark_changed [OF reg, of "wid w" "probe_ok probe w"]
    by (auto simp: is_healthy_status)
  show "app_router (poll_worker probe w st) = (app_router st)\<lparr>rt_index := rt_index (app_router (poll_worker probe w st))\<rparr>"
    unfolding index by simp
qed

section \<open>A round\<close>

lemma poll_workers_spec:
  assumes "app_inv st" and "distinct (map wid ws)"
    and "\<forall>w \<in> set ws. \<exists>b. reg_status (app_registry st) (wid w) = Some (w, b)"
  shows "app_inv (fold (poll_worker probe) ws st)
    \<and> (\<forall>i. reg_status (app_registry (fold (poll_worker probe) ws st)) i
         = (if i \<in> wid ` set ws then map_option (\<lambda>(v, _). (v, probe_ok probe v)) (reg_status (app_registry st) i)
            else reg_status (app_registry st) i))
    \<and> (\<forall>v h. holds (rt_index (app_router (fold (poll_worker probe) ws st))) v h \<longleftrightarrow> holds (rt_index (app_router st)) v h
         \<and> \<not> (\<exists>w \<in> set ws. v = wid w \<and> is_healthy (app_registry st) v \<and> \<not> probe_ok probe w))"
  using assms
proof (induction ws arbitrary: st)
  case (Cons w ws)
  let ?st = "poll_worker probe w st"
  note step = poll_worker_spec [OF Cons.prems(1), of probe w]
  have other: "reg_status (app_registry ?st) (wid v) = reg_status (app_registry st) (wid v)"
    and healthy: "is_healthy (app_registry ?st) (wid v) = is_healthy (app_registry st) (wid v)" if "v \<in> set ws" for v
  proof -
    have "wid v \<noteq> wid w" using Cons.prems(2) imageI [OF that, of wid] by auto
    then show "reg_status (app_registry ?st) (wid v) = reg_status (app_registry st) (wid v)"
      by (simp add: step(2))
    then show "is_healthy (app_registry ?st) (wid v) = is_healthy (app_registry st) (wid v)"
      by (simp add: is_healthy_status)
  qed
  obtain b where here: "reg_status (app_registry st) (wid w) = Some (w, b)"
    using Cons.prems(3) by auto
  have notin: "wid w \<notin> wid ` set ws" using Cons.prems(2) by simp
  have IH: "app_inv (fold (poll_worker probe) ws ?st)
    \<and> (\<forall>i. reg_status (app_registry (fold (poll_worker probe) ws ?st)) i
         = (if i \<in> wid ` set ws then map_option (\<lambda>(v, _). (v, probe_ok probe v)) (reg_status (app_registry ?st) i)
            else reg_status (app_registry ?st) i))
    \<and> (\<forall>v h. holds (rt_index (app_router (fold (poll_worker probe) ws ?st))) v h \<longleftrightarrow> holds (rt_index (app_router ?st)) v h
         \<and> \<not> (\<exists>w \<in> set ws. v = wid w \<and> is_healthy (app_registry ?st) v \<and> \<not> probe_ok probe w))"
    using Cons.prems other by (intro Cons.IH step(1)) auto
  have "reg_status (app_registry (fold (poll_worker probe) (w # ws) st)) i
      = (if i \<in> wid ` set (w # ws) then map_option (\<lambda>(v, _). (v, probe_ok probe v)) (reg_status (app_registry st) i)
         else reg_status (app_registry st) i)" for i
    using IH here notin step(2) by (cases "i = wid w") auto
  moreover have "holds (rt_index (app_router (fold (poll_worker probe) (w # ws) st))) v h \<longleftrightarrow> holds (rt_index (app_router st)) v h
         \<and> \<not> (\<exists>w \<in> set (w # ws). v = wid w \<and> is_healthy (app_registry st) v \<and> \<not> probe_ok probe w)" for v h
    using IH step(3) healthy by auto
  ultimately show ?case using IH by simp
qed simp

lemma poll_round_spec:
  assumes "app_inv st"
  shows "app_inv (poll_round probe st)"
    and "reg_status (app_registry (poll_round probe st)) i
      = map_option (\<lambda>(w, _). (w, probe_ok probe w)) (reg_status (app_registry st) i)"
    and "holds (rt_index (app_router (poll_round probe st))) i h \<longleftrightarrow> holds (rt_index (app_router st)) i h
      \<and> \<not> (\<exists>w. reg_status (app_registry st) i = Some (w, True) \<and> \<not> probe_ok probe w)"
proof -
  have reg: "reg_inv (app_registry st)" using assms by (simp add: app_inv_def)
  let ?ws = "all_workers (app_registry st)"
  have present: "\<forall>w \<in> set ?ws. \<exists>b. reg_status (app_registry st) (wid w) = Some (w, b)"
    using reg.everyone_set [OF reg] by auto
  note spec = poll_workers_spec [OF assms reg.everyone_distinct [OF reg] present, of probe, folded poll_round_def]
  show "app_inv (poll_round probe st)" using spec by blast
  have mem: "w \<in> set ?ws" and wid: "wid w = i" if "reg_status (app_registry st) i = Some (w, b)" for w b i
    using reg.everyone_set [OF reg] reg.status_wid [OF reg that] that by auto
  show "reg_status (app_registry (poll_round probe st)) i
      = map_option (\<lambda>(w, _). (w, probe_ok probe w)) (reg_status (app_registry st) i)"
  proof (cases "reg_status (app_registry st) i")
    case None
    then have "i \<notin> wid ` set ?ws" using present by auto
    then show ?thesis using spec None by simp
  next
    case (Some x)
    then have "i \<in> wid ` set ?ws" using mem [of i] wid [of i] by (cases x) force
    then show ?thesis using spec by simp
  qed
  have "(\<exists>w \<in> set ?ws. i = wid w \<and> is_healthy (app_registry st) i \<and> \<not> probe_ok probe w)
      \<longleftrightarrow> (\<exists>w. reg_status (app_registry st) i = Some (w, True) \<and> \<not> probe_ok probe w)"
  proof
    assume "\<exists>w \<in> set ?ws. i = wid w \<and> is_healthy (app_registry st) i \<and> \<not> probe_ok probe w"
    then obtain w where "w \<in> set ?ws" "i = wid w" "is_healthy (app_registry st) i" "\<not> probe_ok probe w" by blast
    then show "\<exists>w. reg_status (app_registry st) i = Some (w, True) \<and> \<not> probe_ok probe w"
      using present by (force simp: is_healthy_status)
  next
    assume "\<exists>w. reg_status (app_registry st) i = Some (w, True) \<and> \<not> probe_ok probe w"
    then obtain w where w: "reg_status (app_registry st) i = Some (w, True)" "\<not> probe_ok probe w" by blast
    then show "\<exists>w \<in> set ?ws. i = wid w \<and> is_healthy (app_registry st) i \<and> \<not> probe_ok probe w"
      using mem [OF w(1)] wid [OF w(1)] by (auto simp: is_healthy_status)
  qed
  moreover have "holds (rt_index (app_router (poll_round probe st))) i h \<longleftrightarrow> holds (rt_index (app_router st)) i h
      \<and> \<not> (\<exists>w \<in> set ?ws. i = wid w \<and> is_healthy (app_registry st) i \<and> \<not> probe_ok probe w)"
    using spec by blast
  ultimately show "holds (rt_index (app_router (poll_round probe st))) i h \<longleftrightarrow> holds (rt_index (app_router st)) i h
      \<and> \<not> (\<exists>w. reg_status (app_registry st) i = Some (w, True) \<and> \<not> probe_ok probe w)"
    by (simp only:)
qed

text \<open>
  C19: one round of the health poller mirrors the probes. Afterwards a worker is healthy exactly
  when its probe succeeded, no worker appears or disappears, a worker that went down keeps no
  credit in the prefix index, and the credits of every other worker are untouched.
\<close>

theorem poll_round_mirrors_probes:
  assumes "app_inv st"
  shows "app_inv (poll_round probe st)
    \<and> all_workers (app_registry (poll_round probe st)) = all_workers (app_registry st)
    \<and> (\<forall>w \<in> set (all_workers (app_registry st)).
         (is_healthy (app_registry (poll_round probe st)) (wid w) \<longleftrightarrow> probe_ok probe w)
         \<and> (\<forall>h. holds (rt_index (app_router (poll_round probe st))) (wid w) h
              \<longleftrightarrow> holds (rt_index (app_router st)) (wid w) h
                  \<and> \<not> (is_healthy (app_registry st) (wid w) \<and> \<not> probe_ok probe w)))"
proof -
  have reg: "reg_inv (app_registry st)" and reg': "reg_inv (app_registry (poll_round probe st))"
    using assms poll_round_spec(1) [OF assms, of probe] by (simp_all add: app_inv_def)
  have same: "set (all_workers (app_registry (poll_round probe st))) = set (all_workers (app_registry st))"
    unfolding reg.everyone_set [OF reg] reg.everyone_set [OF reg'] poll_round_spec(2) [OF assms]
    by (auto simp: case_prod_beta)
  have "all_workers (app_registry (poll_round probe st)) = all_workers (app_registry st)"
    by (rule sorted_wid_unique [OF reg.everyone_sorted [OF reg'] reg.everyone_sorted [OF reg] same])
  then show ?thesis
    using poll_round_spec [OF assms] reg.everyone_set [OF reg] by (auto simp: is_healthy_status)
qed

theorem poll_round_mirrors_probes_witness:
  "is_healthy (app_registry (sample_app CacheAware)) 0
     \<and> \<not> is_healthy (app_registry (poll_round (\<lambda>_. Transport ''refused'') (sample_app CacheAware))) 0"
proof -
  let ?reg = "app_registry (sample_app CacheAware)"
  have "0 \<in> set (map wid (healthy_workers (sample_registry 2)))"
    unfolding sample_registry_healthy(2) by simp
  then obtain w where w: "w \<in> set (healthy_workers ?reg)" "wid w = 0"
    by (auto simp: sample_app_def)
  have reg: "reg_inv ?reg" using sample_app_inv by (simp add: app_inv_def)
  have "is_healthy ?reg 0" and "w \<in> set (all_workers ?reg)"
    using w reg.healthy_set [OF reg] reg.healthy_subset_everyone [OF reg] by (auto simp: is_healthy_status)
  then show ?thesis
    using poll_round_mirrors_probes [OF sample_app_inv, of "\<lambda>_. Transport ''refused''" CacheAware] w(2)
    by (auto simp: probe_ok_def)
qed

lemma credit_inv_poll_round: "app_inv st \<Longrightarrow> credit_inv st \<Longrightarrow> credit_inv (poll_round probe st)"
  using poll_round_spec(2,3) [of st]
  by (fastforce simp: credit_inv_def is_healthy_status)

end
