(* ===== verification/Discovery.thy ===== *)
theory Discovery
  imports App
begin

text \<open>
  \<open>crates/router-server/src/discovery.rs\<close>: reconciling the registry and the prefix index with the
  EndpointSlices of a Kubernetes service. A \<open>HashSet\<close> of URLs is a list without duplicates whose
  order stands for the unspecified iteration order. Watch events and watch failures come from
  the \<open>kube\<close> crate and are the inputs of the model.
\<close>

section \<open>Reconciling\<close>

record discovered_workers =
  by_url :: "(string, worker_id) hashmap"

text \<open>The registry, the prefix index and the discovered workers, which \<open>reconcile\<close> changes.\<close>

record cluster =
  cl_registry :: worker_registry
  cl_index :: prefix_index
  cl_discovered :: discovered_workers

definition drop_url :: "string \<Rightarrow> cluster \<Rightarrow> cluster" where
  "drop_url u c =
     (case hm_get (by_url (cl_discovered c)) u of
        None \<Rightarrow> c
      | Some i \<Rightarrow> c\<lparr>cl_discovered := \<lparr>by_url = hm_remove u (by_url (cl_discovered c))\<rparr>,
                   cl_index := index_remove_worker i (cl_index c),
                   cl_registry := snd (remove_worker i (cl_registry c))\<rparr>)"

definition add_url :: "string \<Rightarrow> nat \<times> cluster \<Rightarrow> nat \<times> cluster" where
  "add_url u nc =
     (let (added, c) = nc
      in if hm_get (by_url (cl_discovered c)) u = None
         then let (i, registry) = register_worker u Both (cl_registry c)
              in (added + 1, c\<lparr>cl_registry := registry,
                    cl_discovered := \<lparr>by_url = hm_insert u i (by_url (cl_discovered c))\<rparr>\<rparr>)
         else (added, c))"

definition reconcile :: "string list \<Rightarrow> cluster \<Rightarrow> (nat \<times> nat) \<times> cluster" where
  "reconcile desired c =
     (let gone = filter (\<lambda>u. u \<notin> set desired) (map fst (by_url (cl_discovered c)));
          c = fold drop_url gone c;
          (added, c) = fold add_url desired (0, c)
      in ((length gone, added), c))"

section \<open>Endpoint slices\<close>

text \<open>\<open>conditions.ready\<close> is optional twice: no conditions, or conditions without \<open>ready\<close>.\<close>

record endpoint =
  addresses :: "string list"
  conditions :: "bool option option"

record endpoint_slice =
  slice_name :: string
  slice_ports :: "int option list option"
  endpoints :: "endpoint list"

definition endpoint_is_ready :: "endpoint \<Rightarrow> bool" where
  "endpoint_is_ready e =
     (case conditions e of None \<Rightarrow> True | Some c \<Rightarrow> (case c of None \<Rightarrow> False | Some b \<Rightarrow> b))"

definition show_int :: "int \<Rightarrow> string" where
  "show_int i = (if i < 0 then ''-'' @ show_nat (nat (- i)) else show_nat (nat i))"

definition slice_port :: "endpoint_slice \<Rightarrow> int" where
  "slice_port sl =
     (case slice_ports sl of
        Some (Some p # _) \<Rightarrow> p
      | _ \<Rightarrow> 8001)"

definition endpoint_urls :: "endpoint_slice \<Rightarrow> string list" where
  "endpoint_urls sl =
     remdups (concat (map (\<lambda>e. map (\<lambda>a. ''http://'' @ a @ '':'' @ show_int (slice_port sl)) (addresses e))
       (filter endpoint_is_ready (endpoints sl))))"

section \<open>The watch loop\<close>

datatype watch_event =
    InitApply endpoint_slice
  | Apply endpoint_slice
  | Delete endpoint_slice
  | Init
  | InitDone

type_synonym slice_map = "(string, string list) hashmap"

definition update_slices :: "watch_event \<Rightarrow> slice_map \<Rightarrow> slice_map" where
  "update_slices ev slices =
     (case ev of
        InitApply s \<Rightarrow> hm_insert (slice_name s) (endpoint_urls s) slices
      | Apply s \<Rightarrow> hm_insert (slice_name s) (endpoint_urls s) slices
      | Delete s \<Rightarrow> hm_remove (slice_name s) slices
      | Init \<Rightarrow> slices
      | InitDone \<Rightarrow> slices)"

text \<open>
  The desired URLs are a \<open>HashSet\<close> in the code; here they are listed in one order. \<open>reconcile_spec\<close>
  holds for every order.
\<close>

definition desired_of :: "slice_map \<Rightarrow> string list" where
  "desired_of slices = remdups (concat (map snd slices))"

definition cluster_of :: "app_state \<Rightarrow> discovered_workers \<Rightarrow> cluster" where
  "cluster_of st disc = \<lparr>cl_registry = app_registry st, cl_index = rt_index (app_router st), cl_discovered = disc\<rparr>"

definition watch_event_step ::
  "watch_event \<Rightarrow> slice_map \<times> app_state \<times> discovered_workers \<Rightarrow> slice_map \<times> app_state \<times> discovered_workers" where
  "watch_event_step ev sd =
     (let (slices, st, disc) = sd;
          slices = update_slices ev slices;
          ((removed, added), c) = reconcile (desired_of slices) (cluster_of st disc);
          rt = (app_router st)\<lparr>rt_index := cl_index c\<rparr>;
          rt = (if removed + added > 0
                then rt\<lparr>rt_inflight := ensure_capacity (length (by_url (cl_discovered c)) + 16) (rt_inflight rt)\<rparr>
                else rt)
      in (slices, st\<lparr>app_registry := cl_registry c, app_router := rt\<rparr>, cl_discovered c))"

text \<open>\<open>watch_once\<close>: the events until the stream ends or fails; the slice map starts empty.\<close>

fun watch_events ::
  "(string + watch_event) list \<Rightarrow> slice_map \<times> app_state \<times> discovered_workers
     \<Rightarrow> (string + unit) \<times> app_state \<times> discovered_workers" where
  "watch_events [] (slices, st, disc) = (Inr (), st, disc)"
| "watch_events (Inl e # evs) (slices, st, disc) = (Inl e, st, disc)"
| "watch_events (Inr ev # evs) sd = watch_events evs (watch_event_step ev sd)"

definition watch_once ::
  "(string + watch_event) list \<Rightarrow> app_state \<times> discovered_workers \<Rightarrow> (string + unit) \<times> app_state \<times> discovered_workers"
  where
  "watch_once evs sd = watch_events evs ([], sd)"

text \<open>The loop of \<open>run_discovery\<close> over successive watches, with the back-off it sleeps.\<close>

fun run_watches ::
  "(string + watch_event) list list \<Rightarrow> duration \<Rightarrow> app_state \<times> discovered_workers
     \<Rightarrow> duration list \<times> app_state \<times> discovered_workers" where
  "run_watches [] backoff sd = ([], sd)"
| "run_watches (w # ws) backoff sd =
     (let (res, sd) = watch_once w sd
      in case res of
           Inr _ \<Rightarrow> run_watches ws (secs 1) sd
         | Inl _ \<Rightarrow> let (sleeps, sd) = run_watches ws (min (backoff * 2) (secs 30)) sd
                    in (backoff # sleeps, sd))"

definition run_discovery ::
  "bool \<Rightarrow> (string + watch_event) list list \<Rightarrow> app_state \<Rightarrow> duration list \<times> app_state \<times> discovered_workers" where
  "run_discovery in_cluster watches st =
     (if in_cluster then run_watches watches (secs 1) (st, \<lparr>by_url = []\<rparr>) else ([], st, \<lparr>by_url = []\<rparr>))"

section \<open>Invariant of the reconciler\<close>

text \<open>A discovered URL names a registered worker of that URL, and no two share one.\<close>

definition cluster_inv :: "cluster \<Rightarrow> bool" where
  "cluster_inv c \<longleftrightarrow> reg_inv (cl_registry c) \<and> index_inv (cl_index c)
     \<and> hm_ok (by_url (cl_discovered c))
     \<and> (\<forall>u i. hm_get (by_url (cl_discovered c)) u = Some i
          \<longrightarrow> (\<exists>w b. reg_status (cl_registry c) i = Some (w, b) \<and> url w = u))"

abbreviation disc_get :: "cluster \<Rightarrow> string \<Rightarrow> worker_id option" where
  "disc_get c u \<equiv> hm_get (by_url (cl_discovered c)) u"

lemma disc_get_inj:
  "cluster_inv c \<Longrightarrow> disc_get c u = Some i \<Longrightarrow> disc_get c v = Some i \<Longrightarrow> u = v"
  unfolding cluster_inv_def by (metis Pair_inject option.inject)

lemma drop_url_spec:
  assumes "cluster_inv c" and "disc_get c u = Some i"
  shows "cluster_inv (drop_url u c)"
    and "disc_get (drop_url u c) v = (if v = u then None else disc_get c v)"
    and "reg_status (cl_registry (drop_url u c)) = (reg_status (cl_registry c))(i := None)"
    and "holds (cl_index (drop_url u c)) w h \<longleftrightarrow> w \<noteq> i \<and> holds (cl_index c) w h"
    and "next_id (cl_registry (drop_url u c)) = next_id (cl_registry c)"
proof -
  have reg: "reg_inv (cl_registry c)" and idx: "index_inv (cl_index c)" and ok: "hm_ok (by_url (cl_discovered c))"
    using assms(1) by (simp_all add: cluster_inv_def)
  have step: "drop_url u c = c\<lparr>cl_discovered := \<lparr>by_url = hm_remove u (by_url (cl_discovered c))\<rparr>,
      cl_index := index_remove_worker i (cl_index c), cl_registry := snd (remove_worker i (cl_registry c))\<rparr>"
    by (simp add: drop_url_def assms(2))
  show get: "disc_get (drop_url u c) v = (if v = u then None else disc_get c v)" for v
    by (simp add: step hashmap_simps)
  show status: "reg_status (cl_registry (drop_url u c)) = (reg_status (cl_registry c))(i := None)"
    using reg.status_remove [OF reg, of i] by (simp add: step)
  show "holds (cl_index (drop_url u c)) w h \<longleftrightarrow> w \<noteq> i \<and> holds (cl_index c) w h"
    using idx.believes_forget [OF idx] by (simp add: step)
  show "next_id (cl_registry (drop_url u c)) = next_id (cl_registry c)"
    by (simp add: step)
  have "\<exists>w b. reg_status (cl_registry (drop_url u c)) j = Some (w, b) \<and> url w = v"
    if "disc_get (drop_url u c) v = Some j" for v j
  proof -
    from that have "disc_get c v = Some j" and "v \<noteq> u" by (auto simp: get split: if_splits)
    then have "j \<noteq> i" using disc_get_inj [OF assms] by blast
    then show ?thesis using assms(1) \<open>disc_get c v = Some j\<close> by (auto simp: status cluster_inv_def)
  qed
  then show "cluster_inv (drop_url u c)"
    using reg.inv_remove [OF reg] idx.inv_forget [OF idx] hm_ok_remove [OF ok] unfolding cluster_inv_def
    by (simp add: step)
qed

lemma add_url_spec:
  assumes "cluster_inv c" and "disc_get c u = None" and "reg_room (cl_registry c)"
  defines "i \<equiv> next_id (cl_registry c)"
  shows "fst (add_url u (n, c)) = n + 1"
    and "cluster_inv (snd (add_url u (n, c)))"
    and "disc_get (snd (add_url u (n, c))) v = (if v = u then Some i else disc_get c v)"
    and "reg_status (cl_registry (snd (add_url u (n, c))))
      = (reg_status (cl_registry c))(i \<mapsto> (\<lparr>wid = i, url = u, wpool = Both\<rparr>, False))"
    and "cl_index (snd (add_url u (n, c))) = cl_index c"
    and "next_id (cl_registry (snd (add_url u (n, c)))) = i + 1"
proof -
  have reg: "reg_inv (cl_registry c)" and ok: "hm_ok (by_url (cl_discovered c))"
    using assms(1) by (simp_all add: cluster_inv_def)
  let ?new = "register_worker u Both (cl_registry c)"
  have fst_new: "fst ?new = i" by (simp add: i_def)
  have step: "add_url u (n, c) = (n + 1, c\<lparr>cl_registry := snd ?new,
      cl_discovered := \<lparr>by_url = hm_insert u i (by_url (cl_discovered c))\<rparr>\<rparr>)"
    using assms(2) by (simp add: add_url_def i_def case_prod_beta)
  have fresh: "reg_status (cl_registry c) i = None"
    using reg.register_fresh [OF reg, of u Both] by (simp add: i_def)
  show "fst (add_url u (n, c)) = n + 1" and "cl_index (snd (add_url u (n, c))) = cl_index c"
    and "next_id (cl_registry (snd (add_url u (n, c)))) = i + 1"
    by (simp_all add: step i_def)
  show get: "disc_get (snd (add_url u (n, c))) v = (if v = u then Some i else disc_get c v)" for v
    by (simp add: step hashmap_simps)
  show status: "reg_status (cl_registry (snd (add_url u (n, c))))
      = (reg_status (cl_registry c))(i \<mapsto> (\<lparr>wid = i, url = u, wpool = Both\<rparr>, False))"
    using reg.status_register [OF reg, of u Both] by (simp add: step i_def)
  have "\<exists>w b. reg_status (cl_registry (snd (add_url u (n, c)))) j = Some (w, b) \<and> url w = v"
    if "disc_get (snd (add_url u (n, c))) v = Some j" for v j
    using that assms(1) fresh unfolding status get cluster_inv_def
    by (fastforce split: if_splits)
  then show "cluster_inv (snd (add_url u (n, c)))"
    using assms(1,3) reg.inv_register [OF reg, of u Both] hm_ok_insert [of u i "by_url (cl_discovered c)"]
    unfolding cluster_inv_def by (simp add: step)
qed

section \<open>A reconciliation\<close>

definition dead_ids :: "string list \<Rightarrow> cluster \<Rightarrow> worker_id set" where
  "dead_ids us c = {i. \<exists>u \<in> set us. disc_get c u = Some i}"

lemma drop_urls_spec:
  assumes "cluster_inv c" and "distinct us" and "\<forall>u \<in> set us. disc_get c u \<noteq> None"
  shows "cluster_inv (fold drop_url us c)
    \<and> (\<forall>v. disc_get (fold drop_url us c) v = (if v \<in> set us then None else disc_get c v))
    \<and> (\<forall>i. reg_status (cl_registry (fold drop_url us c)) i = (if i \<in> dead_ids us c then None else reg_status (cl_registry c) i))
    \<and> (\<forall>w h. holds (cl_index (fold drop_url us c)) w h \<longleftrightarrow> w \<notin> dead_ids us c \<and> holds (cl_index c) w h)
    \<and> next_id (cl_registry (fold drop_url us c)) = next_id (cl_registry c)"
  using assms
proof (induction us arbitrary: c)
  case (Cons u us)
  obtain i where i: "disc_get c u = Some i" using Cons.prems(3) by auto
  note step = drop_url_spec [OF Cons.prems(1) i]
  have here: "disc_get (drop_url u c) v = disc_get c v" if "v \<in> set us" for v
    using that Cons.prems(2) by (auto simp: step(2))
  have "distinct us" and "\<forall>v \<in> set us. disc_get (drop_url u c) v \<noteq> None"
    using Cons.prems(2,3) here by auto
  note IH = Cons.IH [OF step(1) this]
  have dead: "dead_ids (u # us) c = insert i (dead_ids us (drop_url u c))"
    using i here by (auto simp: dead_ids_def)
  show ?case
    unfolding dead fold_Cons comp_apply using IH step(2-5) by simp blast
qed (simp add: dead_ids_def)

text \<open>Adding the missing URLs: \<open>k\<close> of them get the next \<open>k\<close> identifiers, in order.\<close>

lemma add_url_present: "disc_get c u \<noteq> None \<Longrightarrow> add_url u (n, c) = (n, c)"
  by (auto simp: add_url_def)

lemma status_id_less: "reg_inv r \<Longrightarrow> reg_status r i = Some x \<Longrightarrow> i < next_id r"
  using reg_invD(3) [of r i] by (auto simp: reg_status_def)

text \<open>\<open>grown c us c'\<close>: what registering the missing ones of \<open>us\<close> leaves, in \<open>c'\<close>.\<close>

definition missing :: "cluster \<Rightarrow> string list \<Rightarrow> nat" where
  "missing c us = length (filter (\<lambda>u. disc_get c u = None) us)"

definition grown :: "cluster \<Rightarrow> string list \<Rightarrow> cluster \<Rightarrow> bool" where
  "grown c us c' \<longleftrightarrow> cluster_inv c'
    \<and> (\<forall>v. disc_get c' v \<noteq> None \<longleftrightarrow> v \<in> set us \<or> disc_get c v \<noteq> None)
    \<and> (\<forall>v i. disc_get c v = Some i \<longrightarrow> disc_get c' v = Some i)
    \<and> (\<forall>v i. disc_get c' v = Some i \<and> disc_get c v = None \<longrightarrow> next_id (cl_registry c) \<le> i
         \<and> reg_status (cl_registry c') i = Some (\<lparr>wid = i, url = v, wpool = Both\<rparr>, False))
    \<and> (\<forall>i < next_id (cl_registry c). reg_status (cl_registry c') i = reg_status (cl_registry c) i)
    \<and> cl_index c' = cl_index c
    \<and> unat (next_id (cl_registry c')) = unat (next_id (cl_registry c)) + missing c us"

lemma missing_Nil [simp]: "missing c [] = 0"
  by (simp add: missing_def)

lemma missing_Cons: "missing c (u # us) = (if disc_get c u = None then Suc (missing c us) else missing c us)"
  by (simp add: missing_def)

lemma grown_present: "disc_get c u \<noteq> None \<Longrightarrow> grown c us c' \<Longrightarrow> grown c (u # us) c'"
  unfolding grown_def missing_def by auto

lemma grown_add:
  assumes "cluster_inv c" and "disc_get c u = None" and "unat (next_id (cl_registry c)) + 1 < 2 ^ 64"
  shows "grown c [u] (snd (add_url u (n, c)))"
proof -
  have "next_id (cl_registry c) \<noteq> - 1" using assms(3) by (auto simp: unat_max_u64)
  then have room: "reg_room (cl_registry c)" and next_id: "unat (next_id (cl_registry c) + 1) = unat (next_id (cl_registry c)) + 1"
    by (simp_all add: reg_room_def unat_add_one)
  show ?thesis
    using assms(2) add_url_spec [OF assms(1,2) room] next_id by (auto simp: grown_def missing_def)
qed

lemma grown_trans:
  assumes "grown c [u] c1" and "grown c1 us c'" and "disc_get c u = None" and "u \<notin> set us"
  shows "grown c (u # us) c'"
proof -
  have below: "i < next_id (cl_registry c1)" if "i < next_id (cl_registry c)" for i
    using that assms(1) by (simp add: grown_def word_less_nat_alt)
  have old: "disc_get c v = None \<longleftrightarrow> disc_get c1 v = None" if "v \<noteq> u" for v
    using assms(1) that unfolding grown_def by (metis empty_iff empty_set insert_iff list.set(2))
  have same: "missing c us = missing c1 us"
  proof -
    have "disc_get c1 v = None \<longleftrightarrow> disc_get c v = None" if "v \<in> set us" for v
      using old [of v] assms(4) that by metis
    then have "filter (\<lambda>v. disc_get c v = None) us = filter (\<lambda>v. disc_get c1 v = None) us"
      by (intro filter_cong) simp_all
    then show ?thesis by (simp add: missing_def)
  qed
  have fresh: "next_id (cl_registry c) \<le> i
      \<and> reg_status (cl_registry c') i = Some (\<lparr>wid = i, url = v, wpool = Both\<rparr>, False)"
    if get: "disc_get c' v = Some i" "disc_get c v = None" for v i
  proof (cases "disc_get c1 v")
    case None
    then have "next_id (cl_registry c1) \<le> i
        \<and> reg_status (cl_registry c') i = Some (\<lparr>wid = i, url = v, wpool = Both\<rparr>, False)"
      using assms(2) get(1) unfolding grown_def by blast
    moreover have "next_id (cl_registry c) \<le> next_id (cl_registry c1)"
      using assms(1) by (simp add: grown_def word_le_nat_alt)
    ultimately show ?thesis by auto
  next
    case (Some k)
    then have "i = k" using assms(2) get(1) by (auto simp: grown_def)
    then have here: "next_id (cl_registry c) \<le> i"
      "reg_status (cl_registry c1) i = Some (\<lparr>wid = i, url = v, wpool = Both\<rparr>, False)"
      using assms(1) Some get(2) by (auto simp: grown_def)
    moreover from this have "i < next_id (cl_registry c1)"
      using assms(1) status_id_less [of "cl_registry c1" i] by (auto simp: grown_def cluster_inv_def)
    ultimately show ?thesis using assms(2) by (simp add: grown_def)
  qed
  show ?thesis
    using assms fresh below same unfolding grown_def by (simp add: missing_def) blast
qed

lemma add_urls_spec:
  assumes "cluster_inv c" and "distinct us" and "unat (next_id (cl_registry c)) + missing c us < 2 ^ 64"
  shows "fst (fold add_url us (n, c)) = n + missing c us \<and> grown c us (snd (fold add_url us (n, c)))"
  using assms
proof (induction us arbitrary: n c)
  case Nil
  then show ?case by (auto simp: grown_def missing_def)
next
  case (Cons u us)
  show ?case
  proof (cases "disc_get c u = None")
    case False
    then show ?thesis
      using Cons.IH [of c n] Cons.prems grown_present [OF False] False by (simp add: add_url_present [OF False] missing_Cons)
  next
    case True
    let ?c = "snd (add_url u (n, c))"
    have "unat (next_id (cl_registry c)) + 1 < 2 ^ 64" using Cons.prems(3) True by (simp add: missing_Cons)
    note one = grown_add [OF Cons.prems(1) True this, of n]
    have pair: "add_url u (n, c) = (n + 1, ?c)"
      using True by (simp add: add_url_def case_prod_beta)
    have "missing ?c us = missing c us"
      unfolding missing_def using one Cons.prems(2)
      by (intro arg_cong [of _ _ length] filter_cong) (auto simp: grown_def)
    moreover have "cluster_inv ?c" and "unat (next_id (cl_registry ?c)) = unat (next_id (cl_registry c)) + 1"
      using one True by (simp_all add: grown_def missing_Cons)
    ultimately have counted: "fst (fold add_url us (n + 1, ?c)) = n + 1 + missing c us"
      and rest: "grown ?c us (snd (fold add_url us (n + 1, ?c)))"
      using Cons.IH [of ?c "n + 1"] Cons.prems True by (simp_all add: missing_Cons)
    have run: "fold add_url (u # us) (n, c) = fold add_url us (n + 1, ?c)"
      unfolding fold_simps(2) using pair by (rule arg_cong)
    have "u \<notin> set us" using Cons.prems(2) by simp
    from grown_trans [OF one rest True this] show ?thesis
      unfolding run missing_Cons using counted True by (simp only: if_True) simp
  qed
qed

text \<open>The two phases of a reconciliation: \<open>c1\<close> is the cluster after the removals.\<close>

lemma reconcile_phases:
  assumes "cluster_inv c" and "distinct desired"
    and "unat (next_id (cl_registry c)) + length desired < 2 ^ 64"
    and "reconcile desired c = ((removed, added), c')"
  obtains c1 where "grown c1 desired c'" and "added = missing c1 desired"
    and "removed = card {u. disc_get c u \<noteq> None \<and> u \<notin> set desired}"
    and "\<forall>v. disc_get c1 v = (if v \<in> set desired then disc_get c v else None)"
    and "\<forall>i. reg_status (cl_registry c1) i
          = (if \<exists>u. disc_get c u = Some i \<and> u \<notin> set desired then None else reg_status (cl_registry c) i)"
    and "\<forall>w h. holds (cl_index c1) w h \<longleftrightarrow> holds (cl_index c) w h \<and> \<not> (\<exists>u. disc_get c u = Some w \<and> u \<notin> set desired)"
    and "next_id (cl_registry c1) = next_id (cl_registry c)"
proof -
  define gone where "gone = filter (\<lambda>u. u \<notin> set desired) (map fst (by_url (cl_discovered c)))"
  define c1 where "c1 = fold drop_url gone c"
  have key: "u \<in> set (map fst (by_url (cl_discovered c))) \<longleftrightarrow> disc_get c u \<noteq> None" for u
    by (simp add: hm_get_None)
  have gone: "u \<in> set gone \<longleftrightarrow> disc_get c u \<noteq> None \<and> u \<notin> set desired" for u
    unfolding gone_def set_filter mem_Collect_eq key ..
  have dist: "distinct gone" using assms(1) by (simp add: gone_def cluster_inv_def)
  moreover have "\<forall>u \<in> set gone. disc_get c u \<noteq> None" using gone by blast
  ultimately have drop: "cluster_inv c1"
    "\<And>v. disc_get c1 v = (if v \<in> set gone then None else disc_get c v)"
    "\<And>i. reg_status (cl_registry c1) i = (if i \<in> dead_ids gone c then None else reg_status (cl_registry c) i)"
    "\<And>w h. holds (cl_index c1) w h \<longleftrightarrow> w \<notin> dead_ids gone c \<and> holds (cl_index c) w h"
    "next_id (cl_registry c1) = next_id (cl_registry c)"
    using drop_urls_spec [OF assms(1)] unfolding c1_def by blast+
  have dead: "i \<in> dead_ids gone c \<longleftrightarrow> (\<exists>u. disc_get c u = Some i \<and> u \<notin> set desired)" for i
    using gone by (auto simp: dead_ids_def)
  have run: "c' = snd (fold add_url desired (0, c1))" "added = fst (fold add_url desired (0, c1))" "removed = length gone"
    using assms(4) by (simp_all add: reconcile_def Let_def case_prod_beta gone_def c1_def)
  have "unat (next_id (cl_registry c1)) + missing c1 desired < 2 ^ 64"
    using assms(3) length_filter_le [of "\<lambda>u. disc_get c1 u = None" desired] unfolding drop(5) missing_def by linarith
  note add = add_urls_spec [OF drop(1) assms(2) this, of 0, folded run(1,2)]
  have "set gone = {u. disc_get c u \<noteq> None \<and> u \<notin> set desired}" using gone by blast
  then have removed: "removed = card {u. disc_get c u \<noteq> None \<and> u \<notin> set desired}"
    using distinct_card [OF dist] run(3) by simp
  show thesis
    by (rule that [of c1]) (use removed add drop(2-5) gone dead in auto)
qed

lemma reconcile_spec:
  assumes "cluster_inv c" and "distinct desired"
    and "unat (next_id (cl_registry c)) + length desired < 2 ^ 64"
    and "reconcile desired c = ((removed, added), c')"
  shows "cluster_inv c'"
    and "disc_get c' u \<noteq> None \<longleftrightarrow> u \<in> set desired"
    and "removed = card {u. disc_get c u \<noteq> None \<and> u \<notin> set desired}"
    and "added = card {u \<in> set desired. disc_get c u = None}"
    and "disc_get c u = Some i \<Longrightarrow> u \<in> set desired \<Longrightarrow> disc_get c' u = Some i"
    and "disc_get c u = None \<Longrightarrow> disc_get c' u = Some i \<Longrightarrow> next_id (cl_registry c) \<le> i
          \<and> reg_status (cl_registry c') i = Some (\<lparr>wid = i, url = u, wpool = Both\<rparr>, False)"
    and "i < next_id (cl_registry c) \<Longrightarrow> reg_status (cl_registry c') i
          = (if \<exists>u. disc_get c u = Some i \<and> u \<notin> set desired then None else reg_status (cl_registry c) i)"
    and "holds (cl_index c') i h \<longleftrightarrow> holds (cl_index c) i h \<and> \<not> (\<exists>u. disc_get c u = Some i \<and> u \<notin> set desired)"
    and "unat (next_id (cl_registry c')) = unat (next_id (cl_registry c)) + added"
proof -
  obtain c1 where grown: "grown c1 desired c'" and added: "added = missing c1 desired"
    and removed: "removed = card {u. disc_get c u \<noteq> None \<and> u \<notin> set desired}"
    and get: "\<forall>v. disc_get c1 v = (if v \<in> set desired then disc_get c v else None)"
    and status: "\<forall>i. reg_status (cl_registry c1) i
          = (if \<exists>u. disc_get c u = Some i \<and> u \<notin> set desired then None else reg_status (cl_registry c) i)"
    and held: "\<forall>w h. holds (cl_index c1) w h \<longleftrightarrow> holds (cl_index c) w h \<and> \<not> (\<exists>u. disc_get c u = Some w \<and> u \<notin> set desired)"
    and next_id: "next_id (cl_registry c1) = next_id (cl_registry c)"
    by (rule reconcile_phases [OF assms])
  show "cluster_inv c'" using grown by (simp add: grown_def)
  show "disc_get c' u \<noteq> None \<longleftrightarrow> u \<in> set desired"
    using grown spec [OF get, of u] by (auto simp: grown_def)
  show "removed = card {u. disc_get c u \<noteq> None \<and> u \<notin> set desired}" by (rule removed)
  have "distinct (filter (\<lambda>u. disc_get c1 u = None) desired)" using assms(2) by simp
  moreover have "set (filter (\<lambda>u. disc_get c1 u = None) desired) = {u \<in> set desired. disc_get c u = None}"
    using get by auto
  ultimately show "added = card {u \<in> set desired. disc_get c u = None}"
    using distinct_card added unfolding missing_def by metis
  show "disc_get c u = Some i \<Longrightarrow> u \<in> set desired \<Longrightarrow> disc_get c' u = Some i"
    using grown spec [OF get, of u] by (simp add: grown_def)
  show "next_id (cl_registry c) \<le> i
      \<and> reg_status (cl_registry c') i = Some (\<lparr>wid = i, url = u, wpool = Both\<rparr>, False)"
    if "disc_get c u = None" and "disc_get c' u = Some i"
  proof -
    have "disc_get c1 u = None" using get that(1) by simp
    then show ?thesis using grown that(2) unfolding grown_def next_id by blast
  qed
  show "i < next_id (cl_registry c) \<Longrightarrow> reg_status (cl_registry c') i
      = (if \<exists>u. disc_get c u = Some i \<and> u \<notin> set desired then None else reg_status (cl_registry c) i)"
    using grown spec [OF status, of i] next_id by (simp add: grown_def)
  show "holds (cl_index c') i h \<longleftrightarrow> holds (cl_index c) i h \<and> \<not> (\<exists>u. disc_get c u = Some i \<and> u \<notin> set desired)"
    using grown spec [OF spec [OF held], of i h] by (simp add: grown_def)
  show "unat (next_id (cl_registry c')) = unat (next_id (cl_registry c)) + added"
    using grown added next_id by (simp add: grown_def)
qed

text \<open>Discovery never makes a worker healthy: new ones start down, the others keep their state.\<close>

lemma drop_url_healthy: "is_healthy (cl_registry (drop_url u c)) i \<Longrightarrow> is_healthy (cl_registry c) i"
  by (auto simp: drop_url_def is_healthy_def remove_worker_def hashmap_simps split: option.splits if_splits)

lemma add_url_healthy: "is_healthy (cl_registry (snd (add_url u nc))) i \<Longrightarrow> is_healthy (cl_registry (snd nc)) i"
  by (auto simp: add_url_def is_healthy_def register_worker_def Let_def hashmap_simps
      split: prod.splits option.splits if_splits)

lemma reconcile_healthy:
  assumes "is_healthy (cl_registry (snd (reconcile desired c))) i"
  shows "is_healthy (cl_registry c) i"
proof -
  have drop: "is_healthy (cl_registry (fold drop_url us c)) i \<Longrightarrow> is_healthy (cl_registry c) i" for us c
    by (induction us arbitrary: c) (auto dest: drop_url_healthy)
  have add: "is_healthy (cl_registry (snd (fold add_url us nc))) i \<Longrightarrow> is_healthy (cl_registry (snd nc)) i" for us nc
    by (induction us arbitrary: nc) (simp, metis add_url_healthy fold_simps(2))
  obtain gone where "cl_registry (snd (reconcile desired c)) = cl_registry (snd (fold add_url desired (0, fold drop_url gone c)))"
    by (simp add: reconcile_def Let_def case_prod_beta)
  then have "is_healthy (cl_registry (snd (0 :: nat, fold drop_url gone c))) i"
    using assms add [of desired "(0, fold drop_url gone c)"] by simp
  then show ?thesis using drop [of gone c] by simp
qed

lemma disc_id_less: "cluster_inv c \<Longrightarrow> disc_get c u = Some i \<Longrightarrow> i < next_id (cl_registry c)"
  using reg_invD(3) [of "cl_registry c" i] by (auto simp: cluster_inv_def reg_status_def)

section \<open>Properties\<close>

text \<open>
  C18: one reconciliation. Afterwards the discovered workers are exactly the desired URLs, and the
  counts returned are those of the URLs gone and new. A worker whose URL is gone is out of the
  registry and holds no block in the index; a worker whose URL stays keeps its identifier, health
  and credits; a new URL gets a fresh identifier and starts unhealthy; a worker discovery does not
  own, such as one of the static list, is never touched.
\<close>

theorem reconcile_tracks_desired:
  assumes "cluster_inv c" and "distinct desired"
    and "unat (next_id (cl_registry c)) + length desired < 2 ^ 64"
    and "reconcile desired c = ((removed, added), c')"
  shows "cluster_inv c' \<and> (\<forall>u. disc_get c' u \<noteq> None \<longleftrightarrow> u \<in> set desired)
    \<and> removed = card {u. disc_get c u \<noteq> None \<and> u \<notin> set desired}
    \<and> added = card {u \<in> set desired. disc_get c u = None}
    \<and> (\<forall>u i. disc_get c u = Some i \<and> u \<notin> set desired
         \<longrightarrow> get_worker (cl_registry c') i = None \<and> (\<forall>h. \<not> holds (cl_index c') i h))
    \<and> (\<forall>u i h. disc_get c u = Some i \<and> u \<in> set desired
         \<longrightarrow> disc_get c' u = Some i \<and> reg_status (cl_registry c') i = reg_status (cl_registry c) i
             \<and> holds (cl_index c') i h = holds (cl_index c) i h)
    \<and> (\<forall>u i. disc_get c u = None \<and> disc_get c' u = Some i
         \<longrightarrow> reg_status (cl_registry c) i = None \<and> \<not> is_healthy (cl_registry c') i)
    \<and> (\<forall>i x h. reg_status (cl_registry c) i = Some x \<and> (\<forall>u. disc_get c u \<noteq> Some i)
         \<longrightarrow> reg_status (cl_registry c') i = Some x \<and> holds (cl_index c') i h = holds (cl_index c) i h)"
proof -
  note spec = reconcile_spec [OF assms]
  have reg: "reg_inv (cl_registry c)" using assms(1) by (simp add: cluster_inv_def)
  have one: "(\<exists>v. disc_get c v = Some i \<and> v \<notin> set desired) \<longleftrightarrow> u \<notin> set desired" if "disc_get c u = Some i" for u i
    using disc_get_inj [OF assms(1) that] that by blast
  have "get_worker (cl_registry c') i = None \<and> (\<forall>h. \<not> holds (cl_index c') i h)"
    if "disc_get c u = Some i" and "u \<notin> set desired" for u i
    using spec(7) [OF disc_id_less [OF assms(1) that(1)]] spec(8) [of i] one [OF that(1)] that(2)
    by (auto simp: get_worker_def reg_status_def)
  moreover have "disc_get c' u = Some i \<and> reg_status (cl_registry c') i = reg_status (cl_registry c) i
      \<and> holds (cl_index c') i h = holds (cl_index c) i h" if "disc_get c u = Some i" and "u \<in> set desired" for u i h
    using spec(5) [OF that] spec(7) [OF disc_id_less [OF assms(1) that(1)]] spec(8) [of i h] one [OF that(1)] that(2)
    by simp
  moreover have "reg_status (cl_registry c) i = None \<and> \<not> is_healthy (cl_registry c') i"
    if "disc_get c u = None" and "disc_get c' u = Some i" for u i
    using spec(6) [OF that] status_id_less [OF reg, of i]
    by (cases "reg_status (cl_registry c) i") (auto simp: is_healthy_status)
  moreover have "reg_status (cl_registry c') i = Some x \<and> holds (cl_index c') i h = holds (cl_index c) i h"
    if "reg_status (cl_registry c) i = Some x" and "\<forall>u. disc_get c u \<noteq> Some i" for i x h
    using spec(7) [OF status_id_less [OF reg that(1)]] spec(8) [of i h] that by simp
  ultimately show ?thesis using spec(1-4) by blast
qed

definition sample_cluster :: cluster where
  "sample_cluster = \<lparr>cl_registry = from_config two_workers, cl_index = index_new, cl_discovered = \<lparr>by_url = []\<rparr>\<rparr>"

lemma sample_cluster_inv: "cluster_inv sample_cluster"
  using reg_inv_from_config [of two_workers]
  by (simp add: cluster_inv_def sample_cluster_def index_inv_new hashmap_simps two_workers_def)

lemma sample_cluster_next_id [simp]: "next_id (cl_registry sample_cluster) = 2"
  by (simp add: sample_cluster_def from_config_def two_workers_def)

theorem reconcile_tracks_desired_witness:
  "\<exists>c'. reconcile [''http://10.0.0.1:8001''] sample_cluster = ((0, 1), c')
     \<and> cluster_inv c' \<and> disc_get c' ''http://10.0.0.1:8001'' \<noteq> None"
proof -
  obtain removed added c' where run: "reconcile [''http://10.0.0.1:8001''] sample_cluster = ((removed, added), c')"
    by (metis surj_pair)
  have none: "disc_get sample_cluster u = None" for u
    by (simp add: sample_cluster_def hashmap_simps)
  show ?thesis
    using reconcile_tracks_desired [OF sample_cluster_inv _ _ run] run by (auto simp: none)
qed

section \<open>Watching\<close>

lemma watch_event_step_cluster:
  assumes "watch_event_step ev (slices, st, disc) = (slices', st', disc')"
  obtains removed added c where "slices' = update_slices ev slices"
    and "reconcile (desired_of slices') (cluster_of st disc) = ((removed, added), c)"
    and "app_registry st' = cl_registry c" and "rt_index (app_router st') = cl_index c" and "disc' = cl_discovered c"
    and "rt_inflight (app_router st') = (if removed + added > 0
          then ensure_capacity (length (by_url disc') + 16) (rt_inflight (app_router st)) else rt_inflight (app_router st))"
    and "cluster_of st' disc' = c" and "app_config st' = app_config st" and "rt_policy (app_router st') = rt_policy (app_router st)"
    and "block_size (app_router st') = block_size (app_router st)"
proof -
  obtain removed added c where rec: "reconcile (desired_of (update_slices ev slices)) (cluster_of st disc) = ((removed, added), c)"
    by (metis surj_pair)
  show thesis
    by (rule that [of removed added c]) (use assms rec in \<open>auto simp: watch_event_step_def Let_def cluster_of_def\<close>)
qed

lemma set_desired_of: "hm_ok slices \<Longrightarrow> u \<in> set (desired_of slices) \<longleftrightarrow> (\<exists>n us. hm_get slices n = Some us \<and> u \<in> set us)"
  by (force simp: desired_of_def hm_get_eq_Some)

lemma hm_ok_update_slices: "hm_ok slices \<Longrightarrow> hm_ok (update_slices ev slices)"
  by (cases ev) (simp_all add: update_slices_def hm_ok_insert hm_ok_remove)

fun event_slice :: "watch_event \<Rightarrow> string option" where
  "event_slice (InitApply s) = Some (slice_name s)"
| "event_slice (Apply s) = Some (slice_name s)"
| "event_slice (Delete s) = Some (slice_name s)"
| "event_slice _ = None"

lemma update_other_slice:
  "event_slice ev \<noteq> Some n \<Longrightarrow> hm_get (update_slices ev slices) n = hm_get slices n"
  by (cases ev) (auto simp: update_slices_def hashmap_simps)

text \<open>
  C29: one watch event. The discovered workers become exactly the URLs advertised by the slices
  known after the event, and an event for one slice never removes a worker that another known
  slice advertises: it keeps its identifier, its health and its credits.
\<close>

theorem watch_event_tracks_slices:
  assumes "cluster_inv (cluster_of st disc)" and "hm_ok slices"
    and "watch_event_step ev (slices, st, disc) = (slices', st', disc')"
    and "unat (next_id (app_registry st)) + length (desired_of slices') < 2 ^ 64"
  shows "cluster_inv (cluster_of st' disc') \<and> hm_ok slices'
    \<and> (\<forall>u. hm_get (by_url disc') u \<noteq> None \<longleftrightarrow> (\<exists>n us. hm_get slices' n = Some us \<and> u \<in> set us))
    \<and> (\<forall>n us u i h. event_slice ev \<noteq> Some n \<and> hm_get slices n = Some us \<and> u \<in> set us \<and> hm_get (by_url disc) u = Some i
         \<longrightarrow> hm_get (by_url disc') u = Some i \<and> reg_status (app_registry st') i = reg_status (app_registry st) i
             \<and> holds (rt_index (app_router st')) i h = holds (rt_index (app_router st)) i h)"
proof -
  from watch_event_step_cluster [OF assms(3)] obtain removed added c
    where sl: "slices' = update_slices ev slices"
      and rec: "reconcile (desired_of slices') (cluster_of st disc) = ((removed, added), c)"
      and c: "cluster_of st' disc' = c" .
  have ok: "hm_ok slices'" unfolding sl by (rule hm_ok_update_slices [OF assms(2)])
  have room: "unat (next_id (cl_registry (cluster_of st disc))) + length (desired_of slices') < 2 ^ 64"
    using assms(4) by (simp add: cluster_of_def)
  have "distinct (desired_of slices')" by (simp add: desired_of_def)
  note spec = reconcile_spec [OF assms(1) this room rec]
  have keep: "hm_get (by_url disc') u = Some i \<and> reg_status (app_registry st') i = reg_status (app_registry st) i
      \<and> holds (rt_index (app_router st')) i h = holds (rt_index (app_router st)) i h"
    if "event_slice ev \<noteq> Some n" "hm_get slices n = Some us" "u \<in> set us" "hm_get (by_url disc) u = Some i" for n us u i h
  proof -
    have "u \<in> set (desired_of slices')"
      unfolding set_desired_of [OF ok] using update_other_slice [OF that(1), of slices] that(2,3) sl by auto
    moreover have "disc_get (cluster_of st disc) u = Some i"
      using that(4) by (simp add: cluster_of_def)
    moreover from this have "\<not> (\<exists>v. disc_get (cluster_of st disc) v = Some i \<and> v \<notin> set (desired_of slices'))"
      using disc_get_inj [OF assms(1)] \<open>u \<in> set (desired_of slices')\<close> by blast
    ultimately have "disc_get c u = Some i" and "reg_status (cl_registry c) i = reg_status (cl_registry (cluster_of st disc)) i"
      and "holds (cl_index c) i h = holds (cl_index (cluster_of st disc)) i h"
      using spec(5) spec(7) [OF disc_id_less [OF assms(1)]] spec(8) [of i h] by auto
    then show ?thesis using c by (auto simp: cluster_of_def)
  qed
  have "hm_get (by_url disc') u \<noteq> None \<longleftrightarrow> (\<exists>n us. hm_get slices' n = Some us \<and> u \<in> set us)" for u
    using spec(2) [of u] c unfolding set_desired_of [OF ok] by (auto simp: cluster_of_def)
  then show ?thesis using spec(1) c ok keep by blast
qed

definition sample_slice :: "string \<Rightarrow> string \<Rightarrow> endpoint_slice" where
  "sample_slice n ip = \<lparr>slice_name = n, slice_ports = Some [Some 8001],
     endpoints = [\<lparr>addresses = [ip], conditions = Some (Some True)\<rparr>]\<rparr>"

lemma sample_slice_name [simp]: "slice_name (sample_slice n ip) = n"
  by (simp add: sample_slice_def)

lemma sample_slice_urls: "endpoint_urls (sample_slice n ip) = [''http://'' @ ip @ '':8001'']"
proof -
  have "show_nat 8001 = ''8001''"
    by (simp add: show_nat.simps [of 8001] show_nat.simps [of 800] show_nat.simps [of 80] show_nat.simps [of 8] digit_simps)
  then show ?thesis
    by (simp add: endpoint_urls_def sample_slice_def endpoint_is_ready_def slice_port_def show_int_def)
qed

lemma sample_app_cluster_inv: "cluster_inv (cluster_of (sample_app p) \<lparr>by_url = []\<rparr>)"
  using sample_app_inv [of p]
  by (simp add: cluster_inv_def cluster_of_def app_inv_def router_inv_def hashmap_simps)

lemma sample_app_next_id: "next_id (app_registry (sample_app p)) = 2"
  by (simp add: sample_app_def sample_registry_def two_workers_def from_config_def numeral_2_eq_2)

theorem watch_event_tracks_slices_witness:
  "\<exists>slices' st' disc'. watch_event_step (Apply (sample_slice ''s1'' ''10.0.0.1'')) ([], sample_app CacheAware, \<lparr>by_url = []\<rparr>)
       = (slices', st', disc') \<and> hm_get (by_url disc') ''http://10.0.0.1:8001'' \<noteq> None"
proof -
  obtain slices' st' disc' where run: "watch_event_step (Apply (sample_slice ''s1'' ''10.0.0.1'')) ([], sample_app CacheAware, \<lparr>by_url = []\<rparr>)
       = (slices', st', disc')" by (metis surj_pair)
  have "slices' = update_slices (Apply (sample_slice ''s1'' ''10.0.0.1'')) []"
    by (rule watch_event_step_cluster [OF run])
  then have sl: "slices' = [(''s1'', [''http://10.0.0.1:8001''])]"
    by (simp add: update_slices_def sample_slice_urls hm_insert_def)
  show ?thesis
    using watch_event_tracks_slices [OF sample_app_cluster_inv _ run] run
    by (auto simp: sl sample_app_next_id desired_of_def hm_get_def)
qed

section \<open>Retrying\<close>

lemma watch_events_error: "isl (fst (watch_events evs sd)) \<longleftrightarrow> list_ex isl evs"
proof (induction evs arbitrary: sd)
  case Nil
  then show ?case by (cases sd) simp
next
  case (Cons ev evs)
  then show ?case by (cases ev; cases sd) simp_all
qed

lemma run_watches_Cons:
  "list_ex isl w \<Longrightarrow> fst (run_watches (w # ws) b sd)
     = b # fst (run_watches ws (min (b * 2) (secs 30)) (snd (watch_once w sd)))"
  "\<not> list_ex isl w \<Longrightarrow> fst (run_watches (w # ws) b sd) = fst (run_watches ws (secs 1) (snd (watch_once w sd)))"
  using watch_events_error [of w "([], sd)"]
  by (cases "watch_once w sd"; cases "fst (watch_once w sd)"; simp add: watch_once_def case_prod_beta Let_def)+

text \<open>
  The back-off: while watches keep failing the loop sleeps one second, then twice as long each
  time up to thirty; a watch that ends normally starts the schedule again.
\<close>

lemma backoff_doubles_to_cap:
  assumes "list_all (list_ex isl) ws" and "b \<le> secs 30"
  shows "fst (run_watches (ws @ ok # rest) b sd) = map (\<lambda>i. min (b * 2 ^ i) (secs 30)) [0..<length ws]
    @ fst (run_watches (ok # rest) (min (b * 2 ^ length ws) (secs 30)) (snd (run_watches ws b sd)))"
  using assms
proof (induction ws arbitrary: b sd)
  case Nil
  then show ?case by (simp add: min_def)
next
  case (Cons w ws)
  let ?sd = "snd (watch_once w sd)" and ?b = "min (b * 2) (secs 30)"
  have dbl: "min (?b * 2 ^ i) (secs 30) = min (b * 2 ^ Suc i) (secs 30)" for i
  proof (cases "b * 2 \<le> secs 30")
    case False
    have le: "secs 30 \<le> secs 30 * 2 ^ i" by simp
    have "b * 2 * 1 \<le> b * 2 * 2 ^ i" by (rule mult_le_mono) simp_all
    with False have "secs 30 \<le> b * 2 * 2 ^ i" by linarith
    then have "secs 30 \<le> b * 2 ^ Suc i" by (simp only: power_Suc mult.assoc)
    moreover have "?b = secs 30" using False by simp
    ultimately show ?thesis using le by (simp only: min_absorb2)
  qed (simp add: min_def mult.assoc)
  have state: "snd (run_watches (w # ws) b sd) = snd (run_watches ws ?b ?sd)"
    using watch_events_error [of w "([], sd)"] Cons.prems(1)
    by (cases "watch_once w sd"; cases "fst (watch_once w sd)") (simp_all add: watch_once_def case_prod_beta Let_def)
  have IH: "fst (run_watches (ws @ ok # rest) ?b ?sd) = map (\<lambda>i. min (b * 2 ^ Suc i) (secs 30)) [0..<length ws]
      @ fst (run_watches (ok # rest) (min (b * 2 ^ length (w # ws)) (secs 30)) (snd (run_watches ws ?b ?sd)))"
  proof -
    have "list_all (list_ex isl) ws" using Cons.prems(1) by simp
    from Cons.IH [OF this min.cobounded2, of "b * 2" ?sd] show ?thesis by (simp only: dbl list.size add_0_right add_Suc_right)
  qed
  have fails: "list_ex isl w" using Cons.prems(1) by simp
  have "map (\<lambda>i. min (b * 2 ^ i) (secs 30)) [0..<length (w # ws)]
      = b # map (\<lambda>i. min (b * 2 ^ Suc i) (secs 30)) [0..<length ws]"
    using Cons.prems(2) by (simp add: map_upt_Suc min_def del: upt_Suc)
  then show ?case
    unfolding append_Cons run_watches_Cons(1) [OF fails] state IH by simp
qed

section \<open>Restarts and capacity\<close>

text \<open>
  C38: a watch that is restarted after a failure begins with an empty slice map and reconciles on
  the \<open>Init\<close> marker before any slice has been listed again: every discovered worker is removed
  from the registry and purged from the index, whatever the cluster looks like.
\<close>

theorem watch_restart_drops_all_discovered:
  assumes "cluster_inv (cluster_of st disc)" and "unat (next_id (app_registry st)) < 2 ^ 64"
    and "watch_once [Inr Init, Inl e] (st, disc) = (res, st', disc')"
  shows "res = Inl e \<and> (\<forall>u. hm_get (by_url disc') u = None)
    \<and> (\<forall>u i h. hm_get (by_url disc) u = Some i
         \<longrightarrow> get_worker (app_registry st') i = None \<and> \<not> holds (rt_index (app_router st')) i h)"
proof -
  obtain sl st1 disc1 where step: "watch_event_step Init ([], st, disc) = (sl, st1, disc1)"
    by (metis surj_pair)
  with assms(3) have eq: "res = Inl e" "st' = st1" "disc' = disc1"
    by (simp_all add: watch_once_def)
  from watch_event_step_cluster [OF step] obtain removed added c where "sl = update_slices Init []"
    and rec0: "reconcile (desired_of sl) (cluster_of st disc) = ((removed, added), c)"
    and c: "app_registry st1 = cl_registry c" "rt_index (app_router st1) = cl_index c" "disc1 = cl_discovered c" .
  then have none: "desired_of sl = []" by (simp add: update_slices_def desired_of_def)
  have rec: "reconcile [] (cluster_of st disc) = ((removed, added), c)"
    using rec0 unfolding none .
  have room: "unat (next_id (cl_registry (cluster_of st disc))) + length ([] :: string list) < 2 ^ 64"
    using assms(2) by (simp add: cluster_of_def)
  note spec = reconcile_spec [OF assms(1) distinct.simps(1) [THEN iffD2, OF TrueI] room rec]
  have "disc_get c u = None" for u using spec(2) [of u] by simp
  moreover have "get_worker (cl_registry c) i = None \<and> \<not> holds (cl_index c) i h"
    if "hm_get (by_url disc) u = Some i" for u i h
  proof -
    have get: "disc_get (cluster_of st disc) u = Some i" using that by (simp add: cluster_of_def)
    then have gone: "\<exists>v. disc_get (cluster_of st disc) v = Some i \<and> v \<notin> set []" by auto
    have "reg_status (cl_registry c) i = None"
      using spec(7) [OF disc_id_less [OF assms(1) get]] unfolding if_P [OF gone] .
    then show ?thesis
      using spec(8) [of i h] gone by (auto simp: get_worker_def reg_status_def)
  qed
  ultimately show ?thesis using c eq by auto
qed

theorem watch_restart_drops_all_discovered_witness:
  "\<exists>st' disc'. watch_once [Inr Init, Inl ''410 Gone''] (sample_app CacheAware, \<lparr>by_url = [(''http://a'', 0)]\<rparr>)
      = (Inl ''410 Gone'', st', disc') \<and> get_worker (app_registry (sample_app CacheAware)) 0 \<noteq> None
      \<and> get_worker (app_registry st') 0 = None"
proof -
  obtain res st' disc' where run: "watch_once [Inr Init, Inl ''410 Gone''] (sample_app CacheAware, \<lparr>by_url = [(''http://a'', 0)]\<rparr>)
      = (res, st', disc')" by (metis surj_pair)
  have "get_worker (sample_registry 2) 0 = Some \<lparr>wid = 0, url = ''http://a'', wpool = Both\<rparr>"
    by code_simp
  then have here: "get_worker (app_registry (sample_app CacheAware)) 0 = Some \<lparr>wid = 0, url = ''http://a'', wpool = Both\<rparr>"
    by (simp add: sample_app_def)
  then have "\<exists>b. reg_status (app_registry (sample_app CacheAware)) 0 = Some (\<lparr>wid = 0, url = ''http://a'', wpool = Both\<rparr>, b)"
    by (auto simp: get_worker_def reg_status_def)
  then have "cluster_inv (cluster_of (sample_app CacheAware) \<lparr>by_url = [(''http://a'', 0)]\<rparr>)"
    using sample_app_inv [of CacheAware]
    by (auto simp: cluster_inv_def cluster_of_def app_inv_def router_inv_def hm_get_def)
  from watch_restart_drops_all_discovered [OF this _ run] show ?thesis
    using run here by (simp add: sample_app_next_id hm_get_def)
qed

text \<open>
  The slice map is not cleared by \<open>Init\<close>, so a slice deleted while the watch was disconnected
  survives the relist: after \<open>Init\<close>, the listing of the remaining slices and \<open>InitDone\<close>, every
  slice that was not listed again is still known, and its workers stay desired.
\<close>

theorem relist_keeps_unlisted_slices:
  assumes "hm_ok slices" and "n \<notin> slice_name ` set listed" and "hm_get slices n = Some us"
  defines "slices' \<equiv> fold update_slices ([Init] @ map InitApply listed @ [InitDone]) slices"
  shows "hm_get slices' n = Some us \<and> set us \<subseteq> set (desired_of slices')"
proof -
  have ok: "hm_ok (fold update_slices evs sl)" if "hm_ok sl" for evs sl
    using that by (induction evs arbitrary: sl) (simp_all add: hm_ok_update_slices)
  have get: "hm_get (fold update_slices evs sl) n = hm_get sl n" if "\<forall>ev \<in> set evs. event_slice ev \<noteq> Some n" for evs sl
    using that by (induction evs arbitrary: sl) (simp_all add: update_other_slice)
  have "\<forall>ev \<in> set ([Init] @ map InitApply listed @ [InitDone]). event_slice ev \<noteq> Some n"
    using assms(2) by auto
  then have "hm_get slices' n = Some us"
    unfolding slices'_def using get assms(3) by metis
  then show ?thesis
    using set_desired_of [of slices'] ok [OF assms(1)] unfolding slices'_def by blast
qed

theorem relist_keeps_unlisted_slices_witness:
  "hm_get (fold update_slices ([Init] @ map InitApply [sample_slice ''s2'' ''10.0.0.2''] @ [InitDone])
     [(''s1'', [''http://10.0.0.1:8001'']), (''s2'', [''http://10.0.0.2:8001''])]) ''s1'' = Some [''http://10.0.0.1:8001'']"
  using relist_keeps_unlisted_slices [of "[(''s1'', [''http://10.0.0.1:8001'']), (''s2'', [''http://10.0.0.2:8001''])]"
      "''s1''" "[sample_slice ''s2'' ''10.0.0.2'']" "[''http://10.0.0.1:8001'']"]
  by (simp add: hm_get_def)

text \<open>
  C36: the in-flight vector is grown to the number of discovered workers plus 16, but identifiers
  are never reused and start after the static workers. With 17 or more workers registered so far
  (static, or discovered and since replaced) and one worker discovered, the new worker lies beyond
  the vector: a request to it is not counted, so it always looks idle.
\<close>

theorem discovered_worker_untracked:
  assumes "cluster_inv (cluster_of st \<lparr>by_url = []\<rparr>)"
    and "17 \<le> unat (next_id (app_registry st))" and "unat (next_id (app_registry st)) + 1 < 2 ^ 64"
    and "length (counts (rt_inflight (app_router st))) \<le> unat (next_id (app_registry st))"
    and "endpoint_urls s = [u]"
    and "watch_event_step (Apply s) ([], st, \<lparr>by_url = []\<rparr>) = (slices', st', disc')"
    and "guard_acquire (next_id (app_registry st)) (rt_inflight (app_router st')) = (g, t)"
  shows "hm_get (by_url disc') u = Some (next_id (app_registry st))
    \<and> inflight_count t (next_id (app_registry st)) = 0"
proof -
  let ?c = "cluster_of st \<lparr>by_url = []\<rparr>" and ?i = "next_id (app_registry st)"
  from watch_event_step_cluster [OF assms(6)] obtain removed added c
    where sl: "slices' = update_slices (Apply s) []"
      and rec0: "reconcile (desired_of slices') ?c = ((removed, added), c)"
      and d: "disc' = cl_discovered c" and fl: "rt_inflight (app_router st') = (if removed + added > 0
          then ensure_capacity (length (by_url disc') + 16) (rt_inflight (app_router st)) else rt_inflight (app_router st))" .
  have desired: "desired_of slices' = [u]"
    by (simp add: sl update_slices_def desired_of_def hm_insert_def assms(5))
  have none: "disc_get ?c v = None" for v by (simp add: cluster_of_def hashmap_simps)
  have "?i \<noteq> - 1" using assms(3) by (auto simp: unat_max_u64)
  then have room: "reg_room (cl_registry ?c)" by (simp add: reg_room_def cluster_of_def)
  have c: "c = snd (add_url u (0, ?c))"
    using rec0 unfolding desired by (simp add: reconcile_def Let_def case_prod_beta cluster_of_def)
  have urls: "by_url disc' = [(u, ?i)]"
    using none [of u] unfolding d c by (simp add: add_url_def case_prod_beta cluster_of_def hm_insert_def hashmap_simps)
  have "\<not> tracked (rt_inflight (app_router st')) ?i"
    using assms(2,4) by (auto simp: fl urls tracked_def not_less)
  then have "t = rt_inflight (app_router st')" and "inflight_count (rt_inflight (app_router st')) ?i = 0"
    using assms(7) by (auto simp: guard_acquire_def Let_def increment_def tracked_def inflight_count_def)
  then show ?thesis by (simp add: urls hm_get_def)
qed

definition crowded_app :: app_state where
  "crowded_app = (sample_app CacheAware)
     \<lparr>app_registry := from_config (replicate 17 (hd two_workers)),
      app_router := (router_new (sample_config CacheAware))\<lparr>rt_inflight := with_capacity 17\<rparr>\<rparr>"

theorem discovered_worker_untracked_witness:
  "\<exists>slices' st' disc' g t.
     watch_event_step (Apply (sample_slice ''s1'' ''10.0.0.1'')) ([], crowded_app, \<lparr>by_url = []\<rparr>) = (slices', st', disc')
     \<and> hm_get (by_url disc') ''http://10.0.0.1:8001'' = Some 17
     \<and> guard_acquire 17 (rt_inflight (app_router st')) = (g, t) \<and> inflight_count t 17 = 0"
proof -
  obtain slices' st' disc' where run: "watch_event_step (Apply (sample_slice ''s1'' ''10.0.0.1'')) ([], crowded_app, \<lparr>by_url = []\<rparr>)
      = (slices', st', disc')" by (metis surj_pair)
  have next_id: "next_id (app_registry crowded_app) = 17"
    by (simp add: crowded_app_def from_config_def)
  have cap: "length (counts (rt_inflight (app_router crowded_app))) = 17"
    by (simp add: crowded_app_def with_capacity_def)
  have "router_inv (router_new (sample_config CacheAware))" by (rule sample_router_inv)
  then have inv: "cluster_inv (cluster_of crowded_app \<lparr>by_url = []\<rparr>)"
    using reg_inv_from_config [of "replicate 17 (hd two_workers)"]
    by (simp add: cluster_inv_def cluster_of_def crowded_app_def router_inv_def hashmap_simps)
  obtain g t where acq: "guard_acquire 17 (rt_inflight (app_router st')) = (g, t)" by fastforce
  show ?thesis
    using discovered_worker_untracked [OF inv _ _ _ _ run, unfolded next_id cap, OF _ _ _ _ acq] run acq
    by (auto simp: sample_slice_urls)
qed

end
