(* ===== verification/Prometheus_Text.thy ===== *)
theory Prometheus_Text
  imports F64
begin

text \<open>
  \<open>crates/router-server/src/prometheus_text.rs\<close>: looking up one metric in a Prometheus text
  exposition. Text is a list of Unicode scalar values; the standard library's \<open>lines\<close>, \<open>trim\<close>
  and \<open>str::parse::<f64>\<close> are written out.
\<close>

section \<open>Strings of the standard library\<close>

definition chr :: "char \<Rightarrow> uchar" where
  "chr c = of_char c"

text \<open>\<open>char::is_whitespace\<close>: the Unicode property White_Space.\<close>

definition is_whitespace :: "uchar \<Rightarrow> bool" where
  "is_whitespace c \<longleftrightarrow> (9 \<le> c \<and> c \<le> 13) \<or> c = 32 \<or> c = 0x85 \<or> c = 0xA0 \<or> c = 0x1680
     \<or> (0x2000 \<le> c \<and> c \<le> 0x200A) \<or> c = 0x2028 \<or> c = 0x2029 \<or> c = 0x202F \<or> c = 0x205F \<or> c = 0x3000"

definition trim :: "ustring \<Rightarrow> ustring" where
  "trim s = rev (dropWhile is_whitespace (rev (dropWhile is_whitespace s)))"

text \<open>\<open>str::lines\<close>: pieces ended by a newline (a carriage return before it dropped), and a last
  piece without newline if it is not empty.\<close>

definition strip_cr :: "ustring \<Rightarrow> ustring" where
  "strip_cr l = (if l \<noteq> [] \<and> last l = 13 then butlast l else l)"

fun lines_from :: "ustring \<Rightarrow> ustring \<Rightarrow> ustring list" where
  "lines_from acc [] = (if acc = [] then [] else [acc])"
| "lines_from acc (c # cs) = (if c = 10 then strip_cr acc # lines_from [] cs else lines_from (acc @ [c]) cs)"

definition lines :: "ustring \<Rightarrow> ustring list" where
  "lines text = lines_from [] text"

section \<open>Parsing numbers\<close>

definition is_digit :: "uchar \<Rightarrow> bool" where
  "is_digit c \<longleftrightarrow> 48 \<le> c \<and> c \<le> 57"

definition digits_val :: "ustring \<Rightarrow> nat" where
  "digits_val ds = foldl (\<lambda>n c. 10 * n + unat (c - 48)) 0 ds"

definition to_lower :: "uchar \<Rightarrow> uchar" where
  "to_lower c = (if 65 \<le> c \<and> c \<le> 90 then c + 32 else c)"

text \<open>A sign, if any: whether it is a minus, and the rest.\<close>

definition parse_sign :: "ustring \<Rightarrow> bool \<times> ustring" where
  "parse_sign s = (case s of
       [] \<Rightarrow> (False, [])
     | c # cs \<Rightarrow> if c = 45 then (True, cs) else if c = 43 then (False, cs) else (False, s))"

text \<open>The exponent part after \<open>e\<close> or \<open>E\<close>; the whole rest must be consumed.\<close>

definition parse_exp :: "ustring \<Rightarrow> int option" where
  "parse_exp s = (case s of
       [] \<Rightarrow> Some 0
     | c # cs \<Rightarrow>
         if to_lower c \<noteq> 101 then None
         else let (neg, ds) = parse_sign cs
              in if ds = [] \<or> \<not> list_all is_digit ds then None
                 else Some (if neg then - int (digits_val ds) else int (digits_val ds)))"

text \<open>\<open>str::parse::<f64>\<close>: the grammar of the standard library, correctly rounded.\<close>

definition parse_f64 :: "ustring \<Rightarrow> f64 option" where
  "parse_f64 s =
     (let (neg, t) = parse_sign s;
          word = map to_lower t
      in if word = ascii ''inf'' \<or> word = ascii ''infinity'' then Some (if neg then NInf else PInf)
         else if word = ascii ''nan'' then Some NaN
         else let whole = takeWhile is_digit t;
                  rest = dropWhile is_digit t;
                  (frac, rest) = (case rest of
                      c # cs \<Rightarrow> if c = 46 then (takeWhile is_digit cs, dropWhile is_digit cs) else ([], rest)
                    | [] \<Rightarrow> ([], []))
              in if whole = [] \<and> frac = [] then None
                 else case parse_exp rest of
                        None \<Rightarrow> None
                      | Some e \<Rightarrow>
                          let v = of_nat (digits_val (whole @ frac)) * 10 powi (e - int (length frac))
                          in Some (f64_round neg (if neg then - v else v)))"

section \<open>\<open>find_metric\<close>\<close>

definition is_sep :: "uchar \<Rightarrow> bool" where
  "is_sep c \<longleftrightarrow> c = 32 \<or> c = 9"

text \<open>One line: skipped, abandoning the whole lookup (the \<open>?\<close> of the code), or a value or not.\<close>

datatype line_result = Skip | Abort | Value f64

definition metric_line :: "ustring \<Rightarrow> ustring \<Rightarrow> line_result" where
  "metric_line name raw =
     (let line = trim raw
      in if line = [] \<or> hd line = 35 then Skip
         else let n = takeWhile (\<lambda>c. \<not> (c = 123 \<or> is_sep c)) line;
                  rest = drop (length n) line
              in if n \<noteq> name then Skip
                 else if \<not> list_ex is_sep rest then Abort
                 else case parse_f64 (rev (takeWhile (\<lambda>c. \<not> is_sep c) (rev rest))) of
                        None \<Rightarrow> Skip
                      | Some v \<Rightarrow> Value v)"

fun metric_values :: "ustring \<Rightarrow> ustring list \<Rightarrow> f64 list \<Rightarrow> f64 list option" where
  "metric_values name [] values = Some values"
| "metric_values name (l # ls) values =
     (case metric_line name l of
        Skip \<Rightarrow> metric_values name ls values
      | Abort \<Rightarrow> None
      | Value v \<Rightarrow> metric_values name ls (values @ [v]))"

text \<open>\<open>Iterator::sum\<close> for \<open>f64\<close> starts at minus zero.\<close>

definition f64_sum :: "f64 list \<Rightarrow> f64" where
  "f64_sum vs = foldl f64_add NZero vs"

definition find_metric :: "ustring \<Rightarrow> ustring \<Rightarrow> f64 option" where
  "find_metric text name =
     (case metric_values name (lines text) [] of
        None \<Rightarrow> None
      | Some values \<Rightarrow>
          if values = [] then None else Some (f64_div (f64_sum values) (f64_of_nat (length values))))"

section \<open>Properties\<close>

definition line_values :: "ustring \<Rightarrow> ustring list \<Rightarrow> f64 list" where
  "line_values name ls = concat (map (\<lambda>l. case metric_line name l of Value v \<Rightarrow> [v] | _ \<Rightarrow> []) ls)"

lemma metric_values_eq:
  "metric_values name ls vs
     = (if \<exists>l \<in> set ls. metric_line name l = Abort then None else Some (vs @ line_values name ls))"
  by (induction ls arbitrary: vs) (auto simp: line_values_def split: line_result.splits)

text \<open>
  The lookup is the mean over the values of all series of the metric, in order, and nothing when
  there is none or when some line consists of the bare metric name.
\<close>

lemma find_metric_mean_or_abort:
  "find_metric text name =
    (if (\<exists>l \<in> set (lines text). metric_line name l = Abort) \<or> line_values name (lines text) = [] then None
     else Some (f64_div (f64_sum (line_values name (lines text))) (f64_of_nat (length (line_values name (lines text))))))"
  by (simp add: find_metric_def metric_values_eq)

lemma rnd_int_value: "\<bar>n\<bar> \<le> 2 ^ 53 \<Longrightarrow> n \<noteq> 0 \<Longrightarrow> f64_round s (of_int n) = Fin (of_int n)"
proof -
  assume n: "\<bar>n\<bar> \<le> 2 ^ 53" "n \<noteq> 0"
  have "\<bar>of_int n :: rat\<bar> = of_int \<bar>n\<bar>" by simp
  also have "\<dots> \<le> of_int (2 ^ 53)" using n(1) by (simp only: of_int_le_iff)
  finally have "\<bar>of_int n :: rat\<bar> \<le> 2 ^ 53" by simp
  moreover have "(2 :: rat) ^ 53 < 2 ^ 1024" by simp
  ultimately have "\<bar>of_int n :: rat\<bar> < 2 ^ 1024" by (rule le_less_trans)
  then have "\<not> 2 ^ 1024 \<le> (of_int n :: rat)" and "\<not> (of_int n :: rat) \<le> - (2 ^ 1024)"
    by (simp_all add: abs_less_iff)
  then show ?thesis
    using n by (simp add: f64_round_def Let_def rnd_exact_int)
qed

text \<open>
  The value taken is the text after the last blank of the line. A sample with a timestamp,
  which the exposition format allows, therefore yields the timestamp: a hit rate of 0.5 stamped
  1700000000 is read as 1700000000.
\<close>

theorem timestamp_read_as_value:
  "metric_line (ascii ''m'') (ascii ''m 0.5 1700000000'') = Value (Fin 1700000000)
    \<and> metric_line (ascii ''m'') (ascii ''m 2'') = Value (Fin 2)
    \<and> metric_line (ascii ''m'') (ascii ''m'') = Abort"
proof -
  have "parse_f64 (ascii ''1700000000'') = Some (f64_round False (of_int 1700000000))"
    and "parse_f64 (ascii ''2'') = Some (f64_round False (of_int 2))"
    by (simp_all add: parse_f64_def parse_sign_def parse_exp_def ascii_def is_digit_def to_lower_def digits_val_def Let_def)
  then have "parse_f64 (ascii ''1700000000'') = Some (Fin 1700000000)" and "parse_f64 (ascii ''2'') = Some (Fin 2)"
    using rnd_int_value [of 1700000000 False] rnd_int_value [of 2 False] by simp_all
  then show ?thesis
    by (simp add: metric_line_def trim_def is_whitespace_def is_sep_def ascii_def Let_def)
qed

section \<open>Samples\<close>

text \<open>A sample of the exposition format without timestamp; \<open>s_text\<close> is a number as text.\<close>

record sample =
  s_name :: ustring
  s_labels :: ustring
  s_text :: ustring
  s_value :: f64

definition valid_name :: "ustring \<Rightarrow> bool" where
  "valid_name n \<longleftrightarrow> n \<noteq> [] \<and> hd n \<noteq> 35 \<and> list_all (\<lambda>c. c \<noteq> 123 \<and> \<not> is_whitespace c) n"

definition valid_sample :: "sample \<Rightarrow> bool" where
  "valid_sample s \<longleftrightarrow> valid_name (s_name s)
     \<and> (s_labels s = [] \<or> hd (s_labels s) = 123 \<and> last (s_labels s) = 125) \<and> 10 \<notin> set (s_labels s)
     \<and> s_text s \<noteq> [] \<and> list_all (\<lambda>c. \<not> is_whitespace c) (s_text s) \<and> parse_f64 (s_text s) = Some (s_value s)"

definition render_sample :: "sample \<Rightarrow> ustring" where
  "render_sample s = s_name s @ s_labels s @ [32] @ s_text s"

definition render :: "sample list \<Rightarrow> ustring" where
  "render samples = concat (map (\<lambda>s. render_sample s @ [10]) samples)"

lemma whitespace_special [simp]: "is_whitespace 10" "is_whitespace 13" "is_whitespace 32" "is_whitespace 9"
  by (simp_all add: is_whitespace_def)

lemma last_not_cr: "l \<noteq> [] \<Longrightarrow> list_all (\<lambda>c. \<not> is_whitespace c) l \<Longrightarrow> last l \<noteq> 13"
  by (metis last_in_set list_all_iff whitespace_special(2))

lemma sep_whitespace: "is_sep c \<Longrightarrow> is_whitespace c"
  by (auto simp: is_sep_def)

lemma trim_id: "l \<noteq> [] \<Longrightarrow> \<not> is_whitespace (hd l) \<Longrightarrow> \<not> is_whitespace (last l) \<Longrightarrow> trim l = l"
proof -
  assume l: "l \<noteq> []" "\<not> is_whitespace (hd l)" "\<not> is_whitespace (last l)"
  have "dropWhile is_whitespace l = l" using l(1,2) by (cases l) auto
  moreover have "dropWhile is_whitespace (rev l) = rev l" using l(1,3) by (cases l rule: rev_cases) auto
  ultimately show ?thesis by (simp add: trim_def)
qed

lemma takeWhile_until: "list_all P xs \<Longrightarrow> ys = [] \<or> \<not> P (hd ys) \<Longrightarrow> takeWhile P (xs @ ys) = xs"
  by (cases ys) (auto simp: list_all_iff takeWhile_append2 [of xs P])

lemma name_of_line:
  assumes "valid_name n" and "rest = [] \<or> hd rest = 123 \<or> is_sep (hd rest)"
  shows "takeWhile (\<lambda>c. \<not> (c = 123 \<or> is_sep c)) (n @ rest) = n"
  by (rule takeWhile_until)
    (use assms sep_whitespace in \<open>auto simp: valid_name_def list_all_iff\<close>)

lemma metric_line_sample:
  assumes "valid_sample s"
  shows "metric_line name (render_sample s) = (if s_name s = name then Value (s_value s) else Skip)"
proof -
  let ?l = "render_sample s" and ?rest = "s_labels s @ [32] @ s_text s"
  have n: "valid_name (s_name s)" and body: "s_text s \<noteq> []" "list_all (\<lambda>c. \<not> is_whitespace c) (s_text s)"
    and val: "parse_f64 (s_text s) = Some (s_value s)"
    using assms by (simp_all add: valid_sample_def)
  have "?l \<noteq> []" and hd: "hd ?l = hd (s_name s)" and "last ?l = last (s_text s)"
    using n body(1) by (auto simp: render_sample_def valid_name_def)
  moreover have "\<not> is_whitespace (hd (s_name s))" and "\<not> is_whitespace (last (s_text s))"
    using n body by (auto simp: valid_name_def list_all_iff)
  ultimately have trim: "trim ?l = ?l" and ne: "?l \<noteq> []" by (simp_all add: trim_id)
  have "?rest = [] \<or> hd ?rest = 123 \<or> is_sep (hd ?rest)"
    using assms by (cases "s_labels s") (auto simp: valid_sample_def is_sep_def)
  then have name: "takeWhile (\<lambda>c. \<not> (c = 123 \<or> is_sep c)) ?l = s_name s"
    unfolding render_sample_def by (rule name_of_line [OF n])
  have drop: "drop (length (s_name s)) ?l = ?rest" by (simp add: render_sample_def)
  have sep: "list_ex is_sep ?rest" by (simp add: is_sep_def)
  have "list_all (\<lambda>c. \<not> is_sep c) (rev (s_text s))"
    using body(2) sep_whitespace by (auto simp: list_all_iff)
  then have "takeWhile (\<lambda>c. \<not> is_sep c) (rev (s_text s) @ 32 # rev (s_labels s)) = rev (s_text s)"
    by (rule takeWhile_until) (simp add: is_sep_def)
  then have last: "rev (takeWhile (\<lambda>c. \<not> is_sep c) (rev ?rest)) = s_text s" by simp
  have "hd ?l \<noteq> 35" using n hd by (simp add: valid_name_def)
  then show ?thesis
    unfolding metric_line_def Let_def trim name drop last using ne sep val by simp
qed

lemma metric_line_bare: "valid_name n \<Longrightarrow> metric_line n n = Abort"
proof -
  assume n: "valid_name n"
  then have "n \<noteq> []" and "\<not> is_whitespace (hd n)" and "\<not> is_whitespace (last n)"
    by (auto simp: valid_name_def list_all_iff)
  then have trim: "trim n = n" by (rule trim_id)
  have name: "takeWhile (\<lambda>c. \<not> (c = 123 \<or> is_sep c)) n = n"
    using name_of_line [OF n, of "[]"] by simp
  show ?thesis
    unfolding metric_line_def Let_def trim name using n by (simp add: valid_name_def)
qed

lemma lines_from_line:
  "10 \<notin> set l \<Longrightarrow> lines_from acc (l @ 10 # rest) = strip_cr (acc @ l) # lines_from [] rest"
  by (induction l arbitrary: acc) auto

lemma lines_cons:
  assumes "l \<noteq> []" and "10 \<notin> set l" and "last l \<noteq> 13"
  shows "lines (l @ 10 # rest) = l # lines rest"
  using assms by (simp add: lines_def lines_from_line strip_cr_def)

lemma lines_render:
  assumes "\<forall>s \<in> set samples. valid_sample s"
  shows "lines (render samples @ rest) = map render_sample samples @ lines rest"
  using assms
proof (induction samples)
  case (Cons s samples)
  then have s: "valid_sample s" by simp
  then have "10 \<notin> set (render_sample s)" and "last (render_sample s) \<noteq> 13" and "render_sample s \<noteq> []"
    using last_not_cr [of "s_text s"] by (auto simp: valid_sample_def valid_name_def render_sample_def list_all_iff)
  then have "lines (render_sample s @ 10 # render samples @ rest) = render_sample s # lines (render samples @ rest)"
    by (intro lines_cons)
  then show ?case using Cons by (simp add: render_def)
qed (simp add: render_def)

definition values_of :: "ustring \<Rightarrow> sample list \<Rightarrow> f64 list" where
  "values_of name samples = map s_value (filter (\<lambda>s. s_name s = name) samples)"

lemma line_values_samples:
  "\<forall>s \<in> set samples. valid_sample s \<Longrightarrow> line_values name (map render_sample samples) = values_of name samples"
  by (induction samples) (simp_all add: line_values_def values_of_def metric_line_sample)

text \<open>
  C32: the lookup inverts the exposition. From the text of any list of samples (a name, optional
  labels in braces, a blank and a number) it reads, for any metric, the mean of the values of the
  samples with that name, in order, and nothing when there is none. But one further line that is
  the bare name makes it return nothing, whatever the samples say.
\<close>

theorem find_metric_reads_exposition:
  assumes "\<forall>s \<in> set samples. valid_sample s"
  shows "find_metric (render samples) name = (if values_of name samples = [] then None
      else Some (f64_div (f64_sum (values_of name samples)) (f64_of_nat (length (values_of name samples)))))
    \<and> (valid_name name \<longrightarrow> find_metric (render samples @ name @ [10]) name = None)"
proof
  have plain: "lines (render samples) = map render_sample samples"
    using lines_render [OF assms, of "[]"] by (simp add: lines_def)
  have "\<forall>l \<in> set (map render_sample samples). metric_line name l \<noteq> Abort"
    using assms by (simp add: metric_line_sample)
  then show "find_metric (render samples) name = (if values_of name samples = [] then None
      else Some (f64_div (f64_sum (values_of name samples)) (f64_of_nat (length (values_of name samples)))))"
    unfolding find_metric_mean_or_abort plain line_values_samples [OF assms] by auto
  show "valid_name name \<longrightarrow> find_metric (render samples @ name @ [10]) name = None"
  proof
    assume n: "valid_name name"
    have "name \<noteq> []" and "10 \<notin> set name" and "last name \<noteq> 13"
      using n last_not_cr [of name] by (auto simp: valid_name_def list_all_iff)
    then have "lines (name @ 10 # []) = name # lines []" by (rule lines_cons)
    then have "name \<in> set (lines (render samples @ name @ [10]))"
      using lines_render [OF assms, of "name @ [10]"] by simp
    then show "find_metric (render samples @ name @ [10]) name = None"
      using metric_line_bare [OF n] unfolding find_metric_mean_or_abort by auto
  qed
qed

definition sample_exposition :: "sample list" where
  "sample_exposition =
     [\<lparr>s_name = ascii ''hits'', s_labels = ascii ''{a b}'', s_text = ascii ''2'', s_value = Fin 2\<rparr>,
      \<lparr>s_name = ascii ''other'', s_labels = [], s_text = ascii ''7'', s_value = Fin 7\<rparr>]"

theorem find_metric_reads_exposition_witness:
  "find_metric (ascii ''hits{a b} 2'' @ [10] @ ascii ''other 7'' @ [10]) (ascii ''hits'')
     = Some (f64_div (f64_sum [Fin 2]) (f64_of_nat 1))"
proof -
  have nums: "parse_f64 (ascii ''2'') = Some (Fin 2)" "parse_f64 (ascii ''7'') = Some (Fin 7)"
    using rnd_int_value [of 2 False] rnd_int_value [of 7 False]
    by (simp_all add: parse_f64_def parse_sign_def parse_exp_def ascii_def is_digit_def to_lower_def digits_val_def Let_def)
  have "\<forall>s \<in> set sample_exposition. valid_sample s"
    using nums by (simp add: sample_exposition_def valid_sample_def valid_name_def ascii_def is_whitespace_def)
  moreover have "render sample_exposition = ascii ''hits{a b} 2'' @ [10] @ ascii ''other 7'' @ [10]"
    by (simp add: sample_exposition_def render_def render_sample_def ascii_def)
  moreover have "values_of (ascii ''hits'') sample_exposition = [Fin 2]"
    by (simp add: sample_exposition_def values_of_def ascii_def)
  ultimately show ?thesis
    using find_metric_reads_exposition [of sample_exposition "ascii ''hits''"] by simp
qed

end
