(* ===== verification/Engine_Metrics.thy ===== *)
theory Engine_Metrics
  imports App Prometheus_Text
begin

text \<open>
  \<open>crates/router-server/src/engine_metrics.rs\<close>: one round of the engine metrics scraper. \<open>fetch\<close>
  is the network; the body of a reply may itself fail to arrive.
\<close>

definition scrape_interval :: "router_config \<Rightarrow> duration" where
  "scrape_interval config = secs (max (engine_metrics_interval_secs config) 1)"

definition report_rates :: "string \<Rightarrow> f64 \<Rightarrow> metrics \<Rightarrow> metrics" where
  "report_rates worker rate m =
     (let m = set_engine_cache_hit_rate worker rate m
      in case predicted_cache_hit_rate m worker of
           None \<Rightarrow> m
         | Some predicted \<Rightarrow>
             set_hit_rate_prediction_error worker (f64_sub predicted rate)
               (set_predicted_cache_hit_rate worker predicted m))"

definition scrape_worker ::
  "(string \<Rightarrow> (string + ustring) http_reply) \<Rightarrow> ustring \<Rightarrow> worker \<Rightarrow> app_state \<Rightarrow> app_state" where
  "scrape_worker fetch metric_name w st =
     (if \<not> is_healthy (app_registry st) (wid w) then st
      else case fetch (trim_end_matches CHR ''/'' (url w) @ ''/metrics'') of
             Transport _ \<Rightarrow> st
           | Reply status body \<Rightarrow>
               if \<not> is_success status then st
               else case body of
                      Inl _ \<Rightarrow> st
                    | Inr txt \<Rightarrow>
                        (case find_metric txt metric_name of
                           None \<Rightarrow> st
                         | Some rate \<Rightarrow> st\<lparr>app_metrics := report_rates (url w) rate (app_metrics st)\<rparr>))"

definition scrape_round :: "(string \<Rightarrow> (string + ustring) http_reply) \<Rightarrow> app_state \<Rightarrow> app_state" where
  "scrape_round fetch st =
     (if \<not> metrics_scrape (app_config st) then st
      else fold (scrape_worker fetch (ascii (engine_cache_hit_metric (app_config st)))) (all_workers (app_registry st)) st)"

lemma scrape_worker_frame:
  "scrape_worker fetch n w st = st\<lparr>app_metrics := app_metrics (scrape_worker fetch n w st)\<rparr>
     \<and> hit_stats (app_metrics (scrape_worker fetch n w st)) = hit_stats (app_metrics st)"
  by (auto simp: scrape_worker_def report_rates_def set_engine_cache_hit_rate_def set_predicted_cache_hit_rate_def
      set_hit_rate_prediction_error_def Let_def split: http_reply.splits sum.splits option.splits)

text \<open>The emissions of a scrape, per worker: what the engine said against what was predicted.\<close>

definition scrape_report ::
  "(string \<Rightarrow> (string + ustring) http_reply) \<Rightarrow> app_state \<Rightarrow> worker \<Rightarrow> emission list" where
  "scrape_report fetch st w =
     (case fetch (trim_end_matches CHR ''/'' (url w) @ ''/metrics'') of
        Reply status (Inr txt) \<Rightarrow>
          (case find_metric txt (ascii (engine_cache_hit_metric (app_config st))) of
             Some rate \<Rightarrow>
               if is_healthy (app_registry st) (wid w) \<and> is_success status
               then Gauge ''kvrouter_engine_cache_hit_rate'' [(''worker'', url w)] rate
                 # (case predicted_cache_hit_rate (app_metrics st) (url w) of
                      None \<Rightarrow> []
                    | Some p \<Rightarrow> [Gauge ''kvrouter_predicted_cache_hit_rate'' [(''worker'', url w)] p,
                                 Gauge ''kvrouter_hit_rate_prediction_error'' [(''worker'', url w)] (f64_sub p rate)])
               else []
           | None \<Rightarrow> [])
      | _ \<Rightarrow> [])"

lemma predicted_cong: "hit_stats m = hit_stats m' \<Longrightarrow> predicted_cache_hit_rate m w = predicted_cache_hit_rate m' w"
  by (simp add: predicted_cache_hit_rate_def)

lemma scrape_worker_report:
  assumes "app_config st = app_config st0" and "app_registry st = app_registry st0"
    and "hit_stats (app_metrics st) = hit_stats (app_metrics st0)"
  shows "emissions (app_metrics (scrape_worker fetch (ascii (engine_cache_hit_metric (app_config st0))) w st))
      = emissions (app_metrics st) @ scrape_report fetch st0 w"
  using assms predicted_cong [of "app_metrics st" "app_metrics st0" "url w"]
  by (auto simp: scrape_worker_def scrape_report_def report_rates_def set_engine_cache_hit_rate_def
      set_predicted_cache_hit_rate_def set_hit_rate_prediction_error_def Let_def emit_def
      predicted_cache_hit_rate_def split: http_reply.splits sum.splits option.splits)

text \<open>
  A scrape round reports, for every registered worker in identifier order, its engine's hit
  rate and the prediction error exactly when the worker is healthy, the scrape succeeded and the
  metric was found, the error only once traffic was credited; it does nothing when scraping is
  off and never changes routing state or the statistics it compares against.
\<close>

theorem scrape_round_reports:
  "emissions (app_metrics (scrape_round fetch st)) = emissions (app_metrics st)
      @ (if metrics_scrape (app_config st) then concat (map (scrape_report fetch st) (all_workers (app_registry st))) else [])
    \<and> hit_stats (app_metrics (scrape_round fetch st)) = hit_stats (app_metrics st)
    \<and> scrape_round fetch st = st\<lparr>app_metrics := app_metrics (scrape_round fetch st)\<rparr>"
proof -
  let ?n = "ascii (engine_cache_hit_metric (app_config st))"
  have "emissions (app_metrics (fold (scrape_worker fetch ?n) ws st1)) = emissions (app_metrics st1) @ concat (map (scrape_report fetch st) ws)
      \<and> hit_stats (app_metrics (fold (scrape_worker fetch ?n) ws st1)) = hit_stats (app_metrics st1)
      \<and> fold (scrape_worker fetch ?n) ws st1 = st1\<lparr>app_metrics := app_metrics (fold (scrape_worker fetch ?n) ws st1)\<rparr>"
    if "app_config st1 = app_config st" "app_registry st1 = app_registry st"
      "hit_stats (app_metrics st1) = hit_stats (app_metrics st)" for ws st1
    using that
  proof (induction ws arbitrary: st1)
    case (Cons w ws)
    obtain m where m: "scrape_worker fetch ?n w st1 = st1\<lparr>app_metrics := m\<rparr>" "hit_stats m = hit_stats (app_metrics st1)"
      using scrape_worker_frame [of fetch ?n w st1] by (metis app_state.select_convs(4) app_state.surjective app_state.update_convs(4))
    have "emissions m = emissions (app_metrics st1) @ scrape_report fetch st w"
      using scrape_worker_report [OF Cons.prems, of fetch w] by (simp add: m)
    then show ?case
      using Cons.IH [of "st1\<lparr>app_metrics := m\<rparr>"] Cons.prems m by simp
  qed simp
  from this [of st "all_workers (app_registry st)"] show ?thesis
    by (simp add: scrape_round_def)
qed

end
