(* ===== verification/Api.thy ===== *)
theory Api
  imports App
begin

text \<open>
  The first part of \<open>crates/router-server/src/api.rs\<close>: API errors and their HTTP form, and the
  liveness, readiness, metrics and model-listing endpoints. A JSON body is a tree, a response a
  status, its headers and a body.
\<close>

section \<open>Responses\<close>

datatype json_value = JStr string | JNum nat | JObj "(string \<times> json_value) list"

text \<open>A body is JSON, rendered text, or the chunks of an upstream body passed through.\<close>

datatype body = JsonBody json_value | TextBody "emission list" | PassThrough "(string + string) list"

record response =
  resp_status :: nat
  resp_headers :: "(string \<times> string) list"
  resp_body :: body

definition json_response :: "nat \<Rightarrow> json_value \<Rightarrow> response" where
  "json_response status j =
     \<lparr>resp_status = status, resp_headers = [(''content-type'', ''application/json'')], resp_body = JsonBody j\<rparr>"

section \<open>Errors\<close>

record api_error =
  ae_status :: nat
  ae_type :: string
  ae_message :: string

definition api_error_new :: "nat \<Rightarrow> string \<Rightarrow> string \<Rightarrow> api_error" where
  "api_error_new status t message = \<lparr>ae_status = status, ae_type = t, ae_message = message\<rparr>"

definition api_upstream :: "worker \<Rightarrow> string \<Rightarrow> api_error" where
  "api_upstream w message =
     api_error_new 502 ''upstream_error'' (''worker '' @ url w @ '' failed: '' @ message)"

definition api_no_healthy_workers :: api_error where
  "api_no_healthy_workers = api_error_new 503 ''no_healthy_workers'' ''no healthy workers are currently available''"

definition error_response :: "api_error \<Rightarrow> response" where
  "error_response e = json_response (ae_status e)
     (JObj [(''error'', JObj [(''message'', JStr (ae_message e)), (''type'', JStr (ae_type e)), (''code'', JNum (ae_status e))])])"

fun from_router_error :: "router_error \<Rightarrow> api_error" where
  "from_router_error (NoHealthyWorkers _) = api_no_healthy_workers"
| "from_router_error (NoHealthyWorkersInPool _ _) = api_no_healthy_workers"
| "from_router_error (KvTransferFailed _ _ reason) = api_error_new 502 ''kv_transfer_error'' reason"
| "from_router_error (PolicyNotImplemented policy) = api_error_new 501 ''unimplemented''
     (''routing policy `'' @ policy @ ''` is not implemented yet'')"
| "from_router_error DisaggregatedRequiresTwoPhase = api_error_new 500 ''invalid_routing_mode''
     ''disaggregated policy requires two-phase routing; this endpoint used single-phase''"
| "from_router_error (ConfigError message) = api_error_new 500 ''config_error'' message"

text \<open>\<open>From<JsonRejection>\<close>: status and text of the extractor's rejection.\<close>

definition from_json_rejection :: "nat \<times> string \<Rightarrow> api_error" where
  "from_json_rejection rejection = api_error_new (fst rejection) ''invalid_request'' (snd rejection)"

section \<open>Endpoints\<close>

definition health :: response where
  "health = json_response 200 (JObj [(''status'', JStr ''ok'')])"

definition ready :: "app_state \<Rightarrow> response" where
  "ready st =
     (let healthy = healthy_count (app_registry st);
          j = JObj [(''status'', JStr ''ready''), (''healthy_workers'', JNum healthy)]
      in if any_healthy (app_registry st) then json_response 200 j else json_response 503 j)"

definition metrics_endpoint :: "app_state \<Rightarrow> response \<times> app_state" where
  "metrics_endpoint st =
     (let st = refresh_gauges st
      in (\<lparr>resp_status = 200, resp_headers = [(''content-type'', ''text/plain; version=0.0.4; charset=utf-8'')],
           resp_body = TextBody (emissions (app_metrics st))\<rparr>, st))"

text \<open>What a worker answers to a GET: a status (number and text) and body items, or an error.\<close>

record get_reply =
  gr_status :: nat
  gr_status_text :: string
  gr_items :: "(string + string) list"

definition list_models :: "(string \<Rightarrow> string + get_reply) \<Rightarrow> app_state \<Rightarrow> api_error + response" where
  "list_models get st =
     (case healthy_workers (app_registry st) of
        [] \<Rightarrow> Inl api_no_healthy_workers
      | w # _ \<Rightarrow>
          (case get (trim_end_matches CHR ''/'' (url w) @ ''/v1/models'') of
             Inl e \<Rightarrow> Inl (api_upstream w e)
           | Inr up \<Rightarrow>
               if \<not> is_success (gr_status up)
               then Inl (api_upstream w (''upstream returned '' @ gr_status_text up))
               else Inr \<lparr>resp_status = 200, resp_headers = [(''content-type'', ''application/json'')],
                          resp_body = PassThrough (gr_items up)\<rparr>))"

section \<open>Properties\<close>

text \<open>
  Readiness. The endpoint answers 200 exactly when routing could pick a worker, that is when
  a worker is registered and healthy, and 503 otherwise; the count it reports is the number of
  workers routing would consider healthy. (The body says \<open>ready\<close> in both cases.)
\<close>

lemma ready_iff_routable:
  "resp_status (ready st) = (if healthy_workers (app_registry st) = [] then 503 else 200)
    \<and> resp_body (ready st) = JsonBody (JObj [(''status'', JStr ''ready''),
         (''healthy_workers'', JNum (length (healthy_workers (app_registry st))))])"
  by (simp add: ready_def json_response_def Let_def any_healthy_iff healthy_count_length)

end
