(* ===== verification/Streaming.thy ===== *)
theory Streaming
  imports Api
begin

text \<open>
  The streaming part of \<open>api.rs\<close>: request telemetry and the state machine that forwards an
  upstream body, ends an event stream with \<open>data: [DONE]\<close> and counts tokens. Body bytes are a
  \<^typ>\<open>string\<close>. The upstream body is the list of the items it yields, each with the time since
  the request started; polling a finished body yields nothing again.
\<close>

section \<open>Telemetry\<close>

datatype completion_details = Single | TwoPhase string nat nat

record telemetry =
  t_request_id :: string
  t_worker :: worker
  t_policy :: routing_policy
  t_matched :: nat
  t_prompt_blocks :: nat
  t_score :: f64
  t_guard :: inflight_guard
  t_details :: completion_details

text \<open>\<open>RequestTelemetry::finish\<close>, without its log record.\<close>

definition finish :: "telemetry \<Rightarrow> duration \<Rightarrow> duration \<Rightarrow> u64 \<Rightarrow> metrics \<Rightarrow> metrics" where
  "finish t ttft elapsed tokens m =
     record_tokens_generated (url (t_worker t)) tokens
       (record_request_duration (t_policy t) (as_secs_f64 elapsed)
       (record_ttft (t_policy t) (as_secs_f64 ttft)
       (record_hit_stats (url (t_worker t)) (of_nat (t_matched t)) (of_nat (t_prompt_blocks t))
       (record_prompt_blocks (of_nat (t_prompt_blocks t))
       (record_cache_hit_blocks (of_nat (t_matched t))
       (record_request (url (t_worker t)) (t_policy t) 200 m))))))"

section \<open>Chunks\<close>

definition done_marker :: string where
  "done_marker = ''data: [DONE]''"

definition done_event :: string where
  "done_event = done_marker @ [CHR 0x0A, CHR 0x0A]"

definition chunk_contains_done :: "string \<Rightarrow> bool" where
  "chunk_contains_done chunk = list_ex (\<lambda>w. w = done_marker) (windows 12 chunk)"

definition content_marker :: string where
  "content_marker = [CHR 0x22] @ ''content'' @ [CHR 0x22]"

definition count_content_chunks :: "string \<Rightarrow> u64" where
  "count_content_chunks chunk =
     of_nat (length (filter (\<lambda>w. w = content_marker) (windows (length content_marker) chunk)))"

section \<open>The stream\<close>

record proxy_state =
  p_inner :: "(duration \<times> (string + string)) list"
  p_telemetry :: telemetry
  p_completion_tokens :: "u64 option"
  p_streaming :: bool
  p_done_seen :: bool
  p_first_chunk_after :: "duration option"
  p_tokens :: u64
  p_errored :: bool

definition proxy_start ::
  "(duration \<times> (string + string)) list \<Rightarrow> telemetry \<Rightarrow> u64 option \<Rightarrow> bool \<Rightarrow> proxy_state" where
  "proxy_start items t completion_tokens streaming =
     \<lparr>p_inner = items, p_telemetry = t, p_completion_tokens = completion_tokens, p_streaming = streaming,
      p_done_seen = False, p_first_chunk_after = None, p_tokens = 0, p_errored = False\<rparr>"

text \<open>A chunk arrived after \<open>t\<close>: the three updates of the code, in its order.\<close>

definition note_first :: "duration \<Rightarrow> proxy_state \<Rightarrow> proxy_state" where
  "note_first t s = (if p_first_chunk_after s = None then s\<lparr>p_first_chunk_after := Some t\<rparr> else s)"

definition note_done :: "string \<Rightarrow> proxy_state \<Rightarrow> proxy_state" where
  "note_done chunk s =
     (if p_streaming s \<and> \<not> p_done_seen s \<and> chunk_contains_done chunk then s\<lparr>p_done_seen := True\<rparr> else s)"

definition note_tokens :: "string \<Rightarrow> proxy_state \<Rightarrow> proxy_state" where
  "note_tokens chunk s =
     (if p_streaming s then s\<lparr>p_tokens := p_tokens s + count_content_chunks chunk\<rparr> else s)"

definition proxy_chunk :: "duration \<Rightarrow> string \<Rightarrow> proxy_state \<Rightarrow> proxy_state" where
  "proxy_chunk t chunk s = note_tokens chunk (note_done chunk (note_first t s))"

text \<open>One poll: an item for the client and the next state, or the end. \<open>now\<close> is the time since
  the start of the request, read where the upstream body is exhausted. The code reads it twice
  there when no chunk ever arrived, for the time to the first token and for the total; here both
  are the one reading.\<close>

definition proxy_poll ::
  "duration \<Rightarrow> proxy_state \<Rightarrow> metrics \<Rightarrow> ((string + string) \<times> proxy_state) option \<times> metrics" where
  "proxy_poll now s m =
     (case p_inner s of
        (t, Inr chunk) # rest \<Rightarrow> (Some (Inr chunk, proxy_chunk t chunk (s\<lparr>p_inner := rest\<rparr>)), m)
      | (t, Inl e) # rest \<Rightarrow> (Some (Inl e, s\<lparr>p_inner := rest, p_errored := True\<rparr>), m)
      | [] \<Rightarrow>
          if p_streaming s \<and> \<not> p_done_seen s
          then (Some (Inr done_event, s\<lparr>p_done_seen := True\<rparr>), m)
          else if p_errored s
          then (None, record_request (url (t_worker (p_telemetry s))) (t_policy (p_telemetry s)) 502 m)
          else let ttft = (case p_first_chunk_after s of Some t \<Rightarrow> t | None \<Rightarrow> now);
                   tokens = (if p_streaming s then p_tokens s
                             else case p_completion_tokens s of Some n \<Rightarrow> n | None \<Rightarrow> 0)
               in (None, finish (p_telemetry s) ttft now tokens m))"

text \<open>
  What a client that polls at most \<open>n\<close> times receives, whether it saw the end, and the metrics.
  A client that disconnects polls less often than the stream is long.
\<close>

fun proxy_polls :: "nat \<Rightarrow> duration \<Rightarrow> proxy_state \<Rightarrow> metrics \<Rightarrow> (string + string) list \<times> bool \<times> metrics" where
  "proxy_polls 0 now s m = ([], False, m)"
| "proxy_polls (Suc n) now s m =
     (case proxy_poll now s m of
        (None, m) \<Rightarrow> ([], True, m)
      | (Some (out, s), m) \<Rightarrow> let (outs, ended, m) = proxy_polls n now s m in (out # outs, ended, m))"

section \<open>What the client receives\<close>

definition chunks_of :: "(duration \<times> (string + string)) list \<Rightarrow> string list" where
  "chunks_of items = concat (map (\<lambda>(_, i). case i of Inr c \<Rightarrow> [c] | Inl _ \<Rightarrow> []) items)"

definition has_error :: "(duration \<times> (string + string)) list \<Rightarrow> bool" where
  "has_error items \<longleftrightarrow> list_ex (\<lambda>(_, i). isl i) items"

definition tokens_of :: "string list \<Rightarrow> u64" where
  "tokens_of cs = sum_list (map count_content_chunks cs)"

definition first_time :: "(duration \<times> (string + string)) list \<Rightarrow> duration option" where
  "first_time items = map_option fst (find (\<lambda>(_, i). \<not> isl i) items)"

text \<open>The metrics written at the end of the stream, from the state reached.\<close>

definition end_metrics :: "duration \<Rightarrow> proxy_state \<Rightarrow> (duration \<times> (string + string)) list \<Rightarrow> metrics \<Rightarrow> metrics" where
  "end_metrics now s items m =
     (if p_errored s \<or> has_error items
      then record_request (url (t_worker (p_telemetry s))) (t_policy (p_telemetry s)) 502 m
      else finish (p_telemetry s)
        (case p_first_chunk_after s of Some t \<Rightarrow> t | None \<Rightarrow> (case first_time items of Some t \<Rightarrow> t | None \<Rightarrow> now)) now
        (if p_streaming s then p_tokens s + tokens_of (chunks_of items)
         else case p_completion_tokens s of Some n \<Rightarrow> n | None \<Rightarrow> 0) m)"

lemma proxy_chunk_fields:
  "p_inner (proxy_chunk t c s) = p_inner s"
  "p_telemetry (proxy_chunk t c s) = p_telemetry s"
  "p_completion_tokens (proxy_chunk t c s) = p_completion_tokens s"
  "p_streaming (proxy_chunk t c s) = p_streaming s"
  "p_errored (proxy_chunk t c s) = p_errored s"
  "p_done_seen (proxy_chunk t c s) = (p_done_seen s \<or> p_streaming s \<and> chunk_contains_done c)"
  "p_first_chunk_after (proxy_chunk t c s) = (case p_first_chunk_after s of None \<Rightarrow> Some t | Some u \<Rightarrow> Some u)"
  "p_tokens (proxy_chunk t c s) = (if p_streaming s then p_tokens s + count_content_chunks c else p_tokens s)"
  by (auto simp: proxy_chunk_def note_tokens_def note_done_def note_first_def split: option.splits)

lemma proxy_polls_spec:
  assumes "length (p_inner s) + 2 \<le> n"
  shows "proxy_polls n now s m =
    (map snd (p_inner s) @ (if p_streaming s \<and> \<not> p_done_seen s \<and> \<not> list_ex chunk_contains_done (chunks_of (p_inner s))
        then [Inr done_event] else []),
     True, end_metrics now s (p_inner s) m)"
  using assms
proof (induction "p_inner s" arbitrary: s n)
  case Nil
  then obtain k where n: "n = Suc (Suc k)" by (metis add_2_eq_Suc' le_Suc_ex plus_nat.add_Suc)
  show ?case
    using Nil.hyps [symmetric]
    by (auto simp: n proxy_poll_def Let_def end_metrics_def has_error_def chunks_of_def tokens_of_def first_time_def
        split: option.splits)
next
  case (Cons x xs)
  from Cons.prems Cons.hyps(2) [symmetric] obtain k where n: "n = Suc k" and k: "length xs + 2 \<le> k"
    by (cases n) auto
  obtain t i where x: "x = (t, i)" by (cases x)
  have inner: "p_inner s = (t, i) # xs" using Cons.hyps(2) x by simp
  show ?case
  proof (cases i)
    case (Inl e)
    let ?s = "s\<lparr>p_inner := xs, p_errored := True\<rparr>"
    show ?thesis
      using Cons.hyps(1) [of ?s k] k
      by (simp add: n inner Inl proxy_poll_def end_metrics_def has_error_def chunks_of_def)
  next
    case (Inr c)
    let ?s = "proxy_chunk t c (s\<lparr>p_inner := xs\<rparr>)"
    have "end_metrics now ?s xs m = end_metrics now s (p_inner s) m"
      by (auto simp: end_metrics_def inner Inr proxy_chunk_fields has_error_def chunks_of_def tokens_of_def
          first_time_def add.assoc split: option.splits)
    then show ?thesis
      using Cons.hyps(1) [of ?s k] k
      by (auto simp: n proxy_poll_def inner Inr chunks_of_def proxy_chunk_fields)
  qed
qed

lemma proxy_poll_item: "proxy_poll now s m = (Some x, m') \<Longrightarrow> m' = m"
  by (auto simp: proxy_poll_def Let_def split: list.splits prod.splits sum.splits if_splits)

lemma polls_metrics_only_at_end: "\<not> fst (snd (proxy_polls n now s m)) \<Longrightarrow> snd (snd (proxy_polls n now s m)) = m"
proof (induction n arbitrary: s)
  case (Suc n)
  obtain x m' where poll: "proxy_poll now s m = (x, m')" by fastforce
  show ?case
  proof (cases x)
    case (Some y)
    then have "m' = m" using proxy_poll_item poll by blast
    then show ?thesis
      using Suc poll Some by (cases y) (auto simp: Let_def case_prod_beta)
  qed (use Suc poll in auto)
qed simp

section \<open>Properties\<close>

text \<open>
  C10: the proxied stream. A client that reads to the end (two polls beyond the upstream's items
  suffice) receives every upstream item, chunk or error, unchanged and in order; in streaming mode
  a \<open>data: [DONE]\<close> event follows exactly when no single upstream chunk contains one. At the end,
  and only then, one outcome is recorded: status 502 if any item was an error, otherwise the
  completed request with its tokens and the time of its first chunk.
\<close>

theorem proxy_stream_forwards:
  assumes "length items + 2 \<le> n"
  shows "proxy_polls n now (proxy_start items t completion_tokens streaming) m =
    (map snd items @ (if streaming \<and> \<not> list_ex chunk_contains_done (chunks_of items) then [Inr done_event] else []),
     True,
     if has_error items then record_request (url (t_worker t)) (t_policy t) 502 m
     else finish t (case first_time items of Some u \<Rightarrow> u | None \<Rightarrow> now) now
       (if streaming then tokens_of (chunks_of items)
        else case completion_tokens of Some k \<Rightarrow> k | None \<Rightarrow> 0) m)
    \<and> (\<forall>k. \<not> fst (snd (proxy_polls k now (proxy_start items t completion_tokens streaming) m))
         \<longrightarrow> snd (snd (proxy_polls k now (proxy_start items t completion_tokens streaming) m)) = m)"
  using proxy_polls_spec [of "proxy_start items t completion_tokens streaming" n now m] assms
    polls_metrics_only_at_end
  by (simp add: proxy_start_def end_metrics_def)

theorem proxy_stream_forwards_witness:
  "\<forall>t m. fst (proxy_polls 3 9 (proxy_start [(4, Inr ''hello'')] t None True) m) = [Inr ''hello'', Inr done_event]"
proof -
  have "\<not> chunk_contains_done ''hello''"
    by (simp add: chunk_contains_done_def windows_def)
  then show ?thesis
    using proxy_stream_forwards [of "[(4, Inr ''hello'')]" 3 9 _ None True] by (simp add: chunks_of_def)
qed






end
