(* ===== verification/Chat.thy ===== *)
theory Chat
  imports Streaming
begin

text \<open>
  The handlers of \<open>api.rs\<close>: \<open>chat_completions\<close>, its single-phase and two-phase flows, and the
  response built around the upstream stream. The network, the HTTP crate's header validation and
  the request's random identifier are arguments; the client's reading of the response is
  \<open>client_reads\<close>, which ends by dropping the stream and the in-flight guard it holds.
\<close>

section \<open>Upstream responses\<close>

text \<open>A header value is \<open>None\<close> where it is not visible ASCII text (\<open>to_str\<close> fails).\<close>

record upstream_response =
  up_status :: nat
  up_status_text :: string
  up_headers :: "(string \<times> string option) list"
  up_items :: "(duration \<times> (string + string)) list"

definition up_header :: "upstream_response \<Rightarrow> string \<Rightarrow> string option" where
  "up_header up name = Option.bind (map_of (up_headers up) name) id"

definition prefix_hit_header :: "upstream_response \<Rightarrow> string option" where
  "prefix_hit_header up = up_header up ''x-kv-prefix-hit''"

text \<open>\<open>str::parse::<u64>\<close>: an optional plus sign, at least one digit, no overflow.\<close>

definition parse_u64 :: "string \<Rightarrow> u64 option" where
  "parse_u64 s =
     (let ds = (case s of c # cs \<Rightarrow> if c = CHR ''+'' then cs else s | [] \<Rightarrow> []);
          n = foldl (\<lambda>n c. 10 * n + (of_char c - 48)) 0 ds :: nat
      in if ds \<noteq> [] \<and> list_all (\<lambda>c. 48 \<le> (of_char c :: nat) \<and> (of_char c :: nat) \<le> 57) ds \<and> n < 2 ^ 64
         then Some (of_nat n) else None)"

lemma parse_show_u64: "n < 2 ^ 64 \<Longrightarrow> parse_u64 (show_nat n) = Some (of_nat n)"
proof -
  assume n: "n < 2 ^ 64"
  obtain c cs where s: "show_nat n = c # cs" and "48 \<le> (of_char c :: nat)"
    using show_nat_digits [of n] by (cases "show_nat n") auto
  moreover have "(of_char CHR ''+'' :: nat) = 43" by simp
  ultimately have "c \<noteq> CHR ''+''" by auto
  then show ?thesis
    using show_nat_digits [of n] n by (simp add: parse_u64_def s)
qed
definition completion_tokens_header :: "upstream_response \<Rightarrow> u64 option" where
  "completion_tokens_header up = Option.bind (up_header up ''x-completion-tokens'') parse_u64"

record http_env =
  env_send :: "string \<Rightarrow> string option \<Rightarrow> string + upstream_response"
  env_header_ok :: "string \<Rightarrow> bool"
  env_header_error :: string
  env_request_id :: string

section \<open>The response\<close>

text \<open>The response keeps the stream state, and with it the guard, until the client is done.\<close>

record chat_response =
  cr_status :: nat
  cr_headers :: "(string \<times> string) list"
  cr_stream :: proxy_state

definition build_response ::
  "http_env \<Rightarrow> upstream_response \<Rightarrow> telemetry \<Rightarrow> string option \<Rightarrow> u64 option \<Rightarrow> bool \<Rightarrow> api_error + chat_response" where
  "build_response env up t prefix_hit completion_tokens streaming =
     (let headers = [(''x-request-id'', t_request_id t), (''x-router-worker'', url (t_worker t)),
                     (''x-router-matched-prefix'', show_nat (t_matched t))]
            @ (case prefix_hit of None \<Rightarrow> [] | Some hit \<Rightarrow> [(''x-kv-prefix-hit'', hit)])
            @ (case completion_tokens of None \<Rightarrow> [] | Some n \<Rightarrow> [(''x-completion-tokens'', show_nat (unat n))])
            @ (if streaming then [(''content-type'', ''text/event-stream; charset=utf-8''), (''cache-control'', ''no-cache'')]
               else [(''content-type'', ''application/json'')])
      in if list_all (\<lambda>h. env_header_ok env (snd h)) headers
         then Inr \<lparr>cr_status = 200, cr_headers = headers,
                   cr_stream = proxy_start (up_items up) t completion_tokens streaming\<rparr>
         else Inl (api_error_new 500 ''internal_error'' (env_header_error env)))"

section \<open>State changes of the handlers\<close>

definition with_router :: "router \<Rightarrow> app_state \<Rightarrow> app_state" where
  "with_router r st = st\<lparr>app_router := r\<rparr>"

definition acquire_slot :: "worker_id \<Rightarrow> app_state \<Rightarrow> inflight_guard \<times> app_state" where
  "acquire_slot w st =
     (let (g, fl) = guard_acquire w (rt_inflight (app_router st))
      in (g, with_router ((app_router st)\<lparr>rt_inflight := fl\<rparr>) st))"

definition release_slot :: "inflight_guard \<Rightarrow> app_state \<Rightarrow> app_state" where
  "release_slot g st = with_router ((app_router st)\<lparr>rt_inflight := guard_drop g (rt_inflight (app_router st))\<rparr>) st"

definition count_outcome :: "string \<Rightarrow> nat \<Rightarrow> app_state \<Rightarrow> app_state" where
  "count_outcome worker status st =
     st\<lparr>app_metrics := record_request worker (rt_policy (app_router st)) status (app_metrics st)\<rparr>"

definition chat_url :: "worker \<Rightarrow> string" where
  "chat_url w = trim_end_matches CHR ''/'' (url w) @ ''/v1/chat/completions''"

text \<open>Sending a phase to a worker whose guard is held, and answering with its stream. On every
  error the guard is dropped on the way out.\<close>

definition forward_to ::
  "http_env \<Rightarrow> string option \<Rightarrow> string \<Rightarrow> route_decision \<Rightarrow> completion_details \<Rightarrow> bool \<Rightarrow> inflight_guard
     \<Rightarrow> app_state \<Rightarrow> (api_error + chat_response) \<times> app_state" where
  "forward_to env phase what d details streaming g st =
     (let w = d_worker d
      in case env_send env (chat_url w) phase of
           Inl e \<Rightarrow> (Inl (api_upstream w e), release_slot g (count_outcome (url w) 502 st))
         | Inr up \<Rightarrow>
             if \<not> is_success (up_status up)
             then (Inl (api_upstream w (what @ up_status_text up)), release_slot g (count_outcome (url w) 502 st))
             else let t = \<lparr>t_request_id = env_request_id env, t_worker = w, t_policy = rt_policy (app_router st),
                           t_matched = matched_prefix_len d, t_prompt_blocks = prompt_blocks d, t_score = d_score d,
                           t_guard = g, t_details = details\<rparr>
                  in case build_response env up t (prefix_hit_header up) (completion_tokens_header up) streaming of
                       Inl e \<Rightarrow> (Inl e, release_slot g st)
                     | Inr resp \<Rightarrow> (Inr resp, st))"

definition serve_proxied ::
  "http_env \<Rightarrow> (nat \<Rightarrow> instant) \<Rightarrow> 'json chat_request \<Rightarrow> app_state \<Rightarrow> (api_error + chat_response) \<times> app_state" where
  "serve_proxied env clk request st =
     (case select_for_chat clk (app_registry st) request (app_router st) of
        (Inl e, r) \<Rightarrow> (Inl (from_router_error e), count_outcome ''unrouted'' 503 (with_router r st))
      | (Inr d, r) \<Rightarrow>
          let (g, st) = acquire_slot (wid (d_worker d)) (with_router r st)
          in forward_to env None ''upstream returned '' d Single (stream request) g st)"

text \<open>
  The two phases. \<open>clk1\<close> and \<open>clk2\<close> are the clock readings of the two selections, \<open>prefill_ms\<close>
  the measured length of the prefill phase. Draining the prefill body ignores its contents and
  stops at an error, which is only logged.
\<close>

definition serve_disaggregated ::
  "http_env \<Rightarrow> (nat \<Rightarrow> instant) \<Rightarrow> (nat \<Rightarrow> instant) \<Rightarrow> nat \<Rightarrow> 'json chat_request \<Rightarrow> app_state
     \<Rightarrow> (api_error + chat_response) \<times> app_state" where
  "serve_disaggregated env clk1 clk2 prefill_ms request st =
     (let chain = chain_hash (canonical_prompt request) (prompt_block_chars (app_config st))
      in case select_in_pool clk1 (app_registry st) Prefill chain (app_router st) of
           (Inl e, r) \<Rightarrow> (Inl (from_router_error e), count_outcome ''unrouted'' 503 (with_router r st))
         | (Inr prefill, r) \<Rightarrow>
             let w = d_worker prefill;
                 (g, st) = acquire_slot (wid w) (with_router r st)
             in case env_send env (chat_url w) (Some ''prefill'') of
                  Inl e \<Rightarrow> (Inl (api_upstream w e), release_slot g (count_outcome (url w) 502 st))
                | Inr up \<Rightarrow>
                    if \<not> is_success (up_status up)
                    then (Inl (api_upstream w (''prefill phase returned '' @ up_status_text up)),
                          release_slot g (count_outcome (url w) 502 st))
                    else
                      let st = release_slot g st
                      in case select_in_pool clk2 (app_registry st) Decode chain (app_router st) of
                           (Inl e, r) \<Rightarrow> (Inl (from_router_error e), count_outcome ''unrouted'' 503 (with_router r st))
                         | (Inr decode, r) \<Rightarrow>
                             let st = with_router r st;
                                 (took, result) = app_kv st (wid w) (wid (d_worker decode)) (length chain)
                             in case result of
                                  Inl e \<Rightarrow> (Inl (from_router_error e), count_outcome (url (d_worker decode)) 502 st)
                                | Inr _ \<Rightarrow>
                                    let ms = as_millis took;
                                        st = st\<lparr>app_metrics := record_kv_transfer
                                          (f64_div (f64_of_nat ms) (Fin 1000)) (app_metrics st)\<rparr>;
                                        (g, st) = acquire_slot (wid (d_worker decode)) st
                                    in forward_to env (Some ''decode'') ''decode phase returned '' decode
                                         (TwoPhase (url w) prefill_ms ms) (stream request) g st)"

definition chat_completions ::
  "http_env \<Rightarrow> (nat \<Rightarrow> instant) \<Rightarrow> (nat \<Rightarrow> instant) \<Rightarrow> nat \<Rightarrow> (nat \<times> string) + 'json chat_request \<Rightarrow> app_state
     \<Rightarrow> (api_error + chat_response) \<times> app_state" where
  "chat_completions env clk1 clk2 prefill_ms payload st =
     (case payload of
        Inl rejection \<Rightarrow> (Inl (from_json_rejection rejection), st)
      | Inr request \<Rightarrow>
          if cfg_policy (app_config st) = Disaggregated
          then serve_disaggregated env clk1 clk2 prefill_ms request st
          else serve_proxied env clk1 request st)"

text \<open>The client polls the body at most \<open>n\<close> times and is done with it: the stream state is
  dropped, and the guard with it.\<close>

definition client_reads :: "nat \<Rightarrow> duration \<Rightarrow> chat_response \<Rightarrow> app_state \<Rightarrow> (string + string) list \<times> app_state" where
  "client_reads n now resp st =
     (let (outs, ended, m) = proxy_polls n now (cr_stream resp) (app_metrics st)
      in (outs, release_slot (t_guard (p_telemetry (cr_stream resp))) (st\<lparr>app_metrics := m\<rparr>)))"

section \<open>In-flight accounting\<close>

abbreviation app_inflight :: "app_state \<Rightarrow> inflight_tracker" where
  "app_inflight st \<equiv> rt_inflight (app_router st)"

abbreviation settled :: "worker_id multiset \<Rightarrow> app_state \<Rightarrow> bool" where
  "settled live st \<equiv> inflight_accounts (app_inflight st) live"

lemma inflight_simps [simp]:
  "app_inflight (with_router r st) = rt_inflight r"
  "app_inflight (count_outcome u s st) = app_inflight st"
  "app_inflight (release_slot g st) = guard_drop g (app_inflight st)"
  "app_inflight (st\<lparr>app_metrics := m\<rparr>) = app_inflight st"
  by (simp_all add: with_router_def count_outcome_def release_slot_def)

lemma release_acquired: "app_router (release_slot (fst (acquire_slot w st)) (snd (acquire_slot w st))) = app_router st"
proof -
  have "decrement w (increment w t) = t" for t
    by (simp add: decrement_def increment_def)
  then show ?thesis
    by (simp add: release_slot_def acquire_slot_def guard_acquire_def guard_drop_def with_router_def Let_def)
qed

lemma acquire_slot_spec:
  assumes "settled live st" and "tracked (app_inflight st) w" and "size live + 1 < 2 ^ 64"
  obtains st' where "acquire_slot w st = (\<lparr>guard_worker = w\<rparr>, st')" and "settled (add_mset w live) st'"
    and "app_registry st' = app_registry st" and "app_config st' = app_config st" and "app_kv st' = app_kv st"
    and "app_router st' = (app_router st)\<lparr>rt_inflight := app_inflight st'\<rparr>"
    and "app_metrics st' = app_metrics st"
    and "\<And>v. tracked (app_inflight st') v = tracked (app_inflight st) v"
proof -
  let ?st = "snd (acquire_slot w st)"
  show thesis
    by (rule that [of ?st])
      (use fl.accounts_enter [OF assms] in
        \<open>simp_all add: acquire_slot_def guard_acquire_def Let_def with_router_def\<close>)
qed

lemma release_slot_spec:
  "settled (add_mset w live) st \<Longrightarrow> settled live (release_slot \<lparr>guard_worker = w\<rparr> st)"
  using fl.accounts_leave [of "app_inflight st" "add_mset w live" w] by simp

text \<open>What a handler leaves behind: nothing after an error, one live guard after a response.\<close>

definition holds_at_most_one ::
  "worker_id multiset \<Rightarrow> (api_error + chat_response) \<times> app_state \<Rightarrow> bool" where
  "holds_at_most_one live rs \<longleftrightarrow>
     (case fst rs of
        Inl e \<Rightarrow> settled live (snd rs)
      | Inr resp \<Rightarrow> settled (add_mset (guard_worker (t_guard (p_telemetry (cr_stream resp)))) live) (snd rs))"

lemma build_response_guard:
  "build_response env up t hit k s = Inr resp \<Longrightarrow> p_telemetry (cr_stream resp) = t"
  by (auto simp: build_response_def Let_def proxy_start_def split: if_splits)

lemma forward_to_settles:
  assumes "settled (add_mset w live) st"
  shows "holds_at_most_one live (forward_to env phase what d details s \<lparr>guard_worker = w\<rparr> st)"
proof -
  have rel: "settled live (release_slot \<lparr>guard_worker = w\<rparr> st)"
    "settled live (release_slot \<lparr>guard_worker = w\<rparr> (count_outcome u k st))" for u k
    using release_slot_spec [OF assms] release_slot_spec [where w = w and live = live and st = "count_outcome u k st"] assms by simp_all
  show ?thesis
    using assms rel
    by (auto simp: holds_at_most_one_def forward_to_def Let_def split: sum.splits dest: build_response_guard)
qed

lemma decided_inflight: "decided w chain r r' \<Longrightarrow> rt_inflight r' = rt_inflight r"
  unfolding decided_def by (metis router.select_convs(4) router.surjective router.update_convs(2,3))

lemma select_for_chat_inflight:
  assumes "reg_inv reg" and "router_inv r" and "select_for_chat clk reg q r = (out, r')"
  shows "rt_inflight r' = rt_inflight r"
    and "out = Inr d \<Longrightarrow> get_worker reg (wid (d_worker d)) = Some (d_worker d)"
proof -
  show "rt_inflight r' = rt_inflight r"
  proof (cases "healthy_workers reg = [] \<or> rt_policy r = Disaggregated")
    case True
    then show ?thesis
      using assms(3) select_for_chat_none [of reg clk q r] select_for_chat_disaggregated [of reg r clk q] by auto
  next
    case False
    then show ?thesis
      using select_for_chat_ok [OF assms(2), of reg clk q] assms(3) decided_inflight by (metis Pair_inject)
  qed
  assume out: "out = Inr d"
  then have "healthy_workers reg \<noteq> []" and "rt_policy r \<noteq> Disaggregated"
    using assms(3) select_for_chat_none [of reg clk q r] select_for_chat_disaggregated [of reg r clk q] by auto
  from select_for_chat_ok [OF assms(2) this, of clk q] have "d_worker d \<in> set (chat_candidates (healthy_workers reg))"
    using assms(3) out by (metis Pair_inject sum.inject(2))
  then have "reg_status reg (wid (d_worker d)) = Some (d_worker d, True)"
    using set_chat_candidates set_healthy_workers [OF assms(1)] by blast
  then show "get_worker reg (wid (d_worker d)) = Some (d_worker d)"
    by (auto simp: get_worker_def reg_status_def)
qed

lemma select_in_pool_cases:
  assumes "reg_inv reg" and "router_inv r" and "select_in_pool clk reg p chain r = (out, r')"
  shows "rt_inflight r' = rt_inflight r" and "router_inv r'" and "rt_policy r' = rt_policy r"
    and "out = Inr d \<Longrightarrow> get_worker reg (wid (d_worker d)) = Some (d_worker d) \<and> wpool (d_worker d) = p
          \<and> is_healthy reg (wid (d_worker d))"
proof -
  let ?ws = "filter (\<lambda>w. wpool w = p) (healthy_workers reg)"
  have "rt_inflight r' = rt_inflight r \<and> router_inv r' \<and> rt_policy r' = rt_policy r
      \<and> (out = Inr d \<longrightarrow> d_worker d \<in> set ?ws)"
  proof (cases "?ws = []")
    case True
    then show ?thesis using assms(2,3) select_in_pool_none [OF True, of clk chain r] by auto
  next
    case False
    from select_in_pool_ok [OF assms(2) False, of clk chain]
    obtain w r1 where sel: "select_in_pool clk reg p chain r = (Inr \<lparr>d_worker = w,
        matched_prefix_len = match_len r (wid w) chain, prompt_blocks = length chain,
        d_score = score_worker r (wid w) (match_len r (wid w) chain)\<rparr>, r1)"
      and mem: "w \<in> set ?ws" and dec: "decided (wid w) chain r r1" .
    have "rt_policy r1 = rt_policy r"
      using dec unfolding decided_def by (metis router.select_convs(1) router.surjective router.update_convs(2,3))
    then show ?thesis
      using assms(3) sel mem decided_inflight [OF dec] dec by (auto simp: decided_def)
  qed
  moreover have "get_worker reg (wid w) = Some w \<and> wpool w = p \<and> is_healthy reg (wid w)" if "w \<in> set ?ws" for w
    using that set_healthy_workers [OF assms(1)] by (auto simp: get_worker_def is_healthy_def reg_status_def)
  ultimately show "rt_inflight r' = rt_inflight r" and "router_inv r'" and "rt_policy r' = rt_policy r"
    and "out = Inr d \<Longrightarrow> get_worker reg (wid (d_worker d)) = Some (d_worker d) \<and> wpool (d_worker d) = p
          \<and> is_healthy reg (wid (d_worker d))"
    by blast+
qed

section \<open>Properties\<close>

lemma sample_app_settled: "settled {#} (sample_app p)"
  by (simp add: sample_app_def router_new_def sample_config_def two_workers_def inflight_accounts_init)

lemma sample_app_tracked:
  "get_worker (app_registry (sample_app p)) w \<noteq> None \<Longrightarrow> tracked (app_inflight (sample_app p)) w"
proof -
  assume "get_worker (app_registry (sample_app p)) w \<noteq> None"
  then obtain s where "hm_get (reg_workers (app_registry (sample_app p))) w = Some s"
    by (auto simp: get_worker_def)
  then have "w < 2"
    using reg_invD(3) [of "app_registry (sample_app p)" w s] sample_app_inv [of p]
    by (simp add: app_inv_def sample_app_def sample_registry_def two_workers_def from_config_def numeral_2_eq_2)
  then have "unat w < 2" by (simp add: word_less_nat_alt)
  then show ?thesis
    by (simp add: sample_app_def router_new_def sample_config_def two_workers_def tracked_def with_capacity_def)
qed

definition dead_network :: http_env where
  "dead_network = \<lparr>env_send = \<lambda>_ _. Inl ''connection refused'', env_header_ok = \<lambda>_. True,
     env_header_error = ''invalid header'', env_request_id = ''id''\<rparr>"

text \<open>
  C28: the observability headers survive a chain of routers. Whatever hit header and token count an
  upstream sent, a router that receives this router's response as its upstream reads the same
  hit header and the same number: printing the count and parsing it again is the identity.
\<close>

theorem observability_headers_roundtrip:
  assumes "build_response env up t (prefix_hit_header up) (completion_tokens_header up) streaming = Inr resp"
    and "up_headers up' = map (\<lambda>(k, v). (k, Some v)) (cr_headers resp)"
  shows "completion_tokens_header up' = completion_tokens_header up \<and> prefix_hit_header up' = prefix_hit_header up"
proof -
  have tokens: "parse_u64 (show_nat (unat n)) = Some n" for n
    using parse_show_u64 [of "unat n"] unsigned_less [of n, where ?'a = nat] by simp
  have "cr_headers resp = [(''x-request-id'', t_request_id t), (''x-router-worker'', url (t_worker t)),
                     (''x-router-matched-prefix'', show_nat (t_matched t))]
            @ (case prefix_hit_header up of None \<Rightarrow> [] | Some hit \<Rightarrow> [(''x-kv-prefix-hit'', hit)])
            @ (case completion_tokens_header up of None \<Rightarrow> [] | Some n \<Rightarrow> [(''x-completion-tokens'', show_nat (unat n))])
            @ (if streaming then [(''content-type'', ''text/event-stream; charset=utf-8''), (''cache-control'', ''no-cache'')]
               else [(''content-type'', ''application/json'')])"
    using assms(1) by (auto simp: build_response_def Let_def split: if_splits)
  then show ?thesis
    using assms(2) tokens
    by (cases "prefix_hit_header up"; cases "completion_tokens_header up"; cases streaming)
      (simp_all add: completion_tokens_header_def [of up'] prefix_hit_header_def [of up'] up_header_def)
qed

definition busy_upstream :: upstream_response where
  "busy_upstream = \<lparr>up_status = 200, up_status_text = ''200 OK'',
     up_headers = [(''x-completion-tokens'', Some ''42''), (''x-kv-prefix-hit'', Some ''3/4'')], up_items = []\<rparr>"

theorem observability_headers_roundtrip_witness:
  "\<forall>t. \<exists>resp. build_response dead_network busy_upstream t (Some ''3/4'') (Some 42) False = Inr resp
     \<and> completion_tokens_header (busy_upstream\<lparr>up_headers := map (\<lambda>(k, v). (k, Some v)) (cr_headers resp)\<rparr>) = Some 42"
proof
  fix t
  have up: "prefix_hit_header busy_upstream = Some ''3/4''" "completion_tokens_header busy_upstream = Some 42"
    by (simp_all add: prefix_hit_header_def completion_tokens_header_def up_header_def busy_upstream_def parse_u64_def)
  obtain resp where resp: "build_response dead_network busy_upstream t (Some ''3/4'') (Some 42) False = Inr resp"
    by (simp add: build_response_def dead_network_def Let_def list_all_iff)
  show "\<exists>resp. build_response dead_network busy_upstream t (Some ''3/4'') (Some 42) False = Inr resp
     \<and> completion_tokens_header (busy_upstream\<lparr>up_headers := map (\<lambda>(k, v). (k, Some v)) (cr_headers resp)\<rparr>) = Some 42"
    using observability_headers_roundtrip [of dead_network busy_upstream t False resp
        "busy_upstream\<lparr>up_headers := map (\<lambda>(k, v). (k, Some v)) (cr_headers resp)\<rparr>"] resp
    by (simp add: up)
qed

end
