(* ===== verification/Counting.thy ===== *)
theory Counting
  imports Chat
begin

text \<open>
  What the handlers of \<open>api.rs\<close> report in \<open>kvrouter_requests_total\<close>: which outcome is counted on
  every path of both flows, and what a client adds by reading the response, against the status the
  client sees.
\<close>

section \<open>What is counted\<close>

text \<open>The label sets of the \<open>kvrouter_requests_total\<close> increments, in their order.\<close>

definition request_counts :: "metrics \<Rightarrow> labels list" where
  "request_counts m = concat (map (\<lambda>e. case e of
     Counter name labels n \<Rightarrow> if name = ''kvrouter_requests_total'' then [labels] else [] | _ \<Rightarrow> []) (emissions m))"

definition request_label :: "string \<Rightarrow> routing_policy \<Rightarrow> nat \<Rightarrow> labels" where
  "request_label worker policy status =
     [(''worker'', worker), (''policy'', policy_to_string policy), (''status'', show_nat status)]"

lemma request_counts_emit:
  "request_counts (emit e m) = request_counts m @ (case e of
     Counter name labels n \<Rightarrow> if name = ''kvrouter_requests_total'' then [labels] else [] | _ \<Rightarrow> [])"
  by (simp add: request_counts_def emit_def)

lemma request_counts_simps [simp]:
  "request_counts (record_request u p k m) = request_counts m @ [request_label u p k]"
  "request_counts (record_kv_transfer x m) = request_counts m"
  "request_counts (record_hit_stats u a b m) = request_counts m"
  "request_counts (finish t ttft elapsed tokens m) = request_counts m @ [request_label (url (t_worker t)) (t_policy t) 200]"
proof -
  have stats: "request_counts (record_hit_stats u a b m) = request_counts m" for u a b m
    by (simp add: request_counts_def record_hit_stats_def Let_def case_prod_beta)
  then show "request_counts (record_hit_stats u a b m) = request_counts m" .
  show "request_counts (record_request u p k m) = request_counts m @ [request_label u p k]"
    "request_counts (record_kv_transfer x m) = request_counts m"
    "request_counts (finish t ttft elapsed tokens m) = request_counts m @ [request_label (url (t_worker t)) (t_policy t) 200]"
    by (simp_all add: finish_def record_request_def record_kv_transfer_def record_tokens_generated_def
        record_request_duration_def record_ttft_def record_prompt_blocks_def record_cache_hit_blocks_def
        request_counts_emit request_label_def stats)
qed

text \<open>A client that reached the end sees no more by polling on.\<close>

lemma polls_ended:
  "fst (snd (proxy_polls n now s m)) \<Longrightarrow> proxy_polls (n + k) now s m = proxy_polls n now s m"
proof (induction n arbitrary: s m)
  case (Suc n)
  obtain x m' where poll: "proxy_poll now s m = (x, m')" by fastforce
  then show ?case
    using Suc by (cases x) (auto simp: Let_def case_prod_beta)
qed simp

lemma client_counts:
  fixes resp st
  defines "s \<equiv> cr_stream resp"
  defines "l \<equiv> request_label (url (t_worker (p_telemetry s))) (t_policy (p_telemetry s))
      (if p_errored s \<or> has_error (p_inner s) then 502 else 200)"
    and "counted \<equiv> \<lambda>n now. request_counts (app_metrics (snd (client_reads n now resp st)))"
  shows "length (p_inner s) + 2 \<le> n \<Longrightarrow> counted n now = request_counts (app_metrics st) @ [l]"
    and "counted n now = request_counts (app_metrics st) \<or> counted n now = request_counts (app_metrics st) @ [l]"
proof -
  let ?polls = "\<lambda>n. proxy_polls n now s (app_metrics st)"
  have counted: "counted n now = request_counts (snd (snd (?polls n)))" for n
    by (simp add: counted_def client_reads_def s_def case_prod_beta release_slot_def with_router_def)
  have full: "counted n now = request_counts (app_metrics st) @ [l]" if "length (p_inner s) + 2 \<le> n" for n
    unfolding counted proxy_polls_spec [OF that] by (simp add: end_metrics_def l_def)
  then show "length (p_inner s) + 2 \<le> n \<Longrightarrow> counted n now = request_counts (app_metrics st) @ [l]" .
  show "counted n now = request_counts (app_metrics st) \<or> counted n now = request_counts (app_metrics st) @ [l]"
  proof (cases "fst (snd (?polls n))")
    case True
    then have "counted n now = counted (n + (length (p_inner s) + 2)) now"
      unfolding counted using polls_ended by metis
    then show ?thesis using full [of "n + (length (p_inner s) + 2)"] by simp
  next
    case False
    then show ?thesis unfolding counted using polls_metrics_only_at_end by metis
  qed
qed

text \<open>What a handler may have counted when it is done: \<open>before\<close> is what was counted when it began.\<close>

definition counted_once ::
  "http_env \<Rightarrow> worker list \<Rightarrow> routing_policy \<Rightarrow> labels list \<Rightarrow> (api_error + chat_response) \<times> app_state \<Rightarrow> bool" where
  "counted_once env ws p before res \<longleftrightarrow>
     (case fst res of
        Inl e \<Rightarrow> ae_status e = 503 \<and> request_counts (app_metrics (snd res)) = before @ [request_label ''unrouted'' p 503]
          \<or> ae_status e = 502 \<and> (\<exists>w \<in> set ws. request_counts (app_metrics (snd res)) = before @ [request_label (url w) p 502])
          \<or> ae_status e = 500 \<and> (\<exists>v. \<not> env_header_ok env v) \<and> request_counts (app_metrics (snd res)) = before
      | Inr resp \<Rightarrow> cr_status resp = 200 \<and> request_counts (app_metrics (snd res)) = before
          \<and> t_worker (p_telemetry (cr_stream resp)) \<in> set ws \<and> t_policy (p_telemetry (cr_stream resp)) = p
          \<and> \<not> p_errored (cr_stream resp)
          \<and> map_of (cr_headers resp) ''x-router-worker'' = Some (url (t_worker (p_telemetry (cr_stream resp)))))"

lemma build_response_cases:
  "case build_response env up t hit k b of
     Inl e \<Rightarrow> ae_status e = 500 \<and> (\<exists>v. \<not> env_header_ok env v)
   | Inr resp \<Rightarrow> cr_status resp = 200 \<and> p_telemetry (cr_stream resp) = t \<and> \<not> p_errored (cr_stream resp)
       \<and> map_of (cr_headers resp) ''x-router-worker'' = Some (url (t_worker t))"
  by (auto simp: build_response_def api_error_new_def proxy_start_def list_all_iff Let_def)

lemma metrics_simps [simp]:
  "app_metrics (with_router r st) = app_metrics st"
  "app_metrics (release_slot g st) = app_metrics st"
  "app_metrics (count_outcome u k st) = record_request u (rt_policy (app_router st)) k (app_metrics st)"
  "app_metrics (snd (acquire_slot w st)) = app_metrics st"
  "rt_policy (app_router (with_router r st)) = rt_policy r"
  "rt_policy (app_router (release_slot g st)) = rt_policy (app_router st)"
  "rt_policy (app_router (snd (acquire_slot w st))) = rt_policy (app_router st)"
  by (simp_all add: with_router_def release_slot_def count_outcome_def acquire_slot_def Let_def case_prod_beta)

lemma forward_to_counts:
  assumes "d_worker d \<in> set ws"
  shows "counted_once env ws (rt_policy (app_router st)) (request_counts (app_metrics st))
    (forward_to env phase what d details b g st)"
proof -
  have "ae_status (api_upstream w e) = 502" for w e
    by (simp add: api_upstream_def api_error_new_def)
  then show ?thesis
    using assms build_response_cases
    by (force simp: counted_once_def forward_to_def Let_def split: sum.splits)
qed

lemma app_kv_with_router [simp]: "app_kv (with_router r st) = app_kv st"
  and app_registry_with_router [simp]: "app_registry (with_router r st) = app_registry st"
  by (simp_all add: with_router_def)

lemma counted_unrouted:
  "ae_status e = 503 \<Longrightarrow> rt_policy (app_router st) = p \<Longrightarrow> request_counts (app_metrics st) = before
     \<Longrightarrow> counted_once env ws p before (Inl e, count_outcome ''unrouted'' 503 st)"
  by (simp add: counted_once_def)

lemma counted_upstream:
  "w \<in> set ws \<Longrightarrow> rt_policy (app_router st) = p \<Longrightarrow> request_counts (app_metrics st) = before
     \<Longrightarrow> counted_once env ws p before (Inl (api_upstream w msg), release_slot g (count_outcome (url w) 502 st))"
  by (auto simp: counted_once_def api_upstream_def api_error_new_def)

section \<open>The handlers\<close>

text \<open>What the two selection functions return in a handler.\<close>

lemma chat_selected:
  assumes "app_inv st" and "rt_policy (app_router st) \<noteq> Disaggregated"
    and "select_for_chat clk (app_registry st) q (app_router st) = (sel, r)"
  shows "case sel of Inl e \<Rightarrow> ae_status (from_router_error e) = 503
      | Inr d \<Rightarrow> d_worker d \<in> set (healthy_workers (app_registry st))"
    and "rt_policy r = rt_policy (app_router st)"
proof -
  have inv: "router_inv (app_router st)" using assms(1) by (simp add: app_inv_def)
  have "(case sel of Inl e \<Rightarrow> ae_status (from_router_error e) = 503
      | Inr d \<Rightarrow> d_worker d \<in> set (healthy_workers (app_registry st))) \<and> rt_policy r = rt_policy (app_router st)"
  proof (cases "healthy_workers (app_registry st) = []")
    case True
    then show ?thesis
      using assms(3) select_for_chat_none [OF True, of clk q "app_router st"]
      by (auto simp: api_no_healthy_workers_def api_error_new_def)
  next
    case False
    from select_for_chat_ok [OF inv False assms(2), of clk q]
    obtain d r' where "select_for_chat clk (app_registry st) q (app_router st) = (Inr d, r')"
      and "d_worker d \<in> set (chat_candidates (healthy_workers (app_registry st)))"
      and "decided (wid (d_worker d)) (chain_of (app_router st) q) (app_router st) r'" by metis
    then show ?thesis
      using assms(3) set_chat_candidates decided_frame(2) by auto
  qed
  then show "case sel of Inl e \<Rightarrow> ae_status (from_router_error e) = 503
      | Inr d \<Rightarrow> d_worker d \<in> set (healthy_workers (app_registry st))"
    and "rt_policy r = rt_policy (app_router st)" by simp_all
qed

lemma pool_selected:
  assumes "app_inv st" and "select_in_pool clk (app_registry st) p chain (app_router st) = (sel, r)"
  shows "case sel of Inl e \<Rightarrow> ae_status (from_router_error e) = 503
      | Inr d \<Rightarrow> d_worker d \<in> set (healthy_workers (app_registry st))"
    and "rt_policy r = rt_policy (app_router st)" and "router_inv r"
proof -
  have inv: "reg_inv (app_registry st)" "router_inv (app_router st)" using assms(1) by (simp_all add: app_inv_def)
  note cases = select_in_pool_cases [OF inv assms(2)]
  show "rt_policy r = rt_policy (app_router st)" and "router_inv r" using cases(2,3) by simp_all
  show "case sel of Inl e \<Rightarrow> ae_status (from_router_error e) = 503
      | Inr d \<Rightarrow> d_worker d \<in> set (healthy_workers (app_registry st))"
  proof (cases sel)
    case (Inr d)
    then show ?thesis
      using cases(4) set_healthy_workers [OF inv(1)]
      by (auto simp: get_worker_def is_healthy_def reg_status_def split: option.splits)
  next
    case (Inl e)
    have "filter (\<lambda>w. wpool w = p) (healthy_workers (app_registry st)) = []"
      using select_in_pool_ok [OF inv(2), of p "app_registry st" clk chain] assms(2) Inl by (metis Inl_Inr_False Pair_inject)
    then show ?thesis
      using assms(2) Inl select_in_pool_none [of p "app_registry st" clk chain "app_router st"]
      by (auto simp: api_no_healthy_workers_def api_error_new_def)
  qed
qed

lemma proxied_counts:
  assumes "app_inv st" and "rt_policy (app_router st) \<noteq> Disaggregated"
  shows "counted_once env (healthy_workers (app_registry st)) (rt_policy (app_router st))
    (request_counts (app_metrics st)) (serve_proxied env clk q st)"
proof -
  obtain sel r where sel: "select_for_chat clk (app_registry st) q (app_router st) = (sel, r)" by fastforce
  note picked = chat_selected [OF assms sel]
  show ?thesis
  proof (cases sel)
    case (Inl e)
    then show ?thesis
      using sel picked by (simp add: serve_proxied_def counted_unrouted)
  next
    case (Inr d)
    let ?acq = "acquire_slot (wid (d_worker d)) (with_router r st)"
    have "counted_once env (healthy_workers (app_registry st)) (rt_policy (app_router (snd ?acq)))
        (request_counts (app_metrics (snd ?acq))) (forward_to env None ''upstream returned '' d Single (stream q) (fst ?acq) (snd ?acq))"
      using picked(1) Inr by (intro forward_to_counts) simp
    then show ?thesis
      using sel Inr picked(2) by (simp add: serve_proxied_def case_prod_beta)
  qed
qed

text \<open>The second half of the two-phase flow: the KV transfer and the decode phase.\<close>

abbreviation decode_phase ::
  "http_env \<Rightarrow> (nat \<Rightarrow> instant) \<Rightarrow> u64 list \<Rightarrow> worker_id \<Rightarrow> (nat \<Rightarrow> completion_details) \<Rightarrow> bool
     \<Rightarrow> app_state \<Rightarrow> (api_error + chat_response) \<times> app_state" where
  "decode_phase env clk chain w details b st \<equiv>
     (case select_in_pool clk (app_registry st) Decode chain (app_router st) of
       (Inl e, r) \<Rightarrow> (Inl (from_router_error e), count_outcome ''unrouted'' 503 (with_router r st))
     | (Inr decode, r) \<Rightarrow>
         let st = with_router r st;
             (took, result) = app_kv st w (wid (d_worker decode)) (length chain)
         in case result of
              Inl e \<Rightarrow> (Inl (from_router_error e), count_outcome (url (d_worker decode)) 502 st)
            | Inr _ \<Rightarrow>
                let ms = as_millis took;
                    st = st\<lparr>app_metrics := record_kv_transfer
                      (f64_div (f64_of_nat ms) (Fin 1000)) (app_metrics st)\<rparr>;
                    (g, st) = acquire_slot (wid (d_worker decode)) st
                in forward_to env (Some ''decode'') ''decode phase returned '' decode (details ms) b g st)"

lemma decode_counts:
  fixes p :: routing_policy
  assumes "app_inv st" and "rt_policy (app_router st) = p" and "request_counts (app_metrics st) = before"
    and kv: "\<forall>a b n e. snd (app_kv st a b n) = Inl e \<longrightarrow> (\<exists>f t reason. e = KvTransferFailed f t reason)"
  shows "counted_once env (healthy_workers (app_registry st)) p before (decode_phase env clk chain w det b st)"
proof -
  obtain sel r where sel: "select_in_pool clk (app_registry st) Decode chain (app_router st) = (sel, r)" by fastforce
  note picked = pool_selected [OF assms(1) sel]
  show ?thesis
  proof (cases sel)
    case (Inl e)
    then show ?thesis
      using sel picked assms(2,3) by (simp add: counted_unrouted)
  next
    case (Inr d)
    let ?st = "with_router r st"
    obtain took result where run: "app_kv ?st w (wid (d_worker d)) (length chain) = (took, result)" by fastforce
    show ?thesis
    proof (cases result)
      case (Inl e)
      then obtain f t reason where "e = KvTransferFailed f t reason"
        using kv run by (metis app_kv_with_router snd_conv)
      then show ?thesis
        using sel run \<open>sel = Inr d\<close> Inl picked assms(2,3) by (auto simp: counted_once_def api_error_new_def)
    next
      case (Inr x)
      let ?st1 = "?st\<lparr>app_metrics := record_kv_transfer (f64_div (f64_of_nat (as_millis took)) (Fin 1000)) (app_metrics ?st)\<rparr>"
      let ?acq = "acquire_slot (wid (d_worker d)) ?st1"
      have "counted_once env (healthy_workers (app_registry st)) (rt_policy (app_router (snd ?acq)))
          (request_counts (app_metrics (snd ?acq)))
          (forward_to env (Some ''decode'') ''decode phase returned '' d (det (as_millis took)) b (fst ?acq) (snd ?acq))"
        using picked(1) \<open>sel = Inr d\<close> by (intro forward_to_counts) simp
      then show ?thesis
        using sel run \<open>sel = Inr d\<close> Inr picked(2) assms(2,3) by (simp add: Let_def case_prod_beta)
    qed
  qed
qed

lemma disaggregated_counts:
  assumes "app_inv st"
    and kv: "\<forall>a b n e. snd (app_kv st a b n) = Inl e \<longrightarrow> (\<exists>f t reason. e = KvTransferFailed f t reason)"
  shows "counted_once env (healthy_workers (app_registry st)) (rt_policy (app_router st))
    (request_counts (app_metrics st)) (serve_disaggregated env clk1 clk2 ms q st)"
proof -
  let ?chain = "chain_hash (canonical_prompt q) (prompt_block_chars (app_config st))"
  obtain sel r where sel: "select_in_pool clk1 (app_registry st) Prefill ?chain (app_router st) = (sel, r)" by fastforce
  note picked = pool_selected [OF assms(1) sel]
  show ?thesis
  proof (cases sel)
    case (Inl e)
    then show ?thesis
      using sel picked by (simp add: serve_disaggregated_def Let_def counted_unrouted)
  next
    case (Inr d)
    let ?acq = "acquire_slot (wid (d_worker d)) (with_router r st)" and ?ws = "healthy_workers (app_registry st)"
    let ?st = "release_slot (fst ?acq) (snd ?acq)"
    have ws: "d_worker d \<in> set ?ws" using picked(1) Inr by simp
    have router: "app_router ?st = r" by (simp add: release_acquired with_router_def)
    have same: "app_registry ?st = app_registry st" "app_kv ?st = app_kv st" "app_config ?st = app_config st"
      "request_counts (app_metrics ?st) = request_counts (app_metrics st)"
      by (simp_all add: release_slot_def with_router_def acquire_slot_def Let_def case_prod_beta)
    have inv: "app_inv ?st" using assms(1) picked(3) by (simp add: app_inv_def router same)
    have pol: "rt_policy (app_router ?st) = rt_policy (app_router st)" using picked(2) by (simp add: router)
    have kv': "\<forall>a b n e. snd (app_kv ?st a b n) = Inl e \<longrightarrow> (\<exists>f t reason. e = KvTransferFailed f t reason)"
      using kv by (simp add: same)
    note rest = decode_counts [OF inv pol same(4) kv', where env = env and clk = clk2 and chain = ?chain
        and w = "wid (d_worker d)" and b = "stream q" and det = "TwoPhase (url (d_worker d)) ms"]
    have failed: "counted_once env ?ws (rt_policy (app_router st)) (request_counts (app_metrics st))
        (Inl (api_upstream (d_worker d) msg), release_slot (fst ?acq) (count_outcome (url (d_worker d)) 502 (snd ?acq)))" for msg
      using ws picked(2) by (intro counted_upstream) simp_all
    show ?thesis
    proof (cases "\<exists>up. env_send env (chat_url (d_worker d)) (Some ''prefill'') = Inr up \<and> is_success (up_status up)")
      case True
      then obtain up where "env_send env (chat_url (d_worker d)) (Some ''prefill'') = Inr up" and "is_success (up_status up)"
        by blast
      then have "serve_disaggregated env clk1 clk2 ms q st
          = decode_phase env clk2 ?chain (wid (d_worker d)) (TwoPhase (url (d_worker d)) ms) (stream q) ?st"
        by (simp add: serve_disaggregated_def Let_def sel Inr case_prod_beta)
      then show ?thesis using rest by (simp only: same(1))
    next
      case False
      then show ?thesis
        using failed sel Inr by (auto simp: serve_disaggregated_def Let_def case_prod_beta split: sum.split)
    qed
  qed
qed

text \<open>
  C11: a request is counted exactly once, under its outcome. Take a parsed request in a server
  whose router has the configured policy and whose KV connector fails only with the error made for
  it. If the handler fails, the client's status is 503, 502 or 500: a 503 was counted as
  \<open>unrouted\<close> with 503, a 502 under the URL of a healthy worker with 502, in either flow and
  whatever the phase that failed. A 500 happens only when the response's headers are refused, and
  is the one failure that is not counted. If the handler responds, it has the URL of a healthy worker
  in \<open>x-router-worker\<close> and nothing is counted yet. Reading the stream to its end counts one
  request under that URL, with 200, or 502 if the upstream broke off; a client that leaves before
  the end is not counted, and nobody is counted twice.
\<close>

theorem requests_are_counted_once:
  assumes "app_inv st" and "rt_policy (app_router st) = cfg_policy (app_config st)"
    and "\<forall>a b n e. snd (app_kv st a b n) = Inl e \<longrightarrow> (\<exists>f t reason. e = KvTransferFailed f t reason)"
    and "chat_completions env clk1 clk2 ms (Inr q) st = (res, st')"
  defines "ws \<equiv> healthy_workers (app_registry st)" and "p \<equiv> cfg_policy (app_config st)"
    and "before \<equiv> request_counts (app_metrics st)"
  shows "case res of
      Inl e \<Rightarrow>
        ae_status e = 503 \<and> request_counts (app_metrics st') = before @ [request_label ''unrouted'' p 503]
        \<or> ae_status e = 502 \<and> (\<exists>w \<in> set ws. request_counts (app_metrics st') = before @ [request_label (url w) p 502])
        \<or> ae_status e = 500 \<and> (\<exists>v. \<not> env_header_ok env v) \<and> request_counts (app_metrics st') = before
    | Inr resp \<Rightarrow> cr_status resp = 200 \<and> request_counts (app_metrics st') = before
        \<and> (\<exists>w \<in> set ws. map_of (cr_headers resp) ''x-router-worker'' = Some (url w)
             \<and> (\<forall>n now. let items = p_inner (cr_stream resp);
                           l = request_label (url w) p (if has_error items then 502 else 200);
                           after = request_counts (app_metrics (snd (client_reads n now resp st')))
                       in (after = before \<or> after = before @ [l]) \<and> (length items + 2 \<le> n \<longrightarrow> after = before @ [l])))"
proof -
  have "counted_once env ws p before (chat_completions env clk1 clk2 ms (Inr q) st)"
  proof (cases "cfg_policy (app_config st) = Disaggregated")
    case True
    then show ?thesis
      using disaggregated_counts [OF assms(1,3)]
      unfolding ws_def p_def before_def assms(2) by (simp add: chat_completions_def)
  next
    case False
    then show ?thesis
      using proxied_counts [OF assms(1)]
      unfolding ws_def p_def before_def assms(2) by (simp add: chat_completions_def)
  qed
  then have out: "counted_once env ws p before (res, st')" by (simp only: assms(4))
  show ?thesis
  proof (cases res)
    case (Inl e)
    then show ?thesis using out by (simp add: counted_once_def)
  next
    case (Inr resp)
    let ?s = "cr_stream resp"
    let ?l = "request_label (url (t_worker (p_telemetry ?s))) p (if has_error (p_inner ?s) then 502 else 200)"
    let ?after = "\<lambda>n now. request_counts (app_metrics (snd (client_reads n now resp st')))"
    from out Inr have resp: "cr_status resp = 200" "request_counts (app_metrics st') = before"
        "t_worker (p_telemetry ?s) \<in> set ws" "t_policy (p_telemetry ?s) = p" "\<not> p_errored ?s"
        "map_of (cr_headers resp) ''x-router-worker'' = Some (url (t_worker (p_telemetry ?s)))"
      by (simp_all add: counted_once_def)
    have "(?after n now = before \<or> ?after n now = before @ [?l])
        \<and> (length (p_inner ?s) + 2 \<le> n \<longrightarrow> ?after n now = before @ [?l])" for n now
      using client_counts [where resp = resp and st = st' and n = n and now = now] resp by simp
    then show ?thesis
      unfolding Inr sum.case Let_def using resp by blast
  qed
qed

definition live_network :: http_env where
  "live_network = dead_network\<lparr>env_send := \<lambda>_ _. Inr busy_upstream\<rparr>"

text \<open>A dead network counts one 502; a live one answers, and one 200 is counted when the client has read.\<close>

theorem requests_are_counted_once_witness:
  "(\<exists>e st' u. chat_completions dead_network Instant Instant 0 (Inr (sample_request (ascii ''hi'') [])) (sample_app CacheAware)
       = (Inl e, st') \<and> ae_status e = 502
     \<and> request_counts (app_metrics st') = [request_label u CacheAware 502])
   \<and> (\<exists>resp st' u. chat_completions live_network Instant Instant 0 (Inr (sample_request (ascii ''hi'') [])) (sample_app CacheAware)
       = (Inr resp, st') \<and> request_counts (app_metrics st') = []
     \<and> request_counts (app_metrics (snd (client_reads 2 9 resp st'))) = [request_label u CacheAware 200])"
proof -
  let ?st = "sample_app CacheAware" and ?q = "sample_request (ascii ''hi'') []"
  let ?run = "\<lambda>env. chat_completions env Instant Instant 0 (Inr ?q) ?st"
  have st: "rt_policy (app_router ?st) = CacheAware" "cfg_policy (app_config ?st) = CacheAware"
    "request_counts (app_metrics ?st) = []" "snd (app_kv ?st a b n) = Inr ()" for a b n
    by (simp_all add: sample_app_def sample_config_def router_new_def request_counts_def metrics_new_def mock_transfer_def)
  have ne: "healthy_workers (app_registry ?st) \<noteq> []"
    using sample_registry_healthy(2) by (auto simp: sample_app_def)
  have inv: "router_inv (app_router ?st)" and pol: "rt_policy (app_router ?st) \<noteq> Disaggregated"
    using sample_app_inv by (simp_all add: app_inv_def st)
  obtain d r where sel: "select_for_chat Instant (app_registry ?st) ?q (app_router ?st) = (Inr d, r)"
    by (rule select_for_chat_ok [OF inv ne pol, of Instant ?q])
  have kv: "\<forall>a b n e. snd (app_kv ?st a b n) = Inl e \<longrightarrow> (\<exists>f t reason. e = KvTransferFailed f t reason)"
    by (simp add: st)
  have same: "rt_policy (app_router ?st) = cfg_policy (app_config ?st)" by (simp add: st)
  note counted = requests_are_counted_once [OF sample_app_inv same kv surjective_pairing, of _ Instant Instant 0 ?q, unfolded st]
  have dead: "fst (?run dead_network) = Inl (api_upstream (d_worker d) ''connection refused'')"
    using sel by (simp add: chat_completions_def serve_proxied_def st forward_to_def dead_network_def Let_def case_prod_beta)
  have "ae_status (api_upstream (d_worker d) ''connection refused'') = 502"
    by (simp add: api_upstream_def api_error_new_def)
  then have first: "\<exists>u. request_counts (app_metrics (snd (?run dead_network))) = [request_label u CacheAware 502]"
    using counted [of dead_network] dead by auto
  obtain resp where resp: "fst (?run live_network) = Inr resp" and items: "p_inner (cr_stream resp) = []"
    using sel by (simp add: chat_completions_def serve_proxied_def st forward_to_def live_network_def dead_network_def
        busy_upstream_def is_success_def build_response_def list_all_iff proxy_start_def Let_def case_prod_beta)
  then have "request_counts (app_metrics (snd (?run live_network))) = []
      \<and> (\<exists>u. request_counts (app_metrics (snd (client_reads 2 9 resp (snd (?run live_network)))))
            = [request_label u CacheAware 200])"
    using counted [of live_network] by (auto simp: Let_def has_error_def)
  then show ?thesis
    using first dead resp \<open>ae_status _ = 502\<close> by (metis prod.collapse)
qed

end
