(* ===== verification/PyBindings.thy ===== *)
theory PyBindings
  imports Policies
begin

text \<open>
  \<open>crates/router-py/src/lib.rs\<close>: the Python bindings. A call either returns, raises an exception
  or panics; prompts and worker URLs arrive as Rust strings. The GIL is not modelled: each call
  is one sequential step on the state of its object.
\<close>

section \<open>Exceptions\<close>

datatype py_error = ValueError string | KvRouterError string | NoHealthyWorkersError string | PolicyError string

datatype 'a py_result = PyOk 'a | PyRaise py_error | PyPanic

fun to_py_error :: "router_error \<Rightarrow> py_error" where
  "to_py_error (NoHealthyWorkers p) = NoHealthyWorkersError (error_to_string (NoHealthyWorkers p))"
| "to_py_error (NoHealthyWorkersInPool q p) = NoHealthyWorkersError (error_to_string (NoHealthyWorkersInPool q p))"
| "to_py_error DisaggregatedRequiresTwoPhase = PolicyError (error_to_string DisaggregatedRequiresTwoPhase)"
| "to_py_error (PolicyNotImplemented p) = PolicyError (error_to_string (PolicyNotImplemented p))"
| "to_py_error e = KvRouterError (error_to_string e)"

definition parse_policy :: "string \<Rightarrow> py_error + routing_policy" where
  "parse_policy policy =
     (if policy = ''round_robin'' then Inr RoundRobin
      else if policy = ''cache_aware'' then Inr CacheAware
      else if policy = ''disaggregated'' then Inl (PolicyError
        (''policy `disaggregated` needs the two-phase server flow (prefill -> KV transfer -> ''
          @ ''decode); use the HTTP router for it''))
      else Inl (PolicyError (''unknown policy `'' @ policy @ ''`; expected `round_robin` or `cache_aware`'')))"

section \<open>\<open>PrefixIndex\<close>\<close>

text \<open>The inserted workers are a \<open>HashSet\<close>: a list without duplicates in unspecified order.\<close>

record py_prefix_index =
  py_inner :: prefix_index
  py_block_size :: nat
  py_ttl :: duration
  py_max_entries :: nat
  py_workers :: "worker_id list"

text \<open>\<open>Duration::from_secs_f64\<close> rounds to the nearest nanosecond and panics where the seconds do
  not fit a \<open>u64\<close>.\<close>

definition from_secs_f64 :: "f64 \<Rightarrow> duration option" where
  "from_secs_f64 x =
     (if \<not> is_finite x \<or> fval x < 0 \<or> 2 ^ 64 \<le> fval x then None
      else let n = nat (round_half_even (fval x * 1000000000))
           in if n < 2 ^ 64 * 1000000000 then Some n else None)"

text \<open>The comparison \<open>ttl_seconds < 0.0\<close>.\<close>

definition f64_less_zero :: "f64 \<Rightarrow> bool" where
  "f64_less_zero x \<longleftrightarrow> partial_cmp x pos_zero = Some Less"

definition py_index_new :: "nat \<Rightarrow> f64 \<Rightarrow> nat \<Rightarrow> py_prefix_index py_result" where
  "py_index_new bs ttl_seconds max_entries =
     (if bs = 0 then PyRaise (ValueError ''block_size must be >= 1'')
      else if \<not> is_finite ttl_seconds \<or> f64_less_zero ttl_seconds
      then PyRaise (ValueError ''ttl_seconds must be a finite, non-negative number'')
      else case from_secs_f64 ttl_seconds of
             None \<Rightarrow> PyPanic
           | Some ttl \<Rightarrow> PyOk \<lparr>py_inner = index_new, py_block_size = bs, py_ttl = ttl,
               py_max_entries = max_entries, py_workers = []\<rparr>)"

definition py_insert :: "instant \<Rightarrow> worker_id \<Rightarrow> ustring \<Rightarrow> py_prefix_index \<Rightarrow> py_prefix_index" where
  "py_insert now worker prompt p =
     (let chain = chain_hash prompt (py_block_size p);
          p = p\<lparr>py_inner := index_record now worker chain (py_inner p)\<rparr>
      in p\<lparr>py_workers := (if worker \<in> set (py_workers p) then py_workers p else py_workers p @ [worker])\<rparr>)"

text \<open>The matches of \<open>lookup\<close>, in the iteration order of the set; worker \<open>i\<close> reads \<open>clk i\<close>.\<close>

fun match_workers ::
  "(nat \<Rightarrow> instant) \<Rightarrow> nat \<Rightarrow> u64 list \<Rightarrow> worker_id list \<Rightarrow> prefix_index \<Rightarrow> (worker_id \<times> nat) list \<times> prefix_index" where
  "match_workers clk i chain [] idx = ([], idx)"
| "match_workers clk i chain (w # ws) idx =
     (let (k, idx) = longest_match (clk i) w chain idx;
          (rest, idx) = match_workers clk (Suc i) chain ws idx
      in ((w, k) # rest, idx))"

definition py_lookup :: "(nat \<Rightarrow> instant) \<Rightarrow> ustring \<Rightarrow> py_prefix_index \<Rightarrow> (worker_id \<times> nat) list \<times> py_prefix_index" where
  "py_lookup clk prompt p =
     (let chain = chain_hash prompt (py_block_size p);
          (matches, idx) = match_workers clk 0 chain (py_workers p) (py_inner p)
      in (sort_key fst matches, p\<lparr>py_inner := idx\<rparr>))"

definition py_evict_stale :: "instant \<Rightarrow> py_prefix_index \<Rightarrow> (nat \<times> nat) \<times> py_prefix_index" where
  "py_evict_stale now p =
     (let (stats, idx) = evict now (py_ttl p) (py_max_entries p) (py_inner p)
      in ((expired stats, lru_evicted stats), p\<lparr>py_inner := idx\<rparr>))"

definition py_len :: "py_prefix_index \<Rightarrow> nat" where
  "py_len p = index_len (py_inner p)"

section \<open>\<open>Router\<close>\<close>

text \<open>One core router per policy, created on first use over the shared registry.\<close>

record py_router =
  pr_registry :: worker_registry
  pr_config :: router_config
  pr_routers :: "(routing_policy, router) hashmap"

definition py_get_or_create :: "routing_policy \<Rightarrow> py_router \<Rightarrow> router \<times> py_router" where
  "py_get_or_create policy p =
     (case hm_get (pr_routers p) policy of
        Some r \<Rightarrow> (r, p)
      | None \<Rightarrow>
          let r = router_new ((pr_config p)\<lparr>cfg_policy := policy\<rparr>)
          in (r, p\<lparr>pr_routers := hm_insert policy r (pr_routers p)\<rparr>))"

definition py_router_new :: "string list \<Rightarrow> f64 \<Rightarrow> f64 \<Rightarrow> nat \<Rightarrow> py_router py_result" where
  "py_router_new workers cw lw bs =
     (if workers = [] then PyRaise (KvRouterError ''`workers` must not be empty'')
      else if bs = 0 then PyRaise (ValueError ''block_size must be >= 1'')
      else let config = \<lparr>cfg_workers = map (\<lambda>u. \<lparr>wc_url = u, wc_pool = Both\<rparr>) workers,
                 cfg_policy = RoundRobin, health_check_interval_secs = 5, prompt_block_chars = bs,
                 cfg_cache_weight = cw, cfg_load_weight = lw, prefix_index_ttl_secs = 300,
                 prefix_index_max_entries = 100000, kv_transfer_cost_ms = 20, metrics_scrape = False,
                 engine_metrics_interval_secs = 15, engine_cache_hit_metric = ''vllm:gpu_prefix_cache_hit_rate'',
                 cfg_discovery = discovery_config_default\<rparr>;
               registry = fold (\<lambda>i r. snd (set_healthy (of_nat i) True r)) [0..<length workers]
                 (from_config (cfg_workers config))
           in PyOk \<lparr>pr_registry = registry, pr_config = config, pr_routers = []\<rparr>)"

definition py_request :: "ustring \<Rightarrow> unit chat_request" where
  "py_request prompt = \<lparr>model = ascii ''python-embedding'',
     messages = [\<lparr>msg_role = ascii ''user'', msg_content = prompt\<rparr>],
     max_tokens = None, temperature = None, stream = False, extra = []\<rparr>"

definition py_decide ::
  "(nat \<Rightarrow> instant) \<Rightarrow> ustring \<Rightarrow> string \<Rightarrow> py_router \<Rightarrow> route_decision py_result \<times> py_router" where
  "py_decide clk prompt policy p =
     (case parse_policy policy of
        Inl e \<Rightarrow> (PyRaise e, p)
      | Inr pol \<Rightarrow>
          let (r, p) = py_get_or_create pol p
          in case select_for_chat clk (pr_registry p) (py_request prompt) r of
               (Inl e, r) \<Rightarrow> (PyRaise (to_py_error e), p\<lparr>pr_routers := hm_insert pol r (pr_routers p)\<rparr>)
             | (Inr d, r) \<Rightarrow> (PyOk d, p\<lparr>pr_routers := hm_insert pol r (pr_routers p)\<rparr>))"

definition py_select_worker ::
  "(nat \<Rightarrow> instant) \<Rightarrow> ustring \<Rightarrow> string \<Rightarrow> py_router \<Rightarrow> string py_result \<times> py_router" where
  "py_select_worker clk prompt policy p =
     (case py_decide clk prompt policy p of
        (PyOk d, p) \<Rightarrow> (PyOk (url (d_worker d)), p)
      | (PyRaise e, p) \<Rightarrow> (PyRaise e, p)
      | (PyPanic, p) \<Rightarrow> (PyPanic, p))"

record py_route_decision =
  prd_worker :: string
  prd_matched_blocks :: nat
  prd_prompt_blocks :: nat
  prd_score :: f64

definition py_route ::
  "(nat \<Rightarrow> instant) \<Rightarrow> ustring \<Rightarrow> string \<Rightarrow> py_router \<Rightarrow> py_route_decision py_result \<times> py_router" where
  "py_route clk prompt policy p =
     (case py_decide clk prompt policy p of
        (PyOk d, p) \<Rightarrow> (PyOk \<lparr>prd_worker = url (d_worker d), prd_matched_blocks = matched_prefix_len d,
            prd_prompt_blocks = prompt_blocks d, prd_score = d_score d\<rparr>, p)
      | (PyRaise e, p) \<Rightarrow> (PyRaise e, p)
      | (PyPanic, p) \<Rightarrow> (PyPanic, p))"

section \<open>Properties\<close>

definition py_index_inv :: "py_prefix_index \<Rightarrow> bool" where
  "py_index_inv p \<longleftrightarrow> index_inv (py_inner p) \<and> distinct (py_workers p)
     \<and> (\<forall>w h. holds (py_inner p) w h \<longrightarrow> w \<in> set (py_workers p))"

lemma match_workers_spec:
  assumes "index_inv idx"
  shows "fst (match_workers clk i chain ws idx) = map (\<lambda>w. (w, length (takeWhile (holds idx w) chain))) ws
    \<and> index_inv (snd (match_workers clk i chain ws idx)) \<and> holds (snd (match_workers clk i chain ws idx)) = holds idx"
  using assms
proof (induction ws arbitrary: i idx)
  case (Cons w ws)
  obtain k idx1 where match: "longest_match (clk i) w chain idx = (k, idx1)" by fastforce
  have "index_inv idx1" and "holds idx1 = holds idx" and "k = length (takeWhile (holds idx w) chain)"
    using idx.inv_match [OF Cons.prems, of "clk i" w chain] idx.believes_match [OF Cons.prems, of "clk i" w chain]
      idx.match_value [OF Cons.prems, of "clk i" w chain] match by simp_all
  then show ?case
    using match Cons.IH [of idx1 "Suc i"] by (simp add: case_prod_beta)
qed simp

text \<open>
  C33: the Python prefix index. \<open>lookup\<close> lists every worker that was ever inserted exactly once, in
  increasing order, with its matched blocks, and changes no belief; after \<open>insert\<close> the worker is
  listed for the prompt with all of the prompt's blocks, and a worker that is not listed holds
  nothing.
\<close>

theorem py_lookup_lists_matches:
  assumes "py_index_inv p"
  shows "sorted_wrt (<) (map fst (fst (py_lookup clk prompt p)))
    \<and> set (map fst (fst (py_lookup clk prompt p))) = set (py_workers p)
    \<and> (\<forall>(w, k) \<in> set (fst (py_lookup clk prompt p)).
          k = fst (longest_match t w (chain_hash prompt (py_block_size p)) (py_inner p)))
    \<and> py_index_inv (snd (py_lookup clk prompt p)) \<and> holds (py_inner (snd (py_lookup clk prompt p))) = holds (py_inner p)
    \<and> py_index_inv (py_insert now w prompt p)
    \<and> (w, length (chain_hash prompt (py_block_size p))) \<in> set (fst (py_lookup clk prompt (py_insert now w prompt p)))"
proof -
  have look: "fst (py_lookup c q u) = sort_key fst (map (\<lambda>w. (w, length (takeWhile (holds (py_inner u) w)
        (chain_hash q (py_block_size u))))) (py_workers u))
      \<and> py_index_inv (snd (py_lookup c q u)) \<and> holds (py_inner (snd (py_lookup c q u))) = holds (py_inner u)"
    if "py_index_inv u" for u c q
    using match_workers_spec [of "py_inner u" c 0 "chain_hash q (py_block_size u)" "py_workers u"] that
    by (simp add: py_lookup_def Let_def case_prod_beta py_index_inv_def)
  have idx: "index_inv (py_inner p)" and dist: "distinct (py_workers p)"
    using assms by (simp_all add: py_index_inv_def)
  have ins: "py_index_inv (py_insert now w prompt p)"
    using assms idx.inv_learn [OF idx] idx.believes_learn [OF idx]
    by (auto simp: py_index_inv_def py_insert_def Let_def)
  have "holds (py_inner (py_insert now w prompt p)) w h" if "h \<in> set (chain_hash prompt (py_block_size p))" for h
    using idx.believes_learn [OF idx] that by (simp add: py_insert_def Let_def)
  then have all: "takeWhile (holds (py_inner (py_insert now w prompt p)) w) (chain_hash prompt (py_block_size p))
      = chain_hash prompt (py_block_size p)"
    by (simp add: takeWhile_eq_all_conv)
  have "w \<in> set (py_workers (py_insert now w prompt p))" and bs: "py_block_size (py_insert now w prompt p) = py_block_size p"
    by (auto simp: py_insert_def Let_def)
  then have "(w, length (chain_hash prompt (py_block_size p))) \<in> set (fst (py_lookup clk prompt (py_insert now w prompt p)))"
    using look [OF ins, of clk prompt] by (auto simp: bs all image_iff intro!: bexI [of _ w])
  moreover have "sorted_wrt (<) (map fst (fst (py_lookup clk prompt p)))"
    using look [OF assms, of clk prompt] dist by (simp add: strict_sorted_iff distinct_map comp_def inj_on_def)
  ultimately show ?thesis
    using look [OF assms, of clk prompt] ins idx.match_value [OF idx] by (auto simp: image_iff)
qed

lemma py_index_inv_new: "py_index_new bs ttl cap = PyOk p \<Longrightarrow> py_index_inv p"
proof -
  assume "py_index_new bs ttl cap = PyOk p"
  then have "py_inner p = index_new" and "py_workers p = []"
    by (auto simp: py_index_new_def split: if_splits option.splits)
  then show ?thesis by (simp add: py_index_inv_def index_inv_new holds_index_new)
qed

theorem py_lookup_lists_matches_witness:
  "(7, length (chain_hash (ascii ''hello'') 2))
     \<in> set (fst (py_lookup Instant (ascii ''hello'') (py_insert (Instant 0) 7 (ascii ''hello'')
         \<lparr>py_inner = index_new, py_block_size = 2, py_ttl = 9, py_max_entries = 5, py_workers = []\<rparr>)))"
proof -
  let ?q = "\<lparr>py_inner = index_new, py_block_size = 2, py_ttl = 9, py_max_entries = 5, py_workers = []\<rparr>"
  have "py_index_inv ?q" by (simp add: py_index_inv_def index_inv_new holds_index_new)
  from py_lookup_lists_matches [OF this, where w = 7 and prompt = "ascii ''hello''" and clk = Instant and now = "Instant 0"]
  show ?thesis by simp
qed

text \<open>
  A time to live that passes validation, being finite and non-negative, but does not fit a
  \<open>Duration\<close> makes the constructor panic instead of raising an exception.
\<close>

theorem py_index_new_panics:
  assumes "0 < bs" and "is_finite ttl" and "2 ^ 64 \<le> fval ttl"
  shows "py_index_new bs ttl max_entries = PyPanic"
proof -
  have "(0 :: rat) < 2 ^ 64" by simp
  with assms(3) have pos: "0 < fval ttl" by (rule less_le_trans [rotated])
  then have "\<not> f64_less_zero ttl"
    using assms(2) by (simp add: f64_less_zero_def pos_zero_def partial_cmp_finite cmp_of_def)
  then show ?thesis
    using assms by (simp add: py_index_new_def from_secs_f64_def)
qed

theorem py_index_new_panics_witness:
  "py_index_new 512 (Fin (2 ^ 64)) 100000 = PyPanic"
  by (rule py_index_new_panics) simp_all

section \<open>The router object\<close>

text \<open>Setting the first \<open>k\<close> configured workers healthy.\<close>

lemma status_set_up:
  assumes "length ws < 2 ^ 64" and "k \<le> length ws"
  defines "r \<equiv> fold (\<lambda>i r. snd (set_healthy (of_nat i) True r)) [0..<k] (from_config ws)"
  shows "reg_inv r" and "reg_status r i
    = (if unat i < length ws then Some (configured_worker ws (unat i), unat i < k) else None)"
proof -
  let ?r = "\<lambda>k. fold (\<lambda>i r. snd (set_healthy (of_nat i) True r)) [0..<k] (from_config ws)"
  have "reg_inv (?r k) \<and> (\<forall>i. reg_status (?r k) i
      = (if unat i < length ws then Some (configured_worker ws (unat i), unat i < k) else None))"
    using assms(2)
  proof (induction k)
    case 0
    then show ?case using reg_inv_from_config [OF assms(1)] status_from_config [OF assms(1)] by simp
  next
    case (Suc k)
    then have inv: "reg_inv (?r k)" and status: "reg_status (?r k) i
        = (if unat i < length ws then Some (configured_worker ws (unat i), unat i < k) else None)" for i
      by simp_all
    have "unat (of_nat k :: worker_id) = k"
      using Suc.prems assms(1) by (simp add: unat_of_nat take_bit_nat_eq_self)
    then have "i = of_nat k \<longleftrightarrow> unat i = k" for i :: worker_id by (metis of_nat_unat ucast_id)
    then show ?case
      using reg.inv_mark [OF inv] reg.status_mark [OF inv] status Suc.prems by (auto simp: less_Suc_eq)
  qed
  then show "reg_inv r" and "reg_status r i
    = (if unat i < length ws then Some (configured_worker ws (unat i), unat i < k) else None)"
    by (simp_all add: r_def)
qed

text \<open>
  Every worker of the list is healthy for good, and every core router made so far has the policy
  it is kept under, never the disaggregated one.
\<close>

definition py_router_inv :: "string list \<Rightarrow> nat \<Rightarrow> py_router \<Rightarrow> bool" where
  "py_router_inv ws bs p \<longleftrightarrow> reg_inv (pr_registry p) \<and> healthy_workers (pr_registry p) \<noteq> []
     \<and> (\<forall>w \<in> set (healthy_workers (pr_registry p)). url w \<in> set ws)
     \<and> prompt_block_chars (pr_config p) = bs
     \<and> (\<forall>pol r. hm_get (pr_routers p) pol = Some r \<longrightarrow> router_inv r \<and> rt_policy r = pol \<and> block_size r = max bs 1)"

lemma py_router_inv_new:
  assumes "py_router_new ws cw lw bs = PyOk p" and "length ws < 2 ^ 64"
  shows "py_router_inv ws bs p" and "1 \<le> bs"
proof -
  let ?configs = "map (\<lambda>u. \<lparr>wc_url = u, wc_pool = Both\<rparr>) ws"
  have ne: "ws \<noteq> []" and "1 \<le> bs"
    and p: "pr_registry p = fold (\<lambda>i r. snd (set_healthy (of_nat i) True r)) [0..<length ws] (from_config ?configs)"
      "prompt_block_chars (pr_config p) = bs" "pr_routers p = []"
    using assms(1) by (auto simp: py_router_new_def Let_def split: if_splits)
  show "1 \<le> bs" by fact
  have len: "length ?configs < 2 ^ 64" "length ws \<le> length ?configs" using assms(2) by simp_all
  note up = status_set_up [OF len, folded p(1)]
  have "url w \<in> set ws" if "w \<in> set (healthy_workers (pr_registry p))" for w
  proof -
    have "unat (wid w) < length ws" and "configured_worker ?configs (unat (wid w)) = w"
      using that up(2) [of "wid w"] reg.healthy_set [OF up(1)] by (auto split: if_splits)
    then have "url w = ws ! unat (wid w)" by (metis configured_worker_def nth_map worker.select_convs(2) worker_config.select_convs(1))
    then show ?thesis using \<open>unat (wid w) < length ws\<close> by simp
  qed
  moreover have "configured_worker ?configs 0 \<in> set (healthy_workers (pr_registry p))"
    using ne up(2) [of 0] reg.healthy_set [OF up(1)] by (simp add: configured_worker_def)
  ultimately show "py_router_inv ws bs p"
    using up(1) by (auto simp: py_router_inv_def p(2,3) hashmap_simps)
qed

lemma py_get_or_create_spec:
  assumes "py_router_inv ws bs p" and "py_get_or_create pol p = (r, p')"
  shows "py_router_inv ws bs p'" and "router_inv r" and "rt_policy r = pol" and "block_size r = max bs 1"
    and "pr_registry p' = pr_registry p"
proof -
  let ?r = "router_new ((pr_config p)\<lparr>cfg_policy := pol\<rparr>)"
  have fresh: "router_inv ?r" "rt_policy ?r = pol" "block_size ?r = max (prompt_block_chars (pr_config p)) 1"
    by (rule router_inv_new) (simp_all add: router_new_def)
  show "py_router_inv ws bs p'" and "router_inv r" and "rt_policy r = pol" and "block_size r = max bs 1"
    and "pr_registry p' = pr_registry p"
    using assms fresh
    by (auto simp: py_get_or_create_def py_router_inv_def Let_def hashmap_simps split: option.splits if_splits)
qed

lemma py_decide_known:
  assumes "py_router_inv ws bs p" and "parse_policy policy = Inr pol"
  obtains d p' where "py_decide clk prompt policy p = (PyOk d, p')" and "py_router_inv ws bs p'"
    and "url (d_worker d) \<in> set ws" and "prompt_blocks d = length (chain_hash (canonical_prompt (py_request prompt)) (max bs 1))"
    and "matched_prefix_len d \<le> prompt_blocks d"
proof -
  obtain r p1 where get: "py_get_or_create pol p = (r, p1)" by fastforce
  note spec = py_get_or_create_spec [OF assms(1) get]
  have ne: "healthy_workers (pr_registry p1) \<noteq> []" using spec(1) by (simp add: py_router_inv_def)
  have pol: "rt_policy r \<noteq> Disaggregated"
    using assms(2) spec(3) by (auto simp: parse_policy_def split: if_splits)
  obtain d r' where sel: "select_for_chat clk (pr_registry p1) (py_request prompt) r = (Inr d, r')"
    and cand: "d_worker d \<in> set (chat_candidates (healthy_workers (pr_registry p1)))"
    and dec: "decided (wid (d_worker d)) (chain_of r (py_request prompt)) r r'"
    and d: "matched_prefix_len d = match_len r (wid (d_worker d)) (chain_of r (py_request prompt))"
      "prompt_blocks d = length (chain_of r (py_request prompt))"
    by (rule select_for_chat_ok [OF spec(2) ne pol, of clk "py_request prompt"])
  have "py_router_inv ws bs (p1\<lparr>pr_routers := hm_insert pol r' (pr_routers p1)\<rparr>)"
    using spec decided_frame [OF dec] by (simp add: py_router_inv_def hashmap_simps)
  moreover have "url (d_worker d) \<in> set ws"
    using set_chat_candidates [OF cand] spec(1) by (simp add: py_router_inv_def)
  ultimately show thesis
    using sel get assms(2) d match_len_le spec(4)
    by (intro that [of d "p1\<lparr>pr_routers := hm_insert pol r' (pr_routers p1)\<rparr>"]) (simp_all add: py_decide_def)
qed

lemma py_decide_unknown:
  "policy \<notin> {''round_robin'', ''cache_aware''} \<Longrightarrow> \<exists>m. py_decide clk prompt policy p = (PyRaise (PolicyError m), p)"
  by (auto simp: py_decide_def parse_policy_def)

lemma parse_policy_known:
  "policy \<in> {''round_robin'', ''cache_aware''} \<Longrightarrow> \<exists>pol. parse_policy policy = Inr pol"
  by (auto simp: parse_policy_def)

lemma py_router_inv_route:
  assumes "py_router_inv ws bs p"
  shows "py_router_inv ws bs (snd (py_route clk prompt policy p))"
proof (cases "policy \<in> {''round_robin'', ''cache_aware''}")
  case True
  from parse_policy_known [OF True] obtain pol where known: "parse_policy policy = Inr pol" ..
  obtain d p' where "py_decide clk prompt policy p = (PyOk d, p')" and "py_router_inv ws bs p'"
    by (rule py_decide_known [OF assms known, of clk prompt])
  then show ?thesis by (simp add: py_route_def)
next
  case False
  obtain m where "py_decide clk prompt policy p = (PyRaise (PolicyError m), p)"
    using py_decide_unknown [OF False] by metis
  then show ?thesis using assms by (simp add: py_route_def)
qed

text \<open>
  C34: the Python router is total. However often an object has been used before, \<open>route\<close> and
  \<open>select_worker\<close> never panic: under the two policies they know they return a worker of the list the
  object was made with, the same one, with at most all blocks of the prompt matched; under any other
  policy string they raise \<open>PolicyError\<close> and change nothing.
\<close>

theorem py_router_total:
  assumes "py_router_new ws cw lw bs = PyOk p0" and "length ws < 2 ^ 64"
    and "p = fold (\<lambda>(clk, prompt, policy) p. snd (py_route clk prompt policy p)) calls p0"
  shows "if policy = ''round_robin'' \<or> policy = ''cache_aware''
    then \<exists>d p'. py_route clk prompt policy p = (PyOk d, p') \<and> py_select_worker clk prompt policy p = (PyOk (prd_worker d), p')
      \<and> prd_worker d \<in> set ws \<and> prd_matched_blocks d \<le> prd_prompt_blocks d
      \<and> prd_prompt_blocks d = length (chain_hash (canonical_prompt (py_request prompt)) bs)
    else \<exists>m. py_route clk prompt policy p = (PyRaise (PolicyError m), p)
      \<and> py_select_worker clk prompt policy p = (PyRaise (PolicyError m), p)"
proof -
  have "py_router_inv ws bs q \<Longrightarrow> py_router_inv ws bs (fold (\<lambda>(clk, prompt, policy) p. snd (py_route clk prompt policy p)) calls q)" for q
    by (induction calls arbitrary: q) (auto intro: py_router_inv_route)
  then have inv: "py_router_inv ws bs p" and bs: "max bs 1 = bs"
    using py_router_inv_new [OF assms(1,2)] by (simp_all add: assms(3) max_def)
  show ?thesis
  proof (cases "policy = ''round_robin'' \<or> policy = ''cache_aware''")
    case True
    then have "policy \<in> {''round_robin'', ''cache_aware''}" by simp
    from parse_policy_known [OF this] obtain pol where "parse_policy policy = Inr pol" ..
    from py_decide_known [OF inv this, of clk prompt] obtain d p' where
      "py_decide clk prompt policy p = (PyOk d, p')" "url (d_worker d) \<in> set ws"
      "prompt_blocks d = length (chain_hash (canonical_prompt (py_request prompt)) bs)"
      "matched_prefix_len d \<le> prompt_blocks d"
      unfolding bs by metis
    then show ?thesis using True by (simp add: py_route_def py_select_worker_def)
  next
    case False
    then show ?thesis
      using py_decide_unknown [of policy clk prompt p] by (auto simp: py_route_def py_select_worker_def)
  qed
qed

theorem py_router_total_witness:
  "\<exists>p0. py_router_new [''http://a'', ''http://b''] default_cache_weight default_load_weight 512 = PyOk p0
     \<and> (\<exists>d p'. py_route Instant (ascii ''hello'') ''cache_aware'' (snd (py_route Instant (ascii ''hi'') ''round_robin'' p0)) = (PyOk d, p')
          \<and> prd_worker d \<in> {''http://a'', ''http://b''})"
proof -
  obtain p0 where new: "py_router_new [''http://a'', ''http://b''] default_cache_weight default_load_weight 512 = PyOk p0"
    by (simp add: py_router_new_def Let_def)
  show ?thesis
    using py_router_total [OF new _ refl, where calls = "[(Instant, ascii ''hi'', ''round_robin'')]"
        and policy = "''cache_aware''" and clk = Instant and prompt = "ascii ''hello''"] new
    by auto
qed

end
