(* ===== verification/Tasks.thy ===== *)
theory Tasks
  imports Chat Health Discovery Engine_Metrics
begin

text \<open>
  The handlers of \<open>api.rs\<close> cut at their await points. A handler is a future: between two awaits
  it runs without giving up its thread, and at an await other handlers and the background tasks
  run. A suspended handler is a \<open>task\<close>, which owns the in-flight guard of its phase; dropping the
  future, as the server does when a client disconnects early, drops that guard. Run to the end
  without interruption the segments are \<open>chat_completions\<close>.
\<close>

section \<open>Suspended handlers\<close>

text \<open>
  Waiting for the upstream of the only or of the decode phase; for the prefill phase; for the KV
  transfer. The fields are the local variables live across the await.
\<close>

datatype task =
    Sending "string option" string route_decision completion_details bool inflight_guard
  | Prefilling bool "u64 list" route_decision inflight_guard
  | Transferring bool "u64 list" worker route_decision nat

datatype progress = Failed api_error | Suspended task | Responded chat_response

definition begin_proxied :: "(nat \<Rightarrow> instant) \<Rightarrow> 'json chat_request \<Rightarrow> app_state \<Rightarrow> progress \<times> app_state" where
  "begin_proxied clk request st =
     (case select_for_chat clk (app_registry st) request (app_router st) of
        (Inl e, r) \<Rightarrow> (Failed (from_router_error e), count_outcome ''unrouted'' 503 (with_router r st))
      | (Inr d, r) \<Rightarrow>
          let (g, st) = acquire_slot (wid (d_worker d)) (with_router r st)
          in (Suspended (Sending None ''upstream returned '' d Single (stream request) g), st))"

definition begin_disaggregated ::
  "(nat \<Rightarrow> instant) \<Rightarrow> 'json chat_request \<Rightarrow> app_state \<Rightarrow> progress \<times> app_state" where
  "begin_disaggregated clk request st =
     (let chain = chain_hash (canonical_prompt request) (prompt_block_chars (app_config st))
      in case select_in_pool clk (app_registry st) Prefill chain (app_router st) of
           (Inl e, r) \<Rightarrow> (Failed (from_router_error e), count_outcome ''unrouted'' 503 (with_router r st))
         | (Inr d, r) \<Rightarrow>
             let (g, st) = acquire_slot (wid (d_worker d)) (with_router r st)
             in (Suspended (Prefilling (stream request) chain d g), st))"

definition begin_request :: "(nat \<Rightarrow> instant) \<Rightarrow> 'json chat_request \<Rightarrow> app_state \<Rightarrow> progress \<times> app_state" where
  "begin_request clk request st =
     (if cfg_policy (app_config st) = Disaggregated then begin_disaggregated clk request st
      else begin_proxied clk request st)"

definition resume_prefill ::
  "http_env \<Rightarrow> (nat \<Rightarrow> instant) \<Rightarrow> nat \<Rightarrow> bool \<Rightarrow> u64 list \<Rightarrow> route_decision \<Rightarrow> inflight_guard \<Rightarrow> app_state
     \<Rightarrow> progress \<times> app_state" where
  "resume_prefill env clk prefill_ms streaming chain prefill g st =
     (let w = d_worker prefill
      in case env_send env (chat_url w) (Some ''prefill'') of
           Inl e \<Rightarrow> (Failed (api_upstream w e), release_slot g (count_outcome (url w) 502 st))
         | Inr up \<Rightarrow>
             if \<not> is_success (up_status up)
             then (Failed (api_upstream w (''prefill phase returned '' @ up_status_text up)),
                   release_slot g (count_outcome (url w) 502 st))
             else let st = release_slot g st
                  in case select_in_pool clk (app_registry st) Decode chain (app_router st) of
                       (Inl e, r) \<Rightarrow> (Failed (from_router_error e), count_outcome ''unrouted'' 503 (with_router r st))
                     | (Inr decode, r) \<Rightarrow> (Suspended (Transferring streaming chain w decode prefill_ms), with_router r st))"

definition resume_transfer ::
  "bool \<Rightarrow> u64 list \<Rightarrow> worker \<Rightarrow> route_decision \<Rightarrow> nat \<Rightarrow> app_state \<Rightarrow> progress \<times> app_state" where
  "resume_transfer streaming chain w decode prefill_ms st =
     (let (took, result) = app_kv st (wid w) (wid (d_worker decode)) (length chain)
      in case result of
           Inl e \<Rightarrow> (Failed (from_router_error e), count_outcome (url (d_worker decode)) 502 st)
         | Inr _ \<Rightarrow>
             let ms = as_millis took;
                 st = st\<lparr>app_metrics := record_kv_transfer (f64_div (f64_of_nat ms) (Fin 1000)) (app_metrics st)\<rparr>;
                 (g, st) = acquire_slot (wid (d_worker decode)) st
             in (Suspended (Sending (Some ''decode'') ''decode phase returned '' decode
                   (TwoPhase (url w) prefill_ms ms) streaming g), st))"

fun resume :: "http_env \<Rightarrow> (nat \<Rightarrow> instant) \<Rightarrow> nat \<Rightarrow> task \<Rightarrow> app_state \<Rightarrow> progress \<times> app_state" where
  "resume env clk ms (Sending phase what d details s g) st =
     (case forward_to env phase what d details s g st of
        (Inl e, st) \<Rightarrow> (Failed e, st)
      | (Inr resp, st) \<Rightarrow> (Responded resp, st))"
| "resume env clk ms (Prefilling s chain d g) st = resume_prefill env clk ms s chain d g st"
| "resume env clk ms (Transferring s chain w d pms) st = resume_transfer s chain w d pms st"

text \<open>The guard a suspended handler owns, and what dropping its future does.\<close>

fun task_guard :: "task \<Rightarrow> inflight_guard option" where
  "task_guard (Sending phase what d details s g) = Some g"
| "task_guard (Prefilling s chain d g) = Some g"
| "task_guard (Transferring s chain w d ms) = None"

definition abandon :: "task \<Rightarrow> app_state \<Rightarrow> app_state" where
  "abandon t st = (case task_guard t of None \<Rightarrow> st | Some g \<Rightarrow> release_slot g st)"

section \<open>A handler is its segments\<close>

text \<open>At most \<open>n\<close> resumptions without interruption.\<close>

fun run_progress ::
  "nat \<Rightarrow> http_env \<Rightarrow> (nat \<Rightarrow> instant) \<Rightarrow> nat \<Rightarrow> progress \<times> app_state \<Rightarrow> (api_error + chat_response) option \<times> app_state"
  where
  "run_progress n env clk ms (Failed e, st) = (Some (Inl e), st)"
| "run_progress n env clk ms (Responded resp, st) = (Some (Inr resp), st)"
| "run_progress 0 env clk ms (Suspended t, st) = (None, st)"
| "run_progress (Suc n) env clk ms (Suspended t, st) = run_progress n env clk ms (resume env clk ms t st)"

lemma run_progress_sending:
  "run_progress (Suc n) env clk ms (Suspended (Sending phase what d details s g), st)
     = map_prod Some id (forward_to env phase what d details s g st)"
  by (auto split: prod.splits sum.splits)

lemma run_progress_proxied:
  "run_progress (Suc n) env clk2 ms (begin_proxied clk request st)
     = map_prod Some id (serve_proxied env clk request st)"
  by (simp add: begin_proxied_def serve_proxied_def Let_def case_prod_beta run_progress_sending
      del: run_progress.simps(4) split: sum.splits prod.splits)

lemma run_progress_transfer:
  "run_progress (Suc n) env clk2 ms (resume_transfer s chain w decode pms st)
     = (let (took, result) = app_kv st (wid w) (wid (d_worker decode)) (length chain)
        in case result of
             Inl e \<Rightarrow> (Some (Inl (from_router_error e)), count_outcome (url (d_worker decode)) 502 st)
           | Inr _ \<Rightarrow>
               let ms = as_millis took;
                   st = st\<lparr>app_metrics := record_kv_transfer (f64_div (f64_of_nat ms) (Fin 1000)) (app_metrics st)\<rparr>;
                   (g, st) = acquire_slot (wid (d_worker decode)) st
               in map_prod Some id (forward_to env (Some ''decode'') ''decode phase returned '' decode
                    (TwoPhase (url w) pms ms) s g st))"
  by (simp add: resume_transfer_def Let_def case_prod_beta run_progress_sending
      del: run_progress.simps(4) split: sum.splits prod.splits)

lemma run_progress_disaggregated:
  "run_progress (Suc (Suc (Suc n))) env clk2 ms (begin_disaggregated clk1 request st)
     = map_prod Some id (serve_disaggregated env clk1 clk2 ms request st)"
  by (auto simp: begin_disaggregated_def serve_disaggregated_def resume_prefill_def Let_def case_prod_beta
      run_progress_transfer del: run_progress.simps(4) simp: run_progress.simps(4) [of "Suc n" for n]
      split: sum.splits prod.splits)

text \<open>Three resumptions always suffice, and leave what \<open>chat_completions\<close> leaves.\<close>

lemma run_progress_handler:
  "run_progress 3 env clk2 ms (begin_request clk1 request st)
     = map_prod Some id (chat_completions env clk1 clk2 ms (Inr request) st)"
  by (simp add: begin_request_def chat_completions_def numeral_3_eq_3 run_progress_disaggregated
      run_progress_proxied del: run_progress.simps(4))

end
