(* ===== verification/System.thy ===== *)
theory System
  imports Tasks
begin

text \<open>
  The running server as a transition system. Its steps are the segments between await points of
  the request handlers (\<open>api.rs\<close>), of the health poller, the engine metrics scraper and the
  discovery watch, the eviction sweep of \<open>prefix.rs\<close>, and what clients do with their responses;
  \<open>serve\<close> in \<open>lib.rs\<close> starts exactly these tasks over one shared state.

  Each step is atomic here, which is a restriction: \<open>main.rs\<close> runs on a runtime with several
  threads, so in the program another thread can run inside a step, for instance between the reading
  of the healthy workers and the recording in \<open>select_for_chat\<close>, or between \<open>reconcile\<close> and
  \<open>ensure_capacity\<close> in \<open>watch_once\<close>. What is proved of reachable states and runs is proved of the
  schedules in which that does not happen. \<open>Runs\<close> shows what is lost when it does inside a
  selection; \<open>PrefixIndex\<close> and \<open>Preemption\<close> interleave the single lock sections of the index.
\<close>

section \<open>What a request may change\<close>

text \<open>
  A handler segment leaves the registry, the configuration and the size of the in-flight vector
  alone and credits blocks to healthy workers only.
\<close>

definition request_effect :: "app_state \<Rightarrow> app_state \<Rightarrow> bool" where
  "request_effect st st' \<longleftrightarrow> app_registry st' = app_registry st \<and> app_config st' = app_config st
     \<and> router_inv (app_router st')
     \<and> (\<forall>w h. holds (rt_index (app_router st')) w h
          \<longrightarrow> holds (rt_index (app_router st)) w h \<or> is_healthy (app_registry st) w)
     \<and> (\<forall>w. tracked (app_inflight st') w = tracked (app_inflight st) w)"

lemma effect_refl: "router_inv (app_router st) \<Longrightarrow> request_effect st st"
  by (simp add: request_effect_def)

lemma effect_trans: "request_effect st st1 \<Longrightarrow> request_effect st1 st2 \<Longrightarrow> request_effect st st2"
  unfolding request_effect_def by (simp, blast)

lemma effect_router_inv: "request_effect st st' \<Longrightarrow> router_inv (app_router st')"
  by (simp add: request_effect_def)

lemma router_inv_inflight [simp]: "router_inv (r\<lparr>rt_inflight := fl\<rparr>) = router_inv r"
  by (simp add: router_inv_def)

lemma effect_metrics: "request_effect st st' \<Longrightarrow> request_effect st (st'\<lparr>app_metrics := m\<rparr>)"
  by (simp add: request_effect_def)

lemma effect_count: "request_effect st st' \<Longrightarrow> request_effect st (count_outcome u k st')"
  by (simp add: request_effect_def count_outcome_def)

lemma effect_release: "request_effect st st' \<Longrightarrow> request_effect st (release_slot g st')"
  by (simp add: request_effect_def release_slot_def with_router_def guard_drop_def)

lemma effect_acquire: "request_effect st st' \<Longrightarrow> request_effect st (snd (acquire_slot w st'))"
  by (simp add: request_effect_def acquire_slot_def guard_acquire_def with_router_def Let_def)

lemma decided_effect:
  assumes "decided w chain r r'" and "is_healthy reg w"
  shows "router_inv r'" and "rt_inflight r' = rt_inflight r"
    and "holds (rt_index r') v h \<Longrightarrow> holds (rt_index r) v h \<or> is_healthy reg v"
  using assms decided_inflight [OF assms(1)] by (auto simp: decided_def)

lemma select_for_chat_credits:
  assumes "reg_inv reg" and "router_inv r" and "select_for_chat clk reg q r = (out, r')"
  shows "router_inv r'" and "rt_inflight r' = rt_inflight r"
    and "holds (rt_index r') v h \<Longrightarrow> holds (rt_index r) v h \<or> is_healthy reg v"
proof -
  have "router_inv r' \<and> rt_inflight r' = rt_inflight r \<and> (\<forall>v h. holds (rt_index r') v h
      \<longrightarrow> holds (rt_index r) v h \<or> is_healthy reg v)"
  proof (cases "healthy_workers reg = [] \<or> rt_policy r = Disaggregated")
    case True
    then show ?thesis
      using assms(2,3) select_for_chat_none [of reg clk q r] select_for_chat_disaggregated [of reg r clk q] by auto
  next
    case False
    then obtain d r1 where "select_for_chat clk reg q r = (Inr d, r1)"
      and cand: "d_worker d \<in> set (chat_candidates (healthy_workers reg))"
      and dec: "decided (wid (d_worker d)) (chain_of r q) r r1"
      using select_for_chat_ok [OF assms(2), of reg clk q] by metis
    then have "r' = r1" using assms(3) by simp
    moreover have "is_healthy reg (wid (d_worker d))"
      using set_chat_candidates [OF cand] set_healthy_workers [OF assms(1)] by (auto simp: is_healthy_status)
    ultimately show ?thesis using decided_effect [OF dec] by blast
  qed
  then show "router_inv r'" and "rt_inflight r' = rt_inflight r"
    and "holds (rt_index r') v h \<Longrightarrow> holds (rt_index r) v h \<or> is_healthy reg v" by blast+
qed

lemma select_in_pool_credits:
  assumes "reg_inv reg" and "router_inv r" and "select_in_pool clk reg p chain r = (out, r')"
  shows "router_inv r'" and "rt_inflight r' = rt_inflight r"
    and "holds (rt_index r') v h \<Longrightarrow> holds (rt_index r) v h \<or> is_healthy reg v"
proof -
  let ?ws = "filter (\<lambda>w. wpool w = p) (healthy_workers reg)"
  have "router_inv r' \<and> rt_inflight r' = rt_inflight r \<and> (\<forall>v h. holds (rt_index r') v h
      \<longrightarrow> holds (rt_index r) v h \<or> is_healthy reg v)"
  proof (cases "?ws = []")
    case True
    then show ?thesis using assms(2,3) select_in_pool_none [OF True, of clk chain r] by auto
  next
    case False
    then obtain w d r1 where "select_in_pool clk reg p chain r = (Inr d, r1)"
      and mem: "w \<in> set ?ws" and dec: "decided (wid w) chain r r1"
      using select_in_pool_ok [OF assms(2) False, of clk chain] by metis
    then have "r' = r1" using assms(3) by simp
    moreover have "is_healthy reg (wid w)"
      using mem set_healthy_workers [OF assms(1)] by (auto simp: is_healthy_status)
    ultimately show ?thesis using decided_effect [OF dec] by blast
  qed
  then show "router_inv r'" and "rt_inflight r' = rt_inflight r"
    and "holds (rt_index r') v h \<Longrightarrow> holds (rt_index r) v h \<or> is_healthy reg v" by blast+
qed

lemma effect_routed:
  assumes "router_inv r" and "rt_inflight r = app_inflight st"
    and "\<And>v h. holds (rt_index r) v h \<Longrightarrow> holds (rt_index (app_router st)) v h \<or> is_healthy (app_registry st) v"
  shows "request_effect st (with_router r st)"
  using assms by (simp add: request_effect_def with_router_def)

lemma effect_select_for_chat:
  assumes "app_inv st"
  shows "request_effect st (with_router (snd (select_for_chat clk (app_registry st) q (app_router st))) st)"
  by (rule effect_routed; rule select_for_chat_credits [OF _ _ surjective_pairing])
    (use assms in \<open>simp_all add: app_inv_def\<close>)

lemma effect_select_in_pool:
  assumes "app_inv st"
  shows "request_effect st (with_router (snd (select_in_pool clk (app_registry st) p chain (app_router st))) st)"
  by (rule effect_routed; rule select_in_pool_credits [OF _ _ surjective_pairing])
    (use assms in \<open>simp_all add: app_inv_def\<close>)

lemmas effect_intros = effect_metrics effect_count effect_release effect_acquire

lemma effect_app_inv: "app_inv st \<Longrightarrow> request_effect st st' \<Longrightarrow> app_inv st'"
  by (simp add: app_inv_def request_effect_def)

lemma effect_credit_inv: "credit_inv st \<Longrightarrow> request_effect st st' \<Longrightarrow> credit_inv st'"
  unfolding credit_inv_def request_effect_def by auto

lemma effect_begin:
  assumes "app_inv st" and "begin_request clk q st = (p, st')"
  shows "request_effect st st'"
proof -
  have "request_effect st (snd (begin_proxied clk q st))"
    using effect_select_for_chat [OF assms(1), of clk q]
    by (auto simp: begin_proxied_def Let_def case_prod_beta intro!: effect_intros split: sum.splits)
  moreover have "request_effect st (snd (begin_disaggregated clk q st))"
    using effect_select_in_pool [OF assms(1), of clk Prefill]
    by (auto simp: begin_disaggregated_def Let_def case_prod_beta intro!: effect_intros split: sum.splits)
  ultimately show ?thesis using assms(2) by (auto simp: begin_request_def split: if_splits)
qed

lemma effect_resume:
  assumes "app_inv st" and "resume env clk ms t st = (p, st')"
  shows "request_effect st st'"
proof -
  have refl: "request_effect st st" using assms(1) by (simp add: effect_refl app_inv_def)
  show ?thesis
  proof (cases t)
    case (Sending phase what d details s g)
    then show ?thesis
      using assms(2) refl
      by (auto simp: forward_to_def Let_def intro!: effect_intros split: sum.splits if_splits)
  next
    case (Prefilling s chain d g)
    have rel: "request_effect st (release_slot g st)" by (rule effect_release [OF refl])
    note sel = effect_trans [OF rel effect_select_in_pool [OF effect_app_inv [OF assms(1) rel]]]
    show ?thesis
      using assms(2) refl sel
      by (auto simp: Prefilling resume_prefill_def Let_def case_prod_beta intro!: effect_intros split: sum.splits if_splits)
  next
    case (Transferring s chain w d pms)
    then show ?thesis
      using assms(2) refl
      by (auto simp: resume_transfer_def Let_def case_prod_beta intro!: effect_intros split: sum.splits prod.splits)
  qed
qed

lemma effect_abandon: "app_inv st \<Longrightarrow> request_effect st (abandon t st)"
  by (auto simp: abandon_def app_inv_def intro!: effect_release effect_refl split: option.splits)

lemma effect_client:
  "app_inv st \<Longrightarrow> client_reads n now resp st = (outs, st') \<Longrightarrow> request_effect st st'"
  by (auto simp: client_reads_def Let_def case_prod_beta app_inv_def intro!: effect_intros effect_refl)

section \<open>The transition system\<close>

record system =
  sys_app :: app_state
  sys_slices :: slice_map
  sys_discovered :: discovered_workers
  sys_tasks :: "task multiset"
  sys_open :: "chat_response multiset"

text \<open>Where a segment leaves its handler: gone, suspended, or streaming to the client.\<close>

fun place :: "progress \<Rightarrow> system \<Rightarrow> system" where
  "place (Failed e) s = s"
| "place (Suspended t) s = s\<lparr>sys_tasks := add_mset t (sys_tasks s)\<rparr>"
| "place (Responded resp) s = s\<lparr>sys_open := add_mset resp (sys_open s)\<rparr>"

text \<open>
  The size bound of \<open>arrive\<close> and the identifier bound of \<open>watch\<close> say that neither open requests
  nor identifiers reach 2 to the 64. \<open>probe\<close> and \<open>scrape\<close> are over-approximated: they may concern
  any worker, not only one of the round's snapshot.
\<close>

inductive sys_step :: "system \<Rightarrow> system \<Rightarrow> bool" where
  arrive: "begin_request clk (q :: json_value chat_request) (sys_app s) = (p, app)
    \<Longrightarrow> size (sys_tasks s) + size (sys_open s) + 1 < 2 ^ 64 \<Longrightarrow> sys_step s (place p (s\<lparr>sys_app := app\<rparr>))"
| resume: "sys_tasks s = add_mset t rest \<Longrightarrow> resume env clk ms t (sys_app s) = (p, app)
    \<Longrightarrow> sys_step s (place p (s\<lparr>sys_app := app, sys_tasks := rest\<rparr>))"
| cancel: "sys_tasks s = add_mset t rest
    \<Longrightarrow> sys_step s (s\<lparr>sys_app := abandon t (sys_app s), sys_tasks := rest\<rparr>)"
| client: "sys_open s = add_mset resp rest \<Longrightarrow> client_reads n now resp (sys_app s) = (outs, app)
    \<Longrightarrow> sys_step s (s\<lparr>sys_app := app, sys_open := rest\<rparr>)"
| probe: "sys_step s (s\<lparr>sys_app := poll_worker net w (sys_app s)\<rparr>)"
| scrape: "metrics_scrape (app_config (sys_app s))
    \<Longrightarrow> sys_step s (s\<lparr>sys_app := scrape_worker fetch metric w (sys_app s)\<rparr>)"
| render: "sys_step s (s\<lparr>sys_app := snd (metrics_endpoint (sys_app s))\<rparr>)"
| sweep: "evict now (secs (prefix_index_ttl_secs (app_config (sys_app s))))
      (prefix_index_max_entries (app_config (sys_app s))) (rt_index (app_router (sys_app s))) = (stats, idx)
    \<Longrightarrow> sys_step s (s\<lparr>sys_app := with_router ((app_router (sys_app s))\<lparr>rt_index := idx\<rparr>) (sys_app s)\<rparr>)"
| watch: "disc_enabled (cfg_discovery (app_config (sys_app s)))
    \<Longrightarrow> watch_event_step ev (sys_slices s, sys_app s, sys_discovered s) = (slices, app, disc)
    \<Longrightarrow> unat (next_id (app_registry (sys_app s))) + length (desired_of slices) + 16 < 2 ^ 64
    \<Longrightarrow> sys_step s (s\<lparr>sys_app := app, sys_slices := slices, sys_discovered := disc\<rparr>)"
| restart: "disc_enabled (cfg_discovery (app_config (sys_app s))) \<Longrightarrow> sys_step s (s\<lparr>sys_slices := []\<rparr>)"

text \<open>A server starts from \<open>AppState::new\<close> with nothing discovered and nothing in flight.\<close>

definition initial_system :: "app_state \<Rightarrow> system" where
  "initial_system app = \<lparr>sys_app = app, sys_slices = [], sys_discovered = \<lparr>by_url = []\<rparr>,
     sys_tasks = {#}, sys_open = {#}\<rparr>"

lemma initial_system_simps [simp]:
  "sys_app (initial_system app) = app" "sys_slices (initial_system app) = []"
  "sys_discovered (initial_system app) = \<lparr>by_url = []\<rparr>"
  "sys_tasks (initial_system app) = {#}" "sys_open (initial_system app) = {#}"
  by (simp_all add: initial_system_def)

inductive reachable :: "router_config \<Rightarrow> system \<Rightarrow> bool" for config where
  start: "app_new (Inr ()) (Inr ()) config = Inr app \<Longrightarrow> length (cfg_workers config) < 2 ^ 64
    \<Longrightarrow> reachable config (initial_system app)"
| step: "reachable config s \<Longrightarrow> sys_step s s' \<Longrightarrow> reachable config s'"

lemma place_simps [simp]:
  "sys_app (place p s) = sys_app s" "sys_slices (place p s) = sys_slices s"
  "sys_discovered (place p s) = sys_discovered s"
  by (cases p; simp)+

section \<open>Effects of the background tasks\<close>

lemma scrape_worker_only_metrics: "\<exists>m. scrape_worker fetch n w st = st\<lparr>app_metrics := m\<rparr>"
  using scrape_worker_frame by blast

lemma effect_sweep:
  assumes "app_inv st" and "evict now ttl cap (rt_index (app_router st)) = (stats, idx)"
  shows "request_effect st (with_router ((app_router st)\<lparr>rt_index := idx\<rparr>) st)"
proof -
  have inv: "index_inv (rt_index (app_router st))" using assms(1) by (simp add: app_inv_def router_inv_def)
  show ?thesis
    using idx.inv_sweep [OF inv, of now ttl cap] idx.believes_sweep [OF inv, of now ttl cap] assms
    by (auto simp: request_effect_def with_router_def app_inv_def router_inv_def)
qed

text \<open>The whole state invariant. A discovered URL names a registered worker with that URL.\<close>

definition sys_inv :: "system \<Rightarrow> bool" where
  "sys_inv s \<longleftrightarrow> app_inv (sys_app s) \<and> credit_inv (sys_app s) \<and> cluster_inv (cluster_of (sys_app s) (sys_discovered s))"

lemma cluster_inv_app:
  "app_inv st \<Longrightarrow> cluster_inv (cluster_of st disc) \<longleftrightarrow> hm_ok (by_url disc)
     \<and> (\<forall>u i. hm_get (by_url disc) u = Some i \<longrightarrow> (\<exists>w b. reg_status (app_registry st) i = Some (w, b) \<and> url w = u))"
  by (auto simp: cluster_inv_def cluster_of_def app_inv_def router_inv_def)

lemma sys_inv_effect:
  assumes "sys_inv s" and "request_effect (sys_app s) app" and "sys_app s' = app"
    and "sys_discovered s' = sys_discovered s"
  shows "sys_inv s' \<and> app_config (sys_app s') = app_config (sys_app s)"
proof -
  have inv: "app_inv app" using assms effect_app_inv by (auto simp: sys_inv_def)
  have "app_registry app = app_registry (sys_app s)" using assms(2) by (simp add: request_effect_def)
  then show ?thesis
    using assms inv cluster_inv_app [OF inv, of "sys_discovered s"] cluster_inv_app [of "sys_app s" "sys_discovered s"]
    by (auto simp: sys_inv_def effect_credit_inv request_effect_def)
qed

lemma credit_inv_poll_worker: "app_inv st \<Longrightarrow> credit_inv st \<Longrightarrow> credit_inv (poll_worker net w st)"
  using poll_worker_spec(2,3) [of st net w]
  by (fastforce simp: credit_inv_def is_healthy_status split: if_splits)

lemma poll_worker_config [simp]: "app_config (poll_worker net w st) = app_config st"
  by (simp add: poll_worker_def Let_def case_prod_beta)

lemma sys_inv_probe:
  assumes "sys_inv s" and "sys_app s' = poll_worker net w (sys_app s)" and "sys_discovered s' = sys_discovered s"
  shows "sys_inv s'"
proof -
  have inv: "app_inv (sys_app s)" using assms(1) by (simp add: sys_inv_def)
  note spec = poll_worker_spec [OF inv, of net w]
  have "\<exists>v b. reg_status (app_registry (sys_app s')) i = Some (v, b) \<and> url v = u"
    if "\<exists>v b. reg_status (app_registry (sys_app s)) i = Some (v, b) \<and> url v = u" for i u
    using that by (auto simp: assms(2) spec(2))
  then show ?thesis
    using assms credit_inv_poll_worker [OF inv] cluster_inv_app [OF inv] cluster_inv_app [OF spec(1)] spec(1)
    by (simp add: sys_inv_def)
qed

lemma sys_inv_watch:
  assumes "sys_inv s"
    and "watch_event_step ev (sys_slices s, sys_app s, sys_discovered s) = (slices, app, disc)"
    and "unat (next_id (app_registry (sys_app s))) + length (desired_of slices) < 2 ^ 64"
    and "sys_app s' = app" and "sys_discovered s' = disc"
  shows "sys_inv s' \<and> app_config (sys_app s') = app_config (sys_app s)"
proof -
  let ?c0 = "cluster_of (sys_app s) (sys_discovered s)"
  have inv: "cluster_inv ?c0" and app: "app_inv (sys_app s)" and credit: "credit_inv (sys_app s)"
    using assms(1) by (simp_all add: sys_inv_def)
  from watch_event_step_cluster [OF assms(2)] obtain removed added c
    where rec: "reconcile (desired_of slices) ?c0 = ((removed, added), c)" and c: "cluster_of app disc = c"
    and config: "app_config app = app_config (sys_app s)" and size: "block_size (app_router app) = block_size (app_router (sys_app s))" .
  have room: "unat (next_id (cl_registry ?c0)) + length (desired_of slices) < 2 ^ 64"
    using assms(3) by (simp add: cluster_of_def)
  note spec = reconcile_spec [OF inv _ room rec]
  have "distinct (desired_of slices)" by (simp add: desired_of_def)
  note inv' = spec(1) [OF this] and keep = spec(7) [OF this] and less = spec(8) [OF this]
  have "app_inv app"
    using inv' c size app by (auto simp: cluster_inv_def app_inv_def router_inv_def cluster_of_def)
  moreover have "is_healthy (app_registry app) i" if "holds (rt_index (app_router app)) i h" for i h
  proof -
    have "holds (cl_index c) i h" using that c by (auto simp: cluster_of_def)
    then have held: "holds (cl_index ?c0) i h" and stays: "\<not> (\<exists>u. disc_get ?c0 u = Some i \<and> u \<notin> set (desired_of slices))"
      using less by blast+
    then have "is_healthy (app_registry (sys_app s)) i"
      using credit by (auto simp: credit_inv_def cluster_of_def)
    then obtain w where w: "reg_status (app_registry (sys_app s)) i = Some (w, True)"
      by (auto simp: is_healthy_status)
    then have "i < next_id (cl_registry ?c0)"
      using status_id_less [of "app_registry (sys_app s)" i] app by (simp add: app_inv_def cluster_of_def)
    then have "reg_status (cl_registry c) i = Some (w, True)"
      using keep stays w by (simp add: cluster_of_def)
    then show ?thesis using c by (auto simp: is_healthy_status cluster_of_def)
  qed
  ultimately show ?thesis
    using inv' c assms(4,5) config by (simp add: sys_inv_def credit_inv_def)
qed

text \<open>Seen from the shared state, a step is one of three: a request-like effect, a probe, an event.\<close>

lemma sys_step_kinds:
  assumes "sys_step s s'" and "sys_inv s"
  obtains (by_effect) "request_effect (sys_app s) (sys_app s')" and "sys_discovered s' = sys_discovered s"
  | (by_probe) net w where "s' = s\<lparr>sys_app := poll_worker net w (sys_app s)\<rparr>"
  | (by_watch) ev slices app disc where "disc_enabled (cfg_discovery (app_config (sys_app s)))"
      and "watch_event_step ev (sys_slices s, sys_app s, sys_discovered s) = (slices, app, disc)"
      and "unat (next_id (app_registry (sys_app s))) + length (desired_of slices) + 16 < 2 ^ 64"
      and "s' = s\<lparr>sys_app := app, sys_slices := slices, sys_discovered := disc\<rparr>"
proof -
  have app: "app_inv (sys_app s)" using assms(2) by (simp add: sys_inv_def)
  then have refl: "request_effect (sys_app s) (sys_app s)" by (simp add: app_inv_def effect_refl)
  from assms(1) show thesis
  proof cases
    case arrive
    show ?thesis by (rule by_effect) (simp_all add: arrive(1) effect_begin [OF app arrive(2)])
  next
    case resume
    show ?thesis by (rule by_effect) (simp_all add: resume(1) effect_resume [OF app resume(3)])
  next
    case (cancel t rest)
    show ?thesis by (rule by_effect) (simp_all add: cancel(1) effect_abandon [OF app])
  next
    case client
    show ?thesis by (rule by_effect) (simp_all add: client(1) effect_client [OF app client(3)])
  next
    case (scrape fetch metric w)
    obtain m where m: "scrape_worker fetch metric w (sys_app s) = (sys_app s)\<lparr>app_metrics := m\<rparr>"
      using scrape_worker_only_metrics by blast
    show ?thesis by (rule by_effect) (simp_all add: scrape(1) m effect_metrics [OF refl])
  next
    case render
    show ?thesis
      by (rule by_effect) (simp_all add: render metrics_endpoint_def refresh_gauges_def Let_def effect_metrics [OF refl])
  next
    case sweep
    show ?thesis by (rule by_effect) (simp_all add: sweep(1) effect_sweep [OF app sweep(2)])
  next
    case restart
    show ?thesis by (rule by_effect) (simp_all add: restart(1) refl)
  next
    case probe
    then show ?thesis by (rule by_probe)
  next
    case watch
    show ?thesis by (rule by_watch [OF watch(2-4,1)])
  qed
qed

lemma sys_step_inv:
  assumes "sys_step s s'" and "sys_inv s"
  shows "sys_inv s' \<and> app_config (sys_app s') = app_config (sys_app s)"
  using assms
proof (cases rule: sys_step_kinds)
  case by_effect
  then show ?thesis by (rule sys_inv_effect [OF assms(2) _ refl])
next
  case (by_probe net w)
  have "sys_inv s'" by (rule sys_inv_probe [OF assms(2)]) (simp_all add: by_probe)
  then show ?thesis by (simp add: by_probe)
next
  case (by_watch ev slices app disc)
  show ?thesis by (rule sys_inv_watch [OF assms(2) by_watch(2)]) (use by_watch(3,4) in simp_all)
qed

lemma reachable_inv:
  assumes "reachable config s"
  shows "sys_inv s \<and> app_config (sys_app s) = config"
  using assms
proof (induction rule: reachable.induct)
  case (start app)
  note inv = app_new_inv [OF start]
  have "app_config app = config" by (rule app_new_fields [OF start(1)])
  then show ?case using inv cluster_inv_app [OF inv(1)] by (simp add: sys_inv_def hashmap_simps)
next
  case (step s s')
  then show ?case using sys_step_inv by metis
qed

section \<open>Identifiers\<close>

text \<open>
  The workers a server has known so far and no longer discovers, static or replaced, only grow:
  the identifiers handed out less the discovered workers.
\<close>

lemma watch_step_ids:
  assumes "cluster_inv (cluster_of st disc)"
    and "watch_event_step ev (slices, st, disc) = (slices', st', disc')"
    and "unat (next_id (app_registry st)) + length (desired_of slices') < 2 ^ 64"
  shows "unat (next_id (app_registry st)) + length (by_url disc') \<le> unat (next_id (app_registry st')) + length (by_url disc)"
    and "length (by_url disc') = length (desired_of slices')"
    and "get_worker (app_registry st') i \<noteq> None
          \<Longrightarrow> i < next_id (app_registry st') \<and> (i < next_id (app_registry st) \<longrightarrow> get_worker (app_registry st) i \<noteq> None)"
proof -
  let ?c = "cluster_of st disc"
  from watch_event_step_cluster [OF assms(2)] obtain removed added c
    where rec: "reconcile (desired_of slices') ?c = ((removed, added), c)" and c: "cluster_of st' disc' = c" .
  have room: "unat (next_id (cl_registry ?c)) + length (desired_of slices') < 2 ^ 64"
    using assms(3) by (simp add: cluster_of_def)
  have dist: "distinct (desired_of slices')" by (simp add: desired_of_def)
  note spec = reconcile_spec [OF assms(1) dist room rec]
  let ?D = "set (desired_of slices')" and ?C = "{u. hm_get (by_url disc) u \<noteq> None}"
  have ok: "hm_ok (by_url disc)" "hm_ok (by_url disc')" and reg: "reg_inv (app_registry st')"
    using assms(1) spec(1) c by (auto simp: cluster_inv_def cluster_of_def)
  have "{u. hm_get (by_url disc') u \<noteq> None} = ?D"
    using spec(2) c by (force simp: cluster_of_def)
  then have now: "length (by_url disc') = card ?D" and was: "length (by_url disc) = card ?C"
    using hm_length_card [OF ok(2)] hm_length_card [OF ok(1)] by simp_all
  have "added = card (?D - ?C)"
    using spec(4) by (auto simp: cluster_of_def intro!: arg_cong [of _ _ card])
  moreover have "finite ?C"
    by (rule finite_subset [of _ "fst ` set (by_url disc)"]) (auto simp: hm_get_None)
  then have "card (?D \<inter> ?C) \<le> card ?C" by (intro card_mono) auto
  then have "card ?D \<le> card (?D - ?C) + card ?C"
    using card_Diff_subset_Int [of ?D ?C] by simp
  ultimately show "unat (next_id (app_registry st)) + length (by_url disc') \<le> unat (next_id (app_registry st')) + length (by_url disc)"
    using spec(9) c unfolding now was by (auto simp: cluster_of_def)
  show "length (by_url disc') = length (desired_of slices')"
    unfolding now by (rule distinct_card [OF dist])
  show "i < next_id (app_registry st') \<and> (i < next_id (app_registry st) \<longrightarrow> get_worker (app_registry st) i \<noteq> None)"
    if known: "get_worker (app_registry st') i \<noteq> None"
  proof -
    obtain x where x: "reg_status (app_registry st') i = Some x"
      using known by (auto simp: get_worker_def reg_status_def)
    have "reg_status (app_registry st) i = Some x" if "i < next_id (app_registry st)"
      using spec(7) [of i] that x c by (auto simp: cluster_of_def split: if_splits)
    then show ?thesis
      using status_id_less [OF reg x] by (auto simp: get_worker_def reg_status_def)
  qed
qed

text \<open>A watch event leaves the health of every worker it keeps alone, and registers new ones down.\<close>

lemma watch_step_health:
  assumes "sys_inv s" and "watch_event_step ev (sys_slices s, sys_app s, sys_discovered s) = (slices, app, disc)"
    and "unat (next_id (app_registry (sys_app s))) + length (desired_of slices) + 16 < 2 ^ 64"
    and "get_worker (app_registry app) w \<noteq> None"
  shows "is_healthy (app_registry app) w = is_healthy (app_registry (sys_app s)) w"
proof -
  have cl: "cluster_inv (cluster_of (sys_app s) (sys_discovered s))" and app: "app_inv (sys_app s)"
    using assms(1) by (simp_all add: sys_inv_def)
  from watch_event_step_cluster [OF assms(2)] obtain removed added c
    where rec: "reconcile (desired_of slices) (cluster_of (sys_app s) (sys_discovered s)) = ((removed, added), c)"
      and c: "app_registry app = cl_registry c" .
  have dist: "distinct (desired_of slices)" by (simp add: desired_of_def)
  have room: "unat (next_id (cl_registry (cluster_of (sys_app s) (sys_discovered s)))) + length (desired_of slices) < 2 ^ 64"
    using assms(3) by (simp add: cluster_of_def)
  have "is_healthy (app_registry (sys_app s)) w" if "is_healthy (app_registry app) w"
    using reconcile_healthy [of "desired_of slices" "cluster_of (sys_app s) (sys_discovered s)" w] that
    unfolding rec by (simp add: c cluster_of_def)
  moreover have "is_healthy (app_registry app) w" if up: "is_healthy (app_registry (sys_app s)) w"
  proof -
    obtain v where v: "reg_status (app_registry (sys_app s)) w = Some (v, True)"
      using up by (auto simp: is_healthy_status)
    then have "w < next_id (cl_registry (cluster_of (sys_app s) (sys_discovered s)))"
      using status_id_less app by (simp add: app_inv_def cluster_of_def)
    from reconcile_spec(7) [OF cl dist room rec this] show ?thesis
      using assms(4) v by (auto simp: get_worker_status_map is_healthy_status c cluster_of_def split: if_splits)
  qed
  ultimately show ?thesis by blast
qed

lemma next_id_poll_worker [simp]:
  "next_id (app_registry (poll_worker net w st)) = next_id (app_registry st)"
  by (simp add: poll_worker_def Let_def case_prod_beta)

lemma sys_step_ids:
  assumes "sys_step s s'" and "sys_inv s"
  shows "unat (next_id (app_registry (sys_app s))) + length (by_url (sys_discovered s'))
    \<le> unat (next_id (app_registry (sys_app s'))) + length (by_url (sys_discovered s))"
  using assms
proof (cases rule: sys_step_kinds)
  case by_effect
  then show ?thesis by (simp add: request_effect_def)
next
  case (by_probe net w)
  then show ?thesis by simp
next
  case (by_watch ev slices app disc)
  show ?thesis
    using watch_step_ids(1) [OF _ by_watch(2)] by_watch(3) assms(2) by (simp add: by_watch(4) sys_inv_def)
qed

text \<open>A step never gives an identifier already handed out to another worker, or back to one.\<close>

lemma sys_step_identity:
  assumes "sys_step s s'" and "sys_inv s" and "i < next_id (app_registry (sys_app s))"
  shows "(get_worker (app_registry (sys_app s')) i = None
      \<or> get_worker (app_registry (sys_app s')) i = get_worker (app_registry (sys_app s)) i)
    \<and> i < next_id (app_registry (sys_app s'))"
  using assms(1,2)
proof (cases rule: sys_step_kinds)
  case by_effect
  then show ?thesis using assms(3) by (simp add: request_effect_def)
next
  case (by_probe net w)
  have app: "app_inv (sys_app s)" using assms(2) by (simp add: sys_inv_def)
  have "get_worker (app_registry (poll_worker net w (sys_app s))) i = get_worker (app_registry (sys_app s)) i"
    using poll_worker_spec(2) [OF app, of net w]
    by (cases "reg_status (app_registry (sys_app s)) i")
      (auto simp: get_worker_status_map split: if_splits)
  then show ?thesis using assms(3) by (simp add: by_probe)
next
  case (by_watch ev slices app disc)
  have cl: "cluster_inv (cluster_of (sys_app s) (sys_discovered s))" using assms(2) by (simp add: sys_inv_def)
  from watch_event_step_cluster [OF by_watch(2)] obtain removed added c
    where rec: "reconcile (desired_of slices) (cluster_of (sys_app s) (sys_discovered s)) = ((removed, added), c)"
      and c: "app_registry app = cl_registry c" .
  have dist: "distinct (desired_of slices)" by (simp add: desired_of_def)
  have room: "unat (next_id (cl_registry (cluster_of (sys_app s) (sys_discovered s)))) + length (desired_of slices) < 2 ^ 64"
    using by_watch(3) by (simp add: cluster_of_def)
  note spec = reconcile_spec [OF cl dist room rec]
  have "i < next_id (cl_registry (cluster_of (sys_app s) (sys_discovered s)))"
    using assms(3) by (simp add: cluster_of_def)
  from spec(7) [OF this] spec(9) show ?thesis
    using assms(3) by (auto simp: by_watch(4) c get_worker_status_map cluster_of_def word_less_nat_alt)
qed

lemma reachable_run: "reachable config s \<Longrightarrow> sys_step\<^sup>*\<^sup>* s t \<Longrightarrow> reachable config t"
  by (rotate_tac, induction rule: rtranclp_induct) (auto intro: reachable.step)

end
