(* ===== verification/Accounting.thy ===== *)
theory Accounting
  imports System
begin

text \<open>
  In-flight accounting over the transition system: which guards are alive in a state, that every
  segment of a handler keeps the counters equal to them, that an uninterrupted handler releases
  its slot on every path, and that every step keeps the account as long as every identifier handed
  out lies inside the in-flight vector.
\<close>

section \<open>In-flight accounting\<close>

definition resp_worker :: "chat_response \<Rightarrow> worker_id" where
  "resp_worker resp = guard_worker (t_guard (p_telemetry (cr_stream resp)))"

definition task_live :: "task \<Rightarrow> worker_id multiset" where
  "task_live t = (case task_guard t of None \<Rightarrow> {#} | Some g \<Rightarrow> {#guard_worker g#})"

fun progress_live :: "progress \<Rightarrow> worker_id multiset" where
  "progress_live (Failed e) = {#}"
| "progress_live (Suspended t) = task_live t"
| "progress_live (Responded resp) = {#resp_worker resp#}"

text \<open>The guards alive in the server: one per suspended phase and one per open response.\<close>

definition live_guards :: "system \<Rightarrow> worker_id multiset" where
  "live_guards s = \<Sum>\<^sub># (image_mset task_live (sys_tasks s)) + image_mset resp_worker (sys_open s)"

text \<open>A transfer acquires its decode worker only when it is done, so that worker must be tracked.\<close>

fun progress_ok :: "app_state \<Rightarrow> progress \<Rightarrow> bool" where
  "progress_ok st (Suspended (Transferring s chain w d ms)) = tracked (app_inflight st) (wid (d_worker d))"
| "progress_ok st _ = True"

abbreviation all_tracked :: "app_state \<Rightarrow> bool" where
  "all_tracked st \<equiv> \<forall>w. get_worker (app_registry st) w \<noteq> None \<longrightarrow> tracked (app_inflight st) w"

lemma live_guards_simps [simp]:
  "live_guards (place p s) = progress_live p + live_guards s"
  "live_guards (s\<lparr>sys_app := app\<rparr>) = live_guards s"
  by (cases p; simp add: live_guards_def)+

lemma size_live_guards: "size (live_guards s) \<le> size (sys_tasks s) + size (sys_open s)"
proof -
  have "size (\<Sum>\<^sub># (image_mset task_live T)) \<le> size T" for T
    by (induction T) (auto simp: task_live_def split: option.splits)
  then show ?thesis by (simp add: live_guards_def)
qed

lemma forward_to_accounts:
  assumes "settled (add_mset (guard_worker g) live) st" and "forward_to env phase what d details s g st = (out, st')"
  shows "case out of Inl e \<Rightarrow> settled live st' | Inr resp \<Rightarrow> settled (add_mset (resp_worker resp) live) st'"
proof -
  have g: "\<lparr>guard_worker = guard_worker g\<rparr> = g" by simp
  show ?thesis
    using forward_to_settles [OF assms(1), of env phase what d details s] assms(2) unfolding g
    by (auto simp: holds_at_most_one_def resp_worker_def split: sum.splits)
qed

lemma acquire_accounts:
  assumes "settled live st" and "tracked (app_inflight st) w" and "size live + 1 < 2 ^ 64"
    and "acquire_slot w st = (g, st')"
  shows "guard_worker g = w \<and> settled (add_mset w live) st'"
  using acquire_slot_spec [OF assms(1-3)] assms(4) by (metis Pair_inject inflight_guard.select_convs(1))

lemma begin_accounts:
  assumes "app_inv st" and "settled live st" and "size live + 1 < 2 ^ 64" and "all_tracked st"
    and "begin_request clk q st = (p, st')"
  shows "settled (progress_live p + live) st' \<and> progress_ok st' p"
proof -
  have reg: "reg_inv (app_registry st)" and rt: "router_inv (app_router st)"
    using assms(1) by (simp_all add: app_inv_def)
  show ?thesis
  proof (cases "cfg_policy (app_config st) = Disaggregated")
    case True
    let ?chain = "chain_hash (canonical_prompt q) (prompt_block_chars (app_config st))"
    obtain out r where sel: "select_in_pool clk (app_registry st) Prefill ?chain (app_router st) = (out, r)" by fastforce
    note spec = select_in_pool_cases [OF reg rt sel]
    have "settled (add_mset (wid (d_worker d)) live) st1 \<and> guard_worker g = wid (d_worker d)"
      if "out = Inr d" and "acquire_slot (wid (d_worker d)) (with_router r st) = (g, st1)" for d g st1
      using acquire_accounts [OF _ _ assms(3) that(2)] spec(1) spec(4) [OF that(1)] assms(2,4) by simp
    then show ?thesis
      using assms(2,5) sel spec(1) True
      by (auto simp: begin_request_def begin_disaggregated_def Let_def task_live_def split: sum.splits prod.splits)
  next
    case False
    obtain out r where sel: "select_for_chat clk (app_registry st) q (app_router st) = (out, r)" by fastforce
    note spec = select_for_chat_inflight [OF reg rt sel]
    have "settled (add_mset (wid (d_worker d)) live) st1 \<and> guard_worker g = wid (d_worker d)"
      if "out = Inr d" and "acquire_slot (wid (d_worker d)) (with_router r st) = (g, st1)" for d g st1
      using acquire_accounts [OF _ _ assms(3) that(2)] spec(1) spec(2) [OF that(1)] assms(2,4) by simp
    then show ?thesis
      using assms(2,5) sel spec(1) False
      by (auto simp: begin_request_def begin_proxied_def Let_def task_live_def split: sum.splits prod.splits)
  qed
qed

lemma settle_drop:
  "settled (add_mset (guard_worker g) live) st \<Longrightarrow> settled live (release_slot g st)"
proof -
  have "\<lparr>guard_worker = guard_worker g\<rparr> = g" by simp
  then show "settled (add_mset (guard_worker g) live) st \<Longrightarrow> ?thesis"
    using release_slot_spec [where w = "guard_worker g" and live = live and st = st] by metis
qed

lemma resume_transfer_accounts:
  assumes "settled live st" and "size live + 1 < 2 ^ 64" and "tracked (app_inflight st) (wid (d_worker d))"
    and "resume_transfer s chain w d pms st = (p, st')"
  shows "settled (progress_live p + live) st' \<and> progress_ok st' p"
proof -
  have "settled (add_mset (wid (d_worker d)) live) st1 \<and> guard_worker g = wid (d_worker d)"
    if "acquire_slot (wid (d_worker d)) (st\<lparr>app_metrics := m\<rparr>) = (g, st1)" for m g st1
    using acquire_accounts [OF _ _ assms(2) that] assms(1,3) by simp
  then show ?thesis
    using assms(1,4)
    by (auto simp: resume_transfer_def Let_def task_live_def split: sum.splits prod.splits)
qed

lemma resume_prefill_accounts:
  assumes "app_inv st" and "settled (add_mset (guard_worker g) live) st" and "all_tracked st"
    and "resume_prefill env clk ms s chain d g st = (p, st')"
  shows "settled (progress_live p + live) st' \<and> progress_ok st' p"
proof -
  let ?st = "release_slot g st"
  have refl: "request_effect st st" using assms(1) by (simp add: effect_refl app_inv_def)
  note rel = effect_release [OF refl, of g]
  have inv: "app_inv ?st" by (rule effect_app_inv [OF assms(1) rel])
  have settled: "settled live ?st" and counted: "settled live (release_slot g (count_outcome u k st))" for u k
    using settle_drop [OF assms(2)] settle_drop [where g = g and live = live and st = "count_outcome u k st"] assms(2) by simp_all
  obtain out r where sel: "select_in_pool clk (app_registry ?st) Decode chain (app_router ?st) = (out, r)" by fastforce
  have "reg_inv (app_registry ?st)" and "router_inv (app_router ?st)" using inv by (simp_all add: app_inv_def)
  note spec = select_in_pool_cases [OF this sel]
  have "app_registry ?st = app_registry st" and "tracked (app_inflight ?st) w = tracked (app_inflight st) w" for w
    using rel by (simp_all add: request_effect_def)
  then have "tracked (rt_inflight r) (wid (d_worker d2))" if "out = Inr d2" for d2
    using spec(1) spec(4) [OF that] assms(3) by simp
  then show ?thesis
    using assms(4) sel settled counted spec(1)
    by (auto simp: resume_prefill_def Let_def task_live_def split: sum.splits if_splits)
qed

lemma resume_accounts:
  assumes "app_inv st" and "settled (task_live t + live) st" and "size live + 1 < 2 ^ 64" and "all_tracked st"
    and "progress_ok st (Suspended t)" and "resume env clk ms t st = (p, st')"
  shows "settled (progress_live p + live) st' \<and> progress_ok st' p"
proof (cases t)
  case (Sending phase what d details s g)
  obtain out st1 where fwd: "forward_to env phase what d details s g st = (out, st1)" by fastforce
  then show ?thesis
    using forward_to_accounts [OF _ fwd, of live] assms(2,6) Sending
    by (auto simp: task_live_def split: sum.splits)
next
  case (Prefilling s chain d g)
  then show ?thesis
    using resume_prefill_accounts [OF assms(1) _ assms(4), where g = g and live = live] assms(2,6)
    by (simp add: task_live_def)
next
  case (Transferring s chain w d pms)
  then show ?thesis
    using resume_transfer_accounts [OF _ assms(3)] assms(2,5,6)
    by (simp add: task_live_def)
qed

lemma abandon_accounts: "settled (task_live t + live) st \<Longrightarrow> settled live (abandon t st)"
  by (auto simp: abandon_def task_live_def simp del: inflight_simps(3) intro: settle_drop split: option.splits)

lemma client_accounts:
  "settled (add_mset (resp_worker resp) live) st \<Longrightarrow> client_reads n now resp st = (outs, st') \<Longrightarrow> settled live st'"
  using settle_drop [where g = "t_guard (p_telemetry (cr_stream resp))" and live = live and st = "st\<lparr>app_metrics := m\<rparr>" for m]
  by (auto simp: client_reads_def Let_def case_prod_beta resp_worker_def)

section \<open>Uninterrupted handlers\<close>

lemma effect_all_tracked: "request_effect st st' \<Longrightarrow> all_tracked st \<Longrightarrow> all_tracked st'"
  by (simp add: request_effect_def)

lemma run_progress_accounts:
  assumes "app_inv st" and "settled (progress_live p + live) st" and "size live + 1 < 2 ^ 64" and "all_tracked st"
    and "progress_ok st p" and "run_progress n env clk ms (p, st) = (Some out, st')"
  shows "case out of Inl e \<Rightarrow> settled live st' | Inr resp \<Rightarrow> settled (add_mset (resp_worker resp) live) st'"
  using assms
proof (induction n arbitrary: p st)
  case 0
  then show ?case by (cases p) auto
next
  case (Suc n)
  show ?case
  proof (cases p)
    case (Suspended t)
    obtain p1 st1 where seg: "resume env clk ms t st = (p1, st1)" by fastforce
    have "settled (task_live t + live) st" and "progress_ok st (Suspended t)"
      using Suc.prems(2,5) Suspended by simp_all
    then have "settled (progress_live p1 + live) st1 \<and> progress_ok st1 p1"
      by (rule resume_accounts [OF Suc.prems(1) _ Suc.prems(3,4) _ seg])
    then show ?thesis
      using Suc.prems(6) Suspended seg effect_resume [OF Suc.prems(1) seg] effect_all_tracked [OF _ Suc.prems(4)]
      by (intro Suc.IH [OF effect_app_inv [OF Suc.prems(1)] _ Suc.prems(3), of st1 p1]) auto
  qed (use Suc.prems in auto)
qed

text \<open>
  C9: the in-flight slot of a request is released exactly once on every path. If every registered
  worker has a counter and the counters equal the live guards, then after an error, whatever the
  phase it came from, the counters are as before; after a response exactly one more guard is
  live, that of the serving worker, and it is gone when the client is done, whether it read the
  stream to its end or disconnected after any number of polls.
\<close>

theorem requests_release_their_slot:
  assumes "app_inv st" and "settled live st" and "size live + 1 < 2 ^ 64"
    and "\<forall>w. get_worker (app_registry st) w \<noteq> None \<longrightarrow> tracked (app_inflight st) w"
    and "chat_completions env clk1 clk2 ms payload st = (res, st')"
  shows "case res of
      Inl e \<Rightarrow> settled live st'
    | Inr resp \<Rightarrow> settled (add_mset (guard_worker (t_guard (p_telemetry (cr_stream resp)))) live) st'
        \<and> (\<forall>n now. settled live (snd (client_reads n now resp st')))"
proof (cases payload)
  case (Inl rejection)
  then show ?thesis using assms(2,5) by (auto simp: chat_completions_def)
next
  case (Inr request)
  obtain p st1 where seg: "begin_request clk1 request st = (p, st1)" by fastforce
  note effect = effect_begin [OF assms(1) seg] and acc = begin_accounts [OF assms(1-4) seg]
  have "run_progress 3 env clk2 ms (p, st1) = (Some res, st')"
    using run_progress_handler [of env clk2 ms clk1 request st] seg assms(5) Inr by simp
  then have out: "case res of Inl e \<Rightarrow> settled live st' | Inr resp \<Rightarrow> settled (add_mset (resp_worker resp) live) st'"
    using acc by (intro run_progress_accounts [OF effect_app_inv [OF assms(1) effect] _ assms(3)
        effect_all_tracked [OF effect assms(4)]]) auto
  have "settled live (snd (client_reads n now resp st'))"
    if "settled (add_mset (resp_worker resp) live) st'" for n now resp
    by (rule client_accounts [OF that]) (rule surjective_pairing)
  then show ?thesis using out by (auto simp: resp_worker_def split: sum.splits)
qed

theorem requests_release_their_slot_witness:
  "\<exists>e st'. chat_completions dead_network Instant Instant 0 (Inr (sample_request (ascii ''hi'') [])) (sample_app CacheAware)
      = (Inl e, st') \<and> inflight_count (app_inflight st') 0 = 0"
proof -
  obtain res st' where run: "chat_completions dead_network Instant Instant 0 (Inr (sample_request (ascii ''hi'') [])) (sample_app CacheAware)
      = (res, st')" by fastforce
  have "isl res"
    using run by (auto simp: chat_completions_def sample_app_def sample_config_def serve_proxied_def forward_to_def
        dead_network_def Let_def case_prod_beta split: prod.splits sum.splits)
  then obtain e where e: "res = Inl e" by (cases res) auto
  have "settled {#} st'"
    using requests_release_their_slot [OF sample_app_inv sample_app_settled _ _ run] sample_app_tracked
    by (simp add: e)
  then have "unat (inflight_count (app_inflight st') 0) = 0"
    by (rule fl.idle)
  then show ?thesis using run e by (simp add: unat_eq_0)
qed

section \<open>The account along a run\<close>

definition account_inv :: "system \<Rightarrow> bool" where
  "account_inv s \<longleftrightarrow> sys_inv s \<and> settled (live_guards s) (sys_app s) \<and> all_tracked (sys_app s)
     \<and> (\<forall>t \<in># sys_tasks s. progress_ok (sys_app s) (Suspended t)) \<and> size (sys_tasks s) + size (sys_open s) < 2 ^ 64"

lemma progress_ok_effect:
  "request_effect st st' \<Longrightarrow> progress_ok st p \<Longrightarrow> progress_ok st' p"
  by (cases "(st, p)" rule: progress_ok.cases) (auto simp: request_effect_def)

text \<open>A step that has only the effect of a request and leaves a consistent account.\<close>

lemma account_inv_effect:
  assumes "account_inv s" and "request_effect (sys_app s) (sys_app s')" and "sys_discovered s' = sys_discovered s"
    and "settled (live_guards s') (sys_app s')"
    and "\<forall>t \<in># sys_tasks s'. t \<in># sys_tasks s \<or> progress_ok (sys_app s') (Suspended t)"
    and "size (sys_tasks s') + size (sys_open s') < 2 ^ 64"
  shows "account_inv s'"
proof -
  have "sys_inv s'"
    using sys_inv_effect [OF _ assms(2) refl assms(3)] assms(1) by (simp add: account_inv_def)
  moreover have "all_tracked (sys_app s')"
    using assms(1,2) by (simp add: account_inv_def request_effect_def)
  moreover have "progress_ok (sys_app s') (Suspended t)" if "t \<in># sys_tasks s'" for t
    using assms(1,5) that progress_ok_effect [OF assms(2)] unfolding account_inv_def by blast
  ultimately show ?thesis using assms(4,6) by (simp add: account_inv_def)
qed

lemma poll_worker_inflight [simp]: "app_inflight (poll_worker net w st) = app_inflight st"
  by (simp add: poll_worker_def Let_def case_prod_beta)

lemma get_worker_status: "get_worker r i \<noteq> None \<longleftrightarrow> reg_status r i \<noteq> None"
  by (simp add: get_worker_status_map)

lemma account_inv_restart: "account_inv s \<Longrightarrow> account_inv (s\<lparr>sys_slices := []\<rparr>)"
  by (simp add: account_inv_def sys_inv_def live_guards_def)

lemma account_inv_probe:
  assumes "account_inv s"
  shows "account_inv (s\<lparr>sys_app := poll_worker net w (sys_app s)\<rparr>)"
proof -
  let ?s = "s\<lparr>sys_app := poll_worker net w (sys_app s)\<rparr>"
  have inv: "sys_inv s" using assms by (simp add: account_inv_def)
  then have app: "app_inv (sys_app s)" by (simp add: sys_inv_def)
  have "sys_inv ?s" by (rule sys_inv_probe [OF inv]) simp_all
  moreover have "get_worker (app_registry (sys_app ?s)) i \<noteq> None \<longleftrightarrow> get_worker (app_registry (sys_app s)) i \<noteq> None" for i
    unfolding get_worker_status by (simp add: poll_worker_spec(2) [OF app])
  then have "all_tracked (sys_app ?s)"
    using assms by (simp add: account_inv_def)
  moreover have "progress_ok (sys_app ?s) p = progress_ok (sys_app s) p" for p
    by (cases "(sys_app s, p)" rule: progress_ok.cases) simp_all
  ultimately show ?thesis using assms by (simp add: account_inv_def)
qed

lemma live_guards_task:
  "sys_tasks s = add_mset t rest \<Longrightarrow> live_guards s = task_live t + live_guards (s\<lparr>sys_tasks := rest\<rparr>)"
  by (simp add: live_guards_def)

lemma live_guards_open:
  "sys_open s = add_mset resp rest \<Longrightarrow> live_guards s = add_mset (resp_worker resp) (live_guards (s\<lparr>sys_open := rest\<rparr>))"
  by (simp add: live_guards_def)

lemma place_fields:
  "size (sys_tasks (place p s)) + size (sys_open (place p s)) \<le> size (sys_tasks s) + size (sys_open s) + 1"
  "t \<in># sys_tasks (place p s) \<Longrightarrow> t \<in># sys_tasks s \<or> p = Suspended t"
  by (cases p; auto)+

text \<open>A segment of a handler: \<open>s0\<close> is the state without the handler, \<open>p\<close> where the segment leaves it.\<close>

lemma account_inv_segment:
  assumes "account_inv s" and "request_effect (sys_app s) app"
    and "settled (progress_live p + live_guards s0) app" and "progress_ok app p"
    and "sys_discovered s0 = sys_discovered s" and "sys_app s0 = app" and "set_mset (sys_tasks s0) \<subseteq> set_mset (sys_tasks s)"
    and "size (sys_tasks s0) + size (sys_open s0) + 1 < 2 ^ 64"
  shows "account_inv (place p s0)"
proof (rule account_inv_effect [OF assms(1)])
  show "\<forall>t \<in># sys_tasks (place p s0). t \<in># sys_tasks s \<or> progress_ok (sys_app (place p s0)) (Suspended t)"
    using place_fields(2) [of _ p s0] assms(4,6,7) by auto
  show "size (sys_tasks (place p s0)) + size (sys_open (place p s0)) < 2 ^ 64"
    using place_fields(1) [of p s0] assms(8) by linarith
qed (use assms in simp_all)

lemma account_invD:
  assumes "account_inv s"
  shows "app_inv (sys_app s)" and "settled (live_guards s) (sys_app s)" and "all_tracked (sys_app s)"
    and "size (sys_tasks s) + size (sys_open s) < 2 ^ 64" and "request_effect (sys_app s) (sys_app s)"
  using assms by (auto simp: account_inv_def sys_inv_def app_inv_def intro: effect_refl)

lemma account_arrive:
  assumes "account_inv s" and "begin_request clk q (sys_app s) = (p, app)"
    and "size (sys_tasks s) + size (sys_open s) + 1 < 2 ^ 64"
  shows "account_inv (place p (s\<lparr>sys_app := app\<rparr>))"
proof -
  note inv = account_invD [OF assms(1)]
  have "size (live_guards s) + 1 < 2 ^ 64"
    using size_live_guards [of s] assms(3) by linarith
  then have "settled (progress_live p + live_guards s) app \<and> progress_ok app p"
    by (rule begin_accounts [OF inv(1,2) _ inv(3) assms(2)])
  then show ?thesis
    using assms(3) by (intro account_inv_segment [OF assms(1) effect_begin [OF inv(1) assms(2)]]) simp_all
qed

lemma account_resume:
  assumes "account_inv s" and "sys_tasks s = add_mset t rest" and "resume env clk ms t (sys_app s) = (p, app)"
  shows "account_inv (place p (s\<lparr>sys_app := app, sys_tasks := rest\<rparr>))"
proof -
  note inv = account_invD [OF assms(1)]
  let ?s0 = "s\<lparr>sys_app := app, sys_tasks := rest\<rparr>"
  have split: "live_guards s = task_live t + live_guards ?s0"
    using live_guards_task [OF assms(2)] by (simp add: live_guards_def)
  have fit: "size (live_guards ?s0) + 1 < 2 ^ 64"
    using size_live_guards [of ?s0] inv(4) assms(2) by simp
  have "progress_ok (sys_app s) (Suspended t)" using assms(1,2) by (simp add: account_inv_def)
  then have "settled (progress_live p + live_guards ?s0) app \<and> progress_ok app p"
    using inv(2) assms(3) unfolding split by (intro resume_accounts [OF inv(1) _ fit inv(3)])
  then show ?thesis
    using assms(2) inv(4) by (intro account_inv_segment [OF assms(1) effect_resume [OF inv(1) assms(3)]]) auto
qed

text \<open>
  A watch event grows the in-flight vector to the discovered workers plus 16. That covers every
  registered worker as long as at most 16 identifiers belong to workers no longer discovered.
\<close>

lemma account_inv_watch:
  assumes "account_inv s" and "watch_event_step ev (sys_slices s, sys_app s, sys_discovered s) = (slices, app, disc)"
    and "unat (next_id (app_registry (sys_app s))) + length (desired_of slices) + 16 < 2 ^ 64"
    and "unat (next_id (app_registry app)) \<le> length (by_url disc) + 16"
  shows "account_inv (s\<lparr>sys_app := app, sys_slices := slices, sys_discovered := disc\<rparr>)"
proof -
  let ?s = "s\<lparr>sys_app := app, sys_slices := slices, sys_discovered := disc\<rparr>"
  have inv: "sys_inv s" using assms(1) by (simp add: account_inv_def)
  then have cl: "cluster_inv (cluster_of (sys_app s) (sys_discovered s))" by (simp add: sys_inv_def)
  have room: "unat (next_id (app_registry (sys_app s))) + length (desired_of slices) < 2 ^ 64"
    using assms(3) by simp
  note ids = watch_step_ids [OF cl assms(2) room]
  from watch_event_step_cluster [OF assms(2)] obtain removed added c
    where rec: "reconcile (desired_of slices) (cluster_of (sys_app s) (sys_discovered s)) = ((removed, added), c)"
      and c: "app_registry app = cl_registry c"
      and fl: "app_inflight app = (if removed + added > 0 then ensure_capacity (length (by_url disc) + 16) (app_inflight (sys_app s))
            else app_inflight (sys_app s))" .
  have keep: "tracked (app_inflight (sys_app s)) w \<Longrightarrow> tracked (app_inflight app) w" for w
    by (simp add: fl)
  have "sys_inv ?s" using sys_inv_watch [OF inv assms(2) room] by simp
  moreover have "settled (live_guards ?s) app"
    using assms(1,3) fl.accounts_grow ids(2) by (simp add: account_inv_def fl live_guards_def)
  moreover have "tracked (app_inflight app) w" if "get_worker (app_registry app) w \<noteq> None" for w
  proof (cases "w < next_id (app_registry (sys_app s))")
    case True
    then show ?thesis using ids(3) [OF that] assms(1) keep by (simp add: account_inv_def)
  next
    case False
    have w: "w < next_id (app_registry app)" using ids(3) [OF that] by blast
    have "unat (next_id (app_registry app)) = unat (next_id (app_registry (sys_app s))) + added"
      using reconcile_spec(9) [OF cl _ _ rec] room c by (simp add: cluster_of_def desired_of_def)
    then have "added > 0" using False w by (simp add: word_less_nat_alt)
    then show ?thesis using w assms(4) by (simp add: fl word_less_nat_alt)
  qed
  moreover have "progress_ok app (Suspended t)" if "t \<in># sys_tasks s" for t
    using assms(1) that keep unfolding account_inv_def by (cases t) auto
  ultimately show ?thesis using assms(1) by (simp add: account_inv_def)
qed

lemma account_step:
  assumes "sys_step s s'" and "account_inv s"
    and "\<not> disc_enabled (cfg_discovery (app_config (sys_app s)))
      \<or> unat (next_id (app_registry (sys_app s'))) \<le> length (by_url (sys_discovered s')) + 16"
  shows "account_inv s'"
proof -
  note inv = account_invD [OF assms(2)]
  have metrics: "account_inv (s\<lparr>sys_app := (sys_app s)\<lparr>app_metrics := m\<rparr>\<rparr>)" for m
    by (rule account_inv_effect [OF assms(2)]) (use effect_metrics [OF inv(5)] inv(2,4) in simp_all)
  from assms(1) show ?thesis
  proof cases
    case (cancel t rest)
    have "settled (live_guards (s\<lparr>sys_tasks := rest\<rparr>)) (abandon t (sys_app s))"
      using inv(2) unfolding live_guards_task [OF cancel(2)] by (rule abandon_accounts)
    then show ?thesis
      unfolding cancel(1) using cancel(2) inv(4) effect_abandon [OF inv(1), of t]
      by (intro account_inv_effect [OF assms(2)]) (auto simp: live_guards_def)
  next
    case (client resp rest n now outs app)
    have "settled (live_guards (s\<lparr>sys_open := rest\<rparr>)) app"
      using inv(2) unfolding live_guards_open [OF client(2)] by (rule client_accounts [OF _ client(3)])
    then show ?thesis
      unfolding client(1) using client(2) inv(4) effect_client [OF inv(1) client(3)]
      by (intro account_inv_effect [OF assms(2)]) (auto simp: live_guards_def)
  next
    case (scrape fetch metric w)
    obtain m where "scrape_worker fetch metric w (sys_app s) = (sys_app s)\<lparr>app_metrics := m\<rparr>"
      using scrape_worker_only_metrics by blast
    then show ?thesis unfolding scrape(1) using metrics by simp
  next
    case render
    then show ?thesis using metrics by (simp add: metrics_endpoint_def refresh_gauges_def Let_def)
  next
    case (sweep now stats idx)
    show ?thesis
      unfolding sweep(1) using effect_sweep [OF inv(1) sweep(2)] inv(2,4)
      by (intro account_inv_effect [OF assms(2)]) simp_all
  next
    case (watch ev slices app disc)
    then show ?thesis using assms(3) account_inv_watch [OF assms(2) watch(3,4)] by simp
  qed (use assms(2) account_arrive account_resume account_inv_probe in \<open>simp_all add: account_inv_restart\<close>)
qed

lemma account_start:
  assumes "app_new (Inr ()) (Inr ()) config = Inr app" and "length (cfg_workers config) < 2 ^ 64"
    and "sys_inv (initial_system app)"
  shows "account_inv (initial_system app)"
proof -
  note app = app_new_fields [OF assms(1)]
  have "tracked (with_capacity (length (cfg_workers config))) w"
    if "get_worker (from_config (cfg_workers config)) w \<noteq> None" for w
    using that status_from_config [OF assms(2), of w]
    by (simp add: get_worker_status_map tracked_def with_capacity_def split: if_splits)
  then show ?thesis
    using assms(2,3) by (simp add: account_inv_def app router_new_def live_guards_def inflight_accounts_init)
qed

lemma reachable_accounted:
  assumes "reachable config s"
    and "\<not> disc_enabled (cfg_discovery config)
      \<or> unat (next_id (app_registry (sys_app s))) \<le> length (by_url (sys_discovered s)) + 16"
  shows "account_inv s"
  using assms
proof (induction rule: reachable.induct)
  case (start app)
  show ?case
    by (rule account_start [OF start(1,2)]) (use reachable_inv [OF reachable.start [OF start(1,2)]] in simp_all)
next
  case (step s s')
  note inv = reachable_inv [OF step(1)]
  have "account_inv s"
    using step(3,4) sys_step_ids [OF step(2)] inv by force
  then show ?case
    using account_step [OF step(2)] inv step(4) by simp
qed

end
