(* ===== verification/Runs.thy ===== *)
theory Runs
  imports Accounting
begin

text \<open>
  What holds in every run of the server whose segments between awaits, probes, watch events and
  sweeps are atomic (the steps of \<open>System\<close>), with a sample run that reaches the interesting states,
  and what is lost when a thread is preempted inside a segment.
\<close>

section \<open>A sample run\<close>

definition sample_query :: "json_value chat_request" where
  "sample_query = \<lparr>model = ascii ''mock'', messages = [\<lparr>msg_role = ascii ''user'', msg_content = ascii ''hi''\<rparr>],
     max_tokens = None, temperature = None, stream = True, extra = []\<rparr>"

lemma chain_hash_nonempty: "p \<noteq> [] \<Longrightarrow> chain_hash p n \<noteq> []"
proof -
  assume "p \<noteq> []"
  then obtain c cs where "p = c # cs" by (cases p) auto
  then have "0 < length (chain_hash p n)" by (simp add: chain_hash_def blocks_of_def Let_def)
  then show ?thesis by auto
qed

lemma sample_query_chain: "chain_of r sample_query \<noteq> []"
  by (rule chain_hash_nonempty) (simp add: sample_query_def canonical_prompt_def ascii_def Let_def)

abbreviation up_net :: "string \<Rightarrow> unit http_reply" where
  "up_net \<equiv> \<lambda>_. Reply 200 ()"

abbreviation sample_worker :: worker where
  "sample_worker \<equiv> \<lparr>wid = 0, url = ''http://a'', wpool = Both\<rparr>"

text \<open>The server starts, and worker 0 passes a probe.\<close>

lemma sample_start:
  obtains app where "reachable (sample_config p) (initial_system app)" and "app_inv app"
    and "app_config app = sample_config p" and "app_router app = router_new (sample_config p)"
    and "reg_status (app_registry app) 0 = Some (sample_worker, False)"
    and "reg_status (app_registry (poll_worker up_net sample_worker app)) 0 = Some (sample_worker, True)"
proof -
  obtain app where new: "app_new (Inr ()) (Inr ()) (sample_config p) = Inr app"
    by (simp add: app_new_def Let_def)
  have app: "app_registry app = from_config two_workers" "app_router app = router_new (sample_config p)"
    "app_config app = sample_config p"
    using app_new_fields [OF new] by (simp_all add: sample_config_def)
  have len: "length (cfg_workers (sample_config p)) < 2 ^ 64" by (simp add: sample_config_def two_workers_def)
  have inv: "app_inv app" by (rule app_new_inv [OF new len])
  have down: "reg_status (app_registry app) 0 = Some (sample_worker, False)"
    by (simp add: app(1) status_from_config configured_worker_def two_workers_def)
  then have "reg_status (app_registry (poll_worker up_net sample_worker app)) 0 = Some (sample_worker, True)"
    by (simp add: poll_worker_spec(2) [OF inv] probe_ok_def is_success_def)
  then show thesis by (intro that [OF reachable.start [OF new len] inv app(3,2) down])
qed

text \<open>Then a request arrives and waits for its upstream.\<close>

lemma sample_run:
  obtains s and d :: route_decision where "reachable (sample_config RoundRobin) s"
    and "live_guards s = {#wid (d_worker d)#}"
    and "\<forall>h \<in> set (chain_of (router_new (sample_config RoundRobin)) sample_query).
           holds (rt_index (app_router (sys_app s))) (wid (d_worker d)) h"
proof -
  let ?config = "sample_config RoundRobin"
  obtain app where s0: "reachable ?config (initial_system app)" and app_inv: "app_inv app"
    and app: "app_config app = ?config" "app_router app = router_new ?config"
    and up: "reg_status (app_registry (poll_worker up_net sample_worker app)) 0 = Some (sample_worker, True)"
    by (rule sample_start)
  let ?app = "poll_worker up_net sample_worker app"
  note s1 = reachable.step [OF s0 sys_step.probe, of up_net sample_worker]
  have inv1: "app_inv ?app" by (rule poll_worker_spec(1) [OF app_inv])
  from up have "sample_worker \<in> set (healthy_workers (app_registry ?app))"
    using inv1 by (simp add: set_healthy_workers app_inv_def)
  then have ne: "healthy_workers (app_registry ?app) \<noteq> []" by auto
  have "\<exists>i. app_router ?app = (router_new ?config)\<lparr>rt_index := i\<rparr>"
    using poll_worker_spec(4) [OF app_inv, of up_net sample_worker] unfolding app by (rule exI)
  then obtain i where router: "app_router ?app = (router_new ?config)\<lparr>rt_index := i\<rparr>" by blast
  have policy: "rt_policy (app_router ?app) = RoundRobin" and size: "block_size (app_router ?app) = block_size (router_new ?config)"
    unfolding router by simp_all
  have rt: "router_inv (app_router ?app)" using inv1 by (simp add: app_inv_def)
  have "rt_policy (app_router ?app) \<noteq> Disaggregated" by (simp add: policy)
  from select_for_chat_ok [OF rt ne this, of Instant sample_query]
  obtain d r where sel: "select_for_chat Instant (app_registry ?app) sample_query (app_router ?app) = (Inr d, r)"
    and dec: "decided (wid (d_worker d)) (chain_of (app_router ?app) sample_query) (app_router ?app) r" .
  obtain g app2 where acq: "acquire_slot (wid (d_worker d)) (with_router r ?app) = (g, app2)" by fastforce
  then have g: "g = \<lparr>guard_worker = wid (d_worker d)\<rparr>" and idx: "rt_index (app_router app2) = rt_index r"
    by (auto simp: acquire_slot_def guard_acquire_def with_router_def Let_def)
  have started: "begin_request Instant sample_query ?app
      = (Suspended (Sending None ''upstream returned '' d Single True g), app2)"
    using sel acq app(1) by (simp add: begin_request_def begin_proxied_def sample_config_def sample_query_def)
  have "reachable ?config (place (Suspended (Sending None ''upstream returned '' d Single True g))
      (initial_system app\<lparr>sys_app := ?app, sys_app := app2\<rparr>))"
    using reachable.step [OF s1 sys_step.arrive, of Instant sample_query] started by simp
  then show thesis
    by (rule that [of _ d]) (use dec idx size in \<open>auto simp: g task_live_def live_guards_def decided_def\<close>)
qed

section \<open>Properties\<close>

text \<open>
  C2: the state invariant of the running server, as long as its segments are atomic. Take the
  states the server reaches when each handler segment between two awaits, each probe, watch event,
  scrape, sweep and client step runs as one step, not preempted by another thread. In every such
  state, in whatever order those steps of requests, cancelled handlers, clients, probes, scrapes,
  sweeps and discovery come, a worker credited with a block is registered and healthy, every
  discovered URL names a registered worker of that URL, and registry and index are well formed.
  The condition matters: the program runs on several threads, and the last property of this theory
  is a schedule with a preempted selection that credits a dead worker.
\<close>

theorem reachable_state_consistent:
  assumes "reachable config s"
  shows "(\<forall>w h. holds (rt_index (app_router (sys_app s))) w h \<longrightarrow> is_healthy (app_registry (sys_app s)) w)
    \<and> (\<forall>u i. hm_get (by_url (sys_discovered s)) u = Some i
         \<longrightarrow> (\<exists>v. get_worker (app_registry (sys_app s)) i = Some v \<and> url v = u))
    \<and> reg_inv (app_registry (sys_app s)) \<and> router_inv (app_router (sys_app s))"
proof -
  have app: "app_inv (sys_app s)" and "credit_inv (sys_app s)" and cl: "cluster_inv (cluster_of (sys_app s) (sys_discovered s))"
    using reachable_inv [OF assms] by (simp_all add: sys_inv_def)
  moreover have "\<exists>v. get_worker (app_registry (sys_app s)) i = Some v \<and> url v = u"
    if "hm_get (by_url (sys_discovered s)) u = Some i" for u i
    using that cl unfolding cluster_inv_app [OF app] by (force simp: get_worker_def reg_status_def)
  ultimately show ?thesis by (simp add: credit_inv_def app_inv_def)
qed

theorem reachable_state_consistent_witness:
  "\<exists>s w h. reachable (sample_config RoundRobin) s \<and> holds (rt_index (app_router (sys_app s))) w h
     \<and> is_healthy (app_registry (sys_app s)) w"
proof -
  obtain s and d :: route_decision where run: "reachable (sample_config RoundRobin) s"
    and held: "\<forall>h \<in> set (chain_of (router_new (sample_config RoundRobin)) sample_query).
           holds (rt_index (app_router (sys_app s))) (wid (d_worker d)) h"
    by (rule sample_run) blast
  obtain h where "h \<in> set (chain_of (router_new (sample_config RoundRobin)) sample_query)"
    using sample_query_chain by (metis list.set_intros(1) neq_Nil_conv)
  then show ?thesis using reachable_state_consistent [OF run] run held by blast
qed

text \<open>
  C3: exact in-flight accounting over every run of atomic segments. Without discovery, or as long
  as at most 16 of the identifiers handed out belong to workers that are not discovered any more (static workers, and
  discovered ones that were replaced), in each reachable state the count of a worker is the number
  of suspended handlers and open responses that hold one of its slots; with none suspended and none
  open, the total is zero. Cancelled handlers and clients that disconnect early leave no slot behind.
\<close>

theorem inflight_counts_are_exact:
  assumes "reachable config s"
    and "\<not> disc_enabled (cfg_discovery config)
      \<or> unat (next_id (app_registry (sys_app s))) \<le> length (by_url (sys_discovered s)) + 16"
  shows "unat (inflight_count (app_inflight (sys_app s)) w) = count (live_guards s) w
    \<and> (sys_tasks s = {#} \<and> sys_open s = {#} \<longrightarrow> inflight_total (app_inflight (sys_app s)) = 0)"
proof -
  have acc: "inflight_accounts (app_inflight (sys_app s)) (live_guards s)"
    using reachable_accounted [OF assms] by (simp add: account_inv_def)
  then show ?thesis
    using fl.load_live [OF acc, of w] inflight_accounts_total [OF acc] by (auto simp: live_guards_def)
qed

theorem inflight_counts_are_exact_witness:
  "\<exists>s w. reachable (sample_config RoundRobin) s \<and> inflight_count (app_inflight (sys_app s)) w = 1"
proof -
  obtain s and d :: route_decision where run: "reachable (sample_config RoundRobin) s" and live: "live_guards s = {#wid (d_worker d)#}"
    by (rule sample_run) blast
  have "\<not> disc_enabled (cfg_discovery (sample_config RoundRobin))"
    by (simp add: sample_config_def discovery_config_default_def)
  then have "\<not> disc_enabled (cfg_discovery (sample_config RoundRobin))
      \<or> unat (next_id (app_registry (sys_app s))) \<le> length (by_url (sys_discovered s)) + 16" ..
  then have "unat (inflight_count (app_inflight (sys_app s)) (wid (d_worker d))) = 1"
    using inflight_counts_are_exact [OF run, of "wid (d_worker d)"] live by simp
  then show ?thesis using run by (metis unat_1 word_unat_eq_iff)
qed

text \<open>
  C4: only a probe changes a worker's health. In every run, whatever handlers, clients, scrapes,
  sweeps and discovery do, if a registered worker is healthy after a step and was not before, or the
  reverse, the step was a probe of that worker, and its outcome is the new health. In particular a
  worker that went down gets no request before one of its probes succeeds.
\<close>

theorem health_changes_only_by_probes:
  assumes "reachable config s" and "sys_step s s'" and "get_worker (app_registry (sys_app s')) w \<noteq> None"
    and "is_healthy (app_registry (sys_app s')) w \<noteq> is_healthy (app_registry (sys_app s)) w"
  shows "\<exists>net v. wid v = w \<and> probe_ok net v = is_healthy (app_registry (sys_app s')) w
    \<and> s' = s\<lparr>sys_app := poll_worker net v (sys_app s)\<rparr>"
proof -
  have inv: "sys_inv s" using reachable_inv [OF assms(1)] by blast
  then have app: "app_inv (sys_app s)" by (simp add: sys_inv_def)
  from assms(2) inv show ?thesis
  proof (cases rule: sys_step_kinds)
    case by_effect
    then show ?thesis using assms(4) by (simp add: request_effect_def)
  next
    case (by_probe net v)
    have "wid v = w \<and> probe_ok net v = is_healthy (app_registry (sys_app s')) w"
      using assms(4) unfolding by_probe
      by (auto simp: is_healthy_status poll_worker_spec(2) [OF app] split: if_splits)
    then show ?thesis using by_probe by blast
  next
    case (by_watch ev slices app disc)
    then show ?thesis using watch_step_health [OF inv by_watch(2)] assms(3,4) by simp
  qed
qed

theorem health_changes_only_by_probes_witness:
  "\<exists>s s'. reachable (sample_config RoundRobin) s \<and> sys_step s s' \<and> \<not> is_healthy (app_registry (sys_app s)) 0
     \<and> (\<exists>net v. wid v = 0 \<and> probe_ok net v \<and> s' = s\<lparr>sys_app := poll_worker net v (sys_app s)\<rparr>)"
proof -
  obtain app where run: "reachable (sample_config RoundRobin) (initial_system app)"
    and down: "reg_status (app_registry app) 0 = Some (sample_worker, False)"
    and up: "reg_status (app_registry (poll_worker up_net sample_worker app)) 0 = Some (sample_worker, True)"
    by (rule sample_start)
  let ?s' = "initial_system app\<lparr>sys_app := poll_worker up_net sample_worker app\<rparr>"
  have step: "sys_step (initial_system app) ?s'"
    using sys_step.probe [of "initial_system app" up_net sample_worker] by simp
  have now: "get_worker (app_registry (sys_app ?s')) 0 \<noteq> None" "is_healthy (app_registry (sys_app ?s')) 0"
    and before: "\<not> is_healthy (app_registry (sys_app (initial_system app))) 0"
    using up down by (simp_all add: get_worker_status_map is_healthy_status)
  obtain net v where "wid v = 0 \<and> probe_ok net v"
      and "?s' = initial_system app\<lparr>sys_app := poll_worker net v (sys_app (initial_system app))\<rparr>"
    using health_changes_only_by_probes [OF run step now(1)] now(2) before by auto
  then show ?thesis using run step before by blast
qed

text \<open>
  C14: an identifier denotes one worker for ever. Along every run a worker identifier that has been
  handed out never comes to name a worker of another URL or pool: later it names the worker it named,
  or nobody; once it names nobody it stays so, and every identifier in use has been handed out.
\<close>

theorem identifiers_denote_one_worker:
  assumes "reachable config s" and "sys_step\<^sup>*\<^sup>* s t" and "i < next_id (app_registry (sys_app s))"
  shows "(get_worker (app_registry (sys_app t)) i = None
      \<or> get_worker (app_registry (sys_app t)) i = get_worker (app_registry (sys_app s)) i)
    \<and> (\<forall>j v. get_worker (app_registry (sys_app t)) j = Some v \<longrightarrow> wid v = j \<and> j < next_id (app_registry (sys_app t)))"
proof -
  have "(get_worker (app_registry (sys_app t)) i = None
      \<or> get_worker (app_registry (sys_app t)) i = get_worker (app_registry (sys_app s)) i)
    \<and> i < next_id (app_registry (sys_app t))"
    using assms(2)
  proof (induction rule: rtranclp_induct)
    case (step t u)
    have "sys_inv t" using reachable_inv [OF reachable_run [OF assms(1) step(1)]] by blast
    from sys_step_identity [OF step(2) this, of i] step(3) show ?case by auto
  qed (use assms(3) in simp)
  moreover have "reg_inv (app_registry (sys_app t))"
    using reachable_inv [OF reachable_run [OF assms(1,2)]] by (simp add: sys_inv_def app_inv_def)
  ultimately show ?thesis
    using reg_invD(2,3) by (fastforce simp: get_worker_def)
qed

theorem identifiers_denote_one_worker_witness:
  "\<exists>s t. reachable (sample_config RoundRobin) s \<and> sys_step s t
     \<and> get_worker (app_registry (sys_app s)) 0 = Some sample_worker
     \<and> get_worker (app_registry (sys_app t)) 0 \<in> {None, Some sample_worker}"
proof -
  obtain app where run: "reachable (sample_config RoundRobin) (initial_system app)" and inv: "app_inv app"
    and down: "reg_status (app_registry app) 0 = Some (sample_worker, False)"
    by (rule sample_start)
  let ?t = "initial_system app\<lparr>sys_app := poll_worker up_net sample_worker app\<rparr>"
  have step: "sys_step (initial_system app) ?t"
    using sys_step.probe [of "initial_system app" up_net sample_worker] by simp
  have known: "get_worker (app_registry app) 0 = Some sample_worker" "0 < next_id (app_registry app)"
    using down status_id_less [of "app_registry app" 0] inv by (simp_all add: get_worker_status_map app_inv_def)
  have "sys_step\<^sup>*\<^sup>* (initial_system app) ?t" by (rule r_into_rtranclp) (rule step)
  then show ?thesis
    using identifiers_denote_one_worker [OF run, of ?t 0] run step known
    by (intro exI [of _ "initial_system app"] exI [of _ ?t]) auto
qed

section \<open>Preemption\<close>

text \<open>
  C35: the invariant needs atomic segments, which threads do not give. \<open>select_for_chat\<close> reads the
  healthy workers first and records last; if the health poller finds the chosen worker dead in
  between, and purges it, the recording credits the dead worker with the whole prompt again, and
  it is still credited when it comes back with an empty cache.
\<close>

theorem preempted_selection_credits_dead_worker:
  assumes "app_inv st" and "\<not> probe_ok net (d_worker d)" and "probe_ok net' (d_worker d)"
    and "select_for_chat clk (app_registry st) q (app_router (poll_worker net (d_worker d) st)) = (Inr d, r')"
    and "h \<in> set (chain_of (app_router (poll_worker net (d_worker d) st)) q)"
  defines "st' \<equiv> with_router r' (poll_worker net (d_worker d) st)"
  shows "\<not> is_healthy (app_registry st') (wid (d_worker d)) \<and> holds (rt_index (app_router st')) (wid (d_worker d)) h
    \<and> is_healthy (app_registry (poll_worker net' (d_worker d) st')) (wid (d_worker d))
    \<and> holds (rt_index (app_router (poll_worker net' (d_worker d) st'))) (wid (d_worker d)) h"
proof -
  let ?w = "d_worker d" and ?st = "poll_worker net (d_worker d) st"
  note poll = poll_worker_spec [OF assms(1), of net ?w]
  have rt: "router_inv (app_router ?st)" and reg: "reg_inv (app_registry st)"
    using poll(1) assms(1) by (simp_all add: app_inv_def)
  have ne: "healthy_workers (app_registry st) \<noteq> []" and pol: "rt_policy (app_router ?st) \<noteq> Disaggregated"
    using assms(4) select_for_chat_none [of "app_registry st" clk q "app_router ?st"]
      select_for_chat_disaggregated [of "app_registry st" "app_router ?st" clk q] by auto
  obtain d1 r1 where "select_for_chat clk (app_registry st) q (app_router ?st) = (Inr d1, r1)"
    and "d_worker d1 \<in> set (chat_candidates (healthy_workers (app_registry st)))"
    and "decided (wid (d_worker d1)) (chain_of (app_router ?st) q) (app_router ?st) r1"
    by (rule select_for_chat_ok [OF rt ne pol, of clk q])
  then have cand: "?w \<in> set (chat_candidates (healthy_workers (app_registry st)))"
    and dec: "decided (wid ?w) (chain_of (app_router ?st) q) (app_router ?st) r'"
    using assms(4) by simp_all
  have old: "reg_status (app_registry st) (wid ?w) = Some (?w, True)"
    using set_chat_candidates [OF cand] set_healthy_workers [OF reg] by auto
  have now: "reg_status (app_registry st') (wid ?w) = Some (?w, False)"
    using assms(2) by (simp add: st'_def with_router_def poll(2) old)
  have inv: "app_inv st'"
    using poll(1) dec by (simp add: st'_def app_inv_def with_router_def decided_def)
  have held: "holds (rt_index (app_router st')) (wid ?w) h"
    using dec assms(5) by (simp add: st'_def with_router_def decided_def)
  show ?thesis
    using now held poll_worker_spec(2,3) [OF inv, of net' ?w] assms(3) by (simp add: is_healthy_status)
qed

theorem preempted_selection_credits_dead_worker_witness:
  "\<exists>(net :: string \<Rightarrow> unit http_reply) st d r' h.
     select_for_chat Instant (app_registry st) sample_query (app_router (poll_worker net (d_worker d) st)) = (Inr d, r')
     \<and> is_healthy (app_registry st) (wid (d_worker d))
     \<and> \<not> is_healthy (app_registry (with_router r' (poll_worker net (d_worker d) st))) (wid (d_worker d))
     \<and> holds (rt_index (app_router (with_router r' (poll_worker net (d_worker d) st)))) (wid (d_worker d)) h"
proof -
  let ?st = "(sample_app CacheAware)\<lparr>app_registry := sample_registry 1\<rparr>"
  let ?w = "hd (healthy_workers (sample_registry 1))"
  let ?down = "\<lambda>_ :: string. Transport ''refused'' :: unit http_reply" and ?up = "\<lambda>_ :: string. Reply 200 ()"
  have one: "healthy_workers (sample_registry 1) = [?w]"
    using sample_registry_healthy(1) by (cases "healthy_workers (sample_registry 1)") auto
  have inv: "app_inv ?st"
    using sample_app_inv [of CacheAware] sample_registry_inv [of 1] by (simp add: app_inv_def)
  have rt: "router_inv (app_router (poll_worker ?down ?w ?st))"
    using poll_worker_spec(1) [OF inv, of ?down ?w] by (simp add: app_inv_def)
  have "\<exists>i. app_router (poll_worker ?down ?w ?st) = (router_new (sample_config CacheAware))\<lparr>rt_index := i\<rparr>"
    using poll_worker_spec(4) [OF inv, of ?down ?w] by (intro exI) (simp add: sample_app_def)
  then have pol: "rt_policy (app_router (poll_worker ?down ?w ?st)) \<noteq> Disaggregated" by auto
  have ne: "healthy_workers (sample_registry 1) \<noteq> []" using sample_registry_healthy(1) by auto
  obtain d r where sel: "select_for_chat Instant (sample_registry 1) sample_query (app_router (poll_worker ?down ?w ?st)) = (Inr d, r)"
    and cand: "d_worker d \<in> set (chat_candidates (healthy_workers (sample_registry 1)))"
    by (rule select_for_chat_ok [OF rt ne pol, of Instant sample_query])
  have "d_worker d = ?w" using set_chat_candidates [OF cand] one by (metis list.set(1,2) empty_iff insert_iff)
  then have sel': "select_for_chat Instant (app_registry ?st) sample_query
      (app_router (poll_worker ?down (d_worker d) ?st)) = (Inr d, r)" using sel by simp
  obtain h where h: "h \<in> set (chain_of (app_router (poll_worker ?down (d_worker d) ?st)) sample_query)"
    using sample_query_chain by (metis list.set_intros(1) neq_Nil_conv)
  have probes: "\<not> probe_ok ?down (d_worker d)" "probe_ok ?up (d_worker d)"
    by (simp_all add: probe_ok_def is_success_def)
  have "d_worker d \<in> set (healthy_workers (sample_registry 1))"
    using set_chat_candidates [OF cand] by (rule conjunct1)
  then have "reg_status (sample_registry 1) (wid (d_worker d)) = Some (d_worker d, True)"
    by (simp only: set_healthy_workers [OF sample_registry_inv] mem_Collect_eq)
  then have "is_healthy (app_registry ?st) (wid (d_worker d))"
    by (simp add: is_healthy_status)
  then show ?thesis
    using preempted_selection_credits_dead_worker [OF inv probes sel' h] sel' by blast
qed

end
