(* ===== verification/Startup.thy ===== *)
theory Startup
  imports System
begin

text \<open>
  \<open>serve\<close> in \<open>crates/router-server/src/lib.rs\<close> up to the point where requests are accepted: the
  environment variables and their defaults, loading the configuration, parsing the bind address as
  \<open>SocketAddr::from_str\<close> does, the shared state, the background tasks in the order they are
  spawned, and the listener. The environment, the file system, the YAML decoder, the metrics
  recorder, the HTTP client builder and the operating system's \<open>bind\<close> are parameters. Also the
  route table of \<open>build_router\<close> with what each endpoint does to the shared state.
\<close>

section \<open>Socket addresses\<close>

text \<open>
  The parser of \<open>core::net\<close>: a parser consumes a prefix of its input or fails without consuming.
  \<open>read_number radix digits leading fits\<close> reads all digits that follow; it fails on none, on more
  than \<open>digits\<close>, on a leading zero where that is not allowed, and on a number that does not fit.
\<close>

datatype socket_addr = SocketV4 "nat list" nat | SocketV6 "nat list" nat nat

definition to_digit :: "nat \<Rightarrow> char \<Rightarrow> nat option" where
  "to_digit radix c =
     (let n = of_char c :: nat;
          d = (if 48 \<le> n \<and> n \<le> 57 then n - 48 else if 97 \<le> n \<and> n \<le> 102 then n - 87
               else if 65 \<le> n \<and> n \<le> 70 then n - 55 else radix)
      in if d < radix then Some d else None)"

definition read_number :: "nat \<Rightarrow> nat option \<Rightarrow> bool \<Rightarrow> (nat \<Rightarrow> bool) \<Rightarrow> string \<Rightarrow> (nat \<times> string) option" where
  "read_number radix digits leading fits s =
     (let ds = takeWhile (\<lambda>c. to_digit radix c \<noteq> None) s;
          n = foldl (\<lambda>n c. radix * n + the (to_digit radix c)) 0 ds
      in if ds = [] \<or> (case digits of None \<Rightarrow> False | Some m \<Rightarrow> m < length ds)
            \<or> (\<not> leading \<and> hd ds = CHR ''0'' \<and> 1 < length ds) \<or> \<not> fits n
         then None else Some (n, drop (length ds) s))"

definition read_given_char :: "char \<Rightarrow> string \<Rightarrow> string option" where
  "read_given_char c s = (case s of [] \<Rightarrow> None | d # rest \<Rightarrow> if d = c then Some rest else None)"

text \<open>The separator precedes every element but the first.\<close>

definition read_separator :: "char \<Rightarrow> nat \<Rightarrow> (string \<Rightarrow> ('a \<times> string) option) \<Rightarrow> string \<Rightarrow> ('a \<times> string) option" where
  "read_separator c i p s = (if i = 0 then p s else Option.bind (read_given_char c s) p)"

fun read_octets :: "nat \<Rightarrow> nat \<Rightarrow> string \<Rightarrow> (nat list \<times> string) option" where
  "read_octets 0 i s = Some ([], s)"
| "read_octets (Suc n) i s =
     Option.bind (read_separator CHR ''.'' i (read_number 10 (Some 3) False (\<lambda>n. n < 256)) s)
       (\<lambda>(b, s). map_option (apfst ((#) b)) (read_octets n (Suc i) s))"

definition read_ipv4_addr :: "string \<Rightarrow> (nat list \<times> string) option" where
  "read_ipv4_addr s = read_octets 4 0 s"

text \<open>Up to \<open>n\<close> groups, the last two possibly a dotted quad; the flag says that they were one.\<close>

fun read_groups :: "nat \<Rightarrow> nat \<Rightarrow> string \<Rightarrow> nat list \<times> bool \<times> string" where
  "read_groups 0 i s = ([], False, s)"
| "read_groups (Suc n) i s =
     (case (if 0 < n then read_separator CHR '':'' i read_ipv4_addr s else None) of
        Some ([a, b, c, d], s) \<Rightarrow> ([256 * a + b, 256 * c + d], True, s)
      | _ \<Rightarrow> (case read_separator CHR '':'' i (read_number 16 (Some 4) True (\<lambda>n. n < 65536)) s of
                 None \<Rightarrow> ([], False, s)
               | Some (g, s) \<Rightarrow> (let (gs, quad, s) = read_groups n (Suc i) s in (g # gs, quad, s))))"

definition read_ipv6_addr :: "string \<Rightarrow> (nat list \<times> string) option" where
  "read_ipv6_addr s =
     (let (front, quad, s) = read_groups 8 0 s
      in if length front = 8 then Some (front, s)
         else if quad then None
         else case s of
                [] \<Rightarrow> None
              | [c] \<Rightarrow> None
              | c # d # s \<Rightarrow>
                  if c = CHR '':'' \<and> d = CHR '':''
                  then let (back, quad, s) = read_groups (8 - (length front + 1)) 0 s
                       in Some (front @ replicate (8 - length front - length back) 0 @ back, s)
                  else None)"

definition read_port :: "string \<Rightarrow> (nat \<times> string) option" where
  "read_port s = Option.bind (read_given_char CHR '':'' s) (read_number 10 None True (\<lambda>n. n < 65536))"

definition read_scope_id :: "string \<Rightarrow> (nat \<times> string) option" where
  "read_scope_id s = Option.bind (read_given_char CHR ''%'' s) (read_number 10 None True (\<lambda>n. n < 2 ^ 32))"

definition read_socket_addr_v4 :: "string \<Rightarrow> (socket_addr \<times> string) option" where
  "read_socket_addr_v4 s =
     Option.bind (read_ipv4_addr s) (\<lambda>(ip, s). map_option (apfst (SocketV4 ip)) (read_port s))"

definition read_socket_addr_v6 :: "string \<Rightarrow> (socket_addr \<times> string) option" where
  "read_socket_addr_v6 s =
     Option.bind (Option.bind (read_given_char CHR ''['' s) read_ipv6_addr) (\<lambda>(ip, s).
       let (scope, s) = (case read_scope_id s of None \<Rightarrow> (0, s) | Some x \<Rightarrow> x)
       in map_option (apfst (SocketV6 ip scope)) (Option.bind (read_given_char CHR '']'' s) read_port))"

text \<open>\<open>str::parse::<SocketAddr>()\<close>: the whole input must be consumed.\<close>

definition parse_socket_addr :: "string \<Rightarrow> socket_addr option" where
  "parse_socket_addr s =
     (case (case read_socket_addr_v4 s of None \<Rightarrow> read_socket_addr_v6 s | Some x \<Rightarrow> Some x) of
        Some (a, []) \<Rightarrow> Some a
      | _ \<Rightarrow> None)"

section \<open>Starting the server\<close>

definition default_config_path :: string where
  "default_config_path = ''config/router.yaml''"

definition default_bind_address :: string where
  "default_bind_address = ''0.0.0.0:8080''"

text \<open>\<open>std::env::var\<close>: the value of a variable that is set to valid Unicode.\<close>

type_synonym environment = "string \<Rightarrow> string option"

datatype background = HealthPoller | MetricsScraper | WorkerDiscovery | EvictionTask duration nat

datatype serve_error = CoreError router_error | AddrParseError | IoError string

record server =
  srv_state :: app_state
  srv_bind :: socket_addr

text \<open>\<open>spawn_engine_metrics_scraper\<close> returns at once where scraping is disabled.\<close>

definition spawned_tasks :: "app_state \<Rightarrow> router_config \<Rightarrow> background list" where
  "spawned_tasks st config =
     [HealthPoller]
     @ (if metrics_scrape (app_config st) then [MetricsScraper] else [])
     @ (if disc_enabled (cfg_discovery (app_config st)) then [WorkerDiscovery] else [])
     @ [EvictionTask (secs (prefix_index_ttl_secs config)) (prefix_index_max_entries config)]"

text \<open>The tasks spawned, and the error that ends the process or the server that accepts requests.\<close>

definition serve ::
  "environment \<Rightarrow> (string \<Rightarrow> string + string) \<Rightarrow> (string \<Rightarrow> string + raw_config) \<Rightarrow> string + unit \<Rightarrow> string + unit
     \<Rightarrow> (socket_addr \<Rightarrow> string + unit) \<Rightarrow> background list \<times> (serve_error + server)" where
  "serve env read_to_string yaml install client bind =
     (case load_config read_to_string yaml
             (case env ''ROUTER_CONFIG'' of None \<Rightarrow> default_config_path | Some p \<Rightarrow> p) of
        Inl e \<Rightarrow> ([], Inl (CoreError e))
      | Inr config \<Rightarrow>
         (case parse_socket_addr
                 (case env ''ROUTER_BIND'' of None \<Rightarrow> default_bind_address | Some a \<Rightarrow> a) of
            None \<Rightarrow> ([], Inl AddrParseError)
          | Some bind_address \<Rightarrow>
             (case app_new install client config of
                Inl e \<Rightarrow> ([], Inl (CoreError e))
              | Inr st \<Rightarrow>
                 (spawned_tasks st config,
                  case bind bind_address of
                    Inl e \<Rightarrow> Inl (IoError e)
                  | Inr _ \<Rightarrow> Inr \<lparr>srv_state = st, srv_bind = bind_address\<rparr>))))"

section \<open>Routes\<close>

datatype endpoint = ChatCompletions | ListModels | HealthEndpoint | ReadyEndpoint | MetricsEndpoint

datatype http_method = GET | POST

definition build_router :: "(string \<times> http_method \<times> endpoint) list" where
  "build_router =
     [(''/v1/chat/completions'', POST, ChatCompletions),
      (''/v1/models'', GET, ListModels),
      (''/health'', GET, HealthEndpoint),
      (''/ready'', GET, ReadyEndpoint),
      (''/metrics'', GET, MetricsEndpoint)]"

text \<open>What the handler of a plain endpoint answers, and the state it leaves.\<close>

fun serve_plain :: "(string \<Rightarrow> string + get_reply) \<Rightarrow> endpoint \<Rightarrow> app_state \<Rightarrow> (api_error + response) option \<times> app_state" where
  "serve_plain get ChatCompletions st = (None, st)"
| "serve_plain get ListModels st = (Some (list_models get st), st)"
| "serve_plain get HealthEndpoint st = (Some (Inr health), st)"
| "serve_plain get ReadyEndpoint st = (Some (Inr (ready st)), st)"
| "serve_plain get MetricsEndpoint st = (let (r, st) = metrics_endpoint st in (Some (Inr r), st))"

section \<open>Properties\<close>

text \<open>
  C13: when the server starts. It comes up exactly when the file named by \<open>ROUTER_CONFIG\<close>, or the
  default one, can be read and decodes to an acceptable configuration (both required fields, and a
  worker or discovery), the bind address of \<open>ROUTER_BIND\<close>, or the default one, parses, the metrics
  recorder and the HTTP client can be set up, and the address can be bound. No background task is
  spawned unless everything but the binding succeeded.
\<close>

theorem serve_comes_up_iff:
  fixes env defines "path \<equiv> (case env ''ROUTER_CONFIG'' of None \<Rightarrow> default_config_path | Some p \<Rightarrow> p)"
    and "address \<equiv> (case env ''ROUTER_BIND'' of None \<Rightarrow> default_bind_address | Some a \<Rightarrow> a)"
  shows "(is_ok (snd (serve env read_to_string yaml install client bind)) \<longleftrightarrow>
      (\<exists>raw d a. read_to_string path = Inr raw \<and> yaml raw = Inr d \<and> acceptable d
         \<and> parse_socket_addr address = Some a \<and> is_ok install \<and> is_ok client \<and> is_ok (bind a)))
    \<and> (fst (serve env read_to_string yaml install client bind) \<noteq> [] \<longleftrightarrow>
      (\<exists>raw d a. read_to_string path = Inr raw \<and> yaml raw = Inr d \<and> acceptable d
         \<and> parse_socket_addr address = Some a \<and> is_ok install \<and> is_ok client))"
proof -
  have app: "app_new install client c = Inl e \<Longrightarrow> isl install \<or> isl client"
    "app_new install client c = Inr st \<Longrightarrow> is_ok install \<and> is_ok client" for c e st
    by (cases install; cases client; simp add: app_new_def Let_def)+
  have config: "(\<exists>raw d. read_to_string path = Inr raw \<and> yaml raw = Inr d \<and> acceptable d)
      \<longleftrightarrow> is_ok (load_config read_to_string yaml path)"
    by (cases "read_to_string path") (simp_all add: load_config_def from_yaml_ok_iff)
  have split: "(\<exists>raw d a. read_to_string path = Inr raw \<and> yaml raw = Inr d \<and> acceptable d
        \<and> parse_socket_addr address = Some a \<and> P a)
      \<longleftrightarrow> is_ok (load_config read_to_string yaml path) \<and> (\<exists>a. parse_socket_addr address = Some a \<and> P a)" for P
    unfolding config [symmetric] by blast
  have run: "serve env read_to_string yaml install client bind =
      (case load_config read_to_string yaml path of
         Inl e \<Rightarrow> ([], Inl (CoreError e))
       | Inr c \<Rightarrow> (case parse_socket_addr address of
           None \<Rightarrow> ([], Inl AddrParseError)
         | Some a \<Rightarrow> (case app_new install client c of
             Inl e \<Rightarrow> ([], Inl (CoreError e))
           | Inr st \<Rightarrow> (spawned_tasks st c, case bind a of Inl e \<Rightarrow> Inl (IoError e)
               | Inr _ \<Rightarrow> Inr \<lparr>srv_state = st, srv_bind = a\<rparr>))))"
    by (simp only: serve_def path_def address_def)
  have "spawned_tasks st c \<noteq> []" for st c by (simp add: spawned_tasks_def)
  then show ?thesis
    unfolding split run by (auto dest: app split: sum.splits option.splits)
qed

lemma serve_ok:
  assumes "serve env read_to_string yaml install client bind = (tasks, Inr srv)"
  obtains config where "app_new (Inr ()) (Inr ()) config = Inr (srv_state srv)" and "app_config (srv_state srv) = config"
    and "tasks = spawned_tasks (srv_state srv) config"
    and "cfg_workers config \<noteq> [] \<or> disc_enabled (cfg_discovery config)"
proof -
  from assms obtain path config where load: "load_config read_to_string yaml path = Inr config"
    and new: "app_new install client config = Inr (srv_state srv)" and tasks: "tasks = spawned_tasks (srv_state srv) config"
    by (auto simp: serve_def split: sum.splits option.splits)
  have "cfg_workers config \<noteq> [] \<or> disc_enabled (cfg_discovery config)"
    using load by (auto simp: load_config_def from_yaml_def split: sum.splits if_splits)
  moreover have "app_new (Inr ()) (Inr ()) config = Inr (srv_state srv)"
    using new by (cases install; cases client) (simp_all add: app_new_def Let_def)
  moreover have "app_config (srv_state srv) = config" by (rule app_new_fields [OF new])
  ultimately show thesis using tasks by (intro that)
qed

text \<open>
  C12: what the server starts as. The state is an initial state of the transition system; the
  registry holds the configured workers, the \<open>i\<close>-th under identifier \<open>i\<close>, each with an in-flight
  counter and none of them healthy, so it answers 503 to readiness until a probe succeeds; the
  prefix index is empty. The health poller and the eviction task run always, the scraper and
  discovery exactly where the configuration enables them, and a server without configured workers
  runs discovery.
\<close>

theorem serve_starts_well_formed:
  assumes "serve env read_to_string yaml install client bind = (tasks, Inr srv)"
    and "length (cfg_workers (app_config (srv_state srv))) < 2 ^ 64"
  defines "config \<equiv> app_config (srv_state srv)"
  shows "reachable config (initial_system (srv_state srv))
    \<and> all_workers (app_registry (srv_state srv)) = map (configured_worker (cfg_workers config)) [0..<length (cfg_workers config)]
    \<and> (\<forall>w. get_worker (app_registry (srv_state srv)) w \<noteq> None \<longleftrightarrow> tracked (app_inflight (srv_state srv)) w)
    \<and> (\<forall>w. \<not> is_healthy (app_registry (srv_state srv)) w) \<and> resp_status (ready (srv_state srv)) = 503
    \<and> index_len (rt_index (app_router (srv_state srv))) = 0
    \<and> HealthPoller \<in> set tasks
    \<and> EvictionTask (secs (prefix_index_ttl_secs config)) (prefix_index_max_entries config) \<in> set tasks
    \<and> (MetricsScraper \<in> set tasks \<longleftrightarrow> metrics_scrape config)
    \<and> (WorkerDiscovery \<in> set tasks \<longleftrightarrow> disc_enabled (cfg_discovery config))
    \<and> (cfg_workers config = [] \<longrightarrow> WorkerDiscovery \<in> set tasks)"
proof -
  from serve_ok [OF assms(1)] have new: "app_new (Inr ()) (Inr ()) config = Inr (srv_state srv)"
    and tasks: "tasks = spawned_tasks (srv_state srv) config"
    and workers: "cfg_workers config \<noteq> [] \<or> disc_enabled (cfg_discovery config)"
    unfolding config_def by metis+
  have len: "length (cfg_workers config) < 2 ^ 64" using assms(2) by (simp add: config_def)
  have app: "app_registry (srv_state srv) = from_config (cfg_workers config)" "app_router (srv_state srv) = router_new config"
    "app_config (srv_state srv) = config"
    using app_new_fields [OF new] by simp_all
  note status = status_from_config [OF len]
  have down: "\<not> is_healthy (app_registry (srv_state srv)) w" for w
    by (simp add: app is_healthy_status status)
  have "healthy_workers (app_registry (srv_state srv)) = []"
    using reg.healthy_set [OF reg_inv_from_config [OF len]]
    by (auto simp: app status split: if_splits)
  then have "resp_status (ready (srv_state srv)) = 503" by (simp add: ready_iff_routable)
  moreover have "get_worker (app_registry (srv_state srv)) w \<noteq> None \<longleftrightarrow> tracked (app_inflight (srv_state srv)) w" for w
    by (simp add: app get_worker_status_map status tracked_def router_new_def with_capacity_def exI [of _ False])
  moreover have "index_len (rt_index (app_router (srv_state srv))) = 0"
    by (simp add: app router_new_def index_len_def index_new_def)
  ultimately show ?thesis
    using reachable.start [OF new len] all_workers_from_config [OF len] down workers
    by (auto simp: app tasks spawned_tasks_def)
qed

lemma default_bind_parses: "parse_socket_addr default_bind_address = Some (SocketV4 [0, 0, 0, 0] 8080)"
proof -
  have quad: "read_ipv4_addr s = read_octets (Suc (Suc (Suc (Suc 0)))) 0 s" for s
    by (simp add: read_ipv4_addr_def numeral_eq_Suc)
  show ?thesis
    by (simp add: default_bind_address_def parse_socket_addr_def read_socket_addr_v4_def quad read_number_def
        read_separator_def read_given_char_def to_digit_def read_port_def Let_def)
qed

definition sample_document :: raw_config where
  "sample_document = \<lparr>raw_workers = Some two_workers, raw_policy = Some CacheAware, raw_health_interval = None,
     raw_block_chars = None, raw_cache_weight = None, raw_load_weight = None, raw_ttl = None, raw_max_entries = None,
     raw_kv_cost = None, raw_scrape = Some True, raw_engine_interval = None, raw_engine_metric = None,
     raw_discovery_cfg = None\<rparr>"

theorem serve_starts_well_formed_witness:
  "\<exists>tasks srv. serve (\<lambda>_. None) Inr (\<lambda>_. Inr sample_document) (Inr ()) (Inr ()) (\<lambda>_. Inr ()) = (tasks, Inr srv)
     \<and> MetricsScraper \<in> set tasks \<and> WorkerDiscovery \<notin> set tasks
     \<and> map wid (all_workers (app_registry (srv_state srv))) = [0, 1]"
proof -
  obtain c where load: "load_config Inr (\<lambda>_. Inr sample_document) default_config_path = Inr c"
    and c: "cfg_workers c = two_workers" "metrics_scrape c" "\<not> disc_enabled (cfg_discovery c)"
    by (simp add: load_config_def from_yaml_def deserialize_config_def sample_document_def two_workers_def
        discovery_config_default_def)
  obtain st where new: "app_new (Inr ()) (Inr ()) c = Inr st" by (simp add: app_new_def Let_def)
  have run: "serve (\<lambda>_. None) Inr (\<lambda>_. Inr sample_document) (Inr ()) (Inr ()) (\<lambda>_. Inr ())
      = (spawned_tasks st c, Inr \<lparr>srv_state = st, srv_bind = SocketV4 [0, 0, 0, 0] 8080\<rparr>)"
    by (simp add: serve_def load default_bind_parses new)
  have config: "app_config st = c" by (rule app_new_fields [OF new])
  show ?thesis
    using serve_starts_well_formed [OF run] run c
    by (simp add: config) (auto simp: two_workers_def configured_worker_def)
qed

text \<open>The plain endpoints of the route table observe: none of them touches routing.\<close>

lemma plain_endpoints_observe:
  assumes "(path, GET, e) \<in> set build_router"
  shows "\<exists>m. snd (serve_plain get e st) = st\<lparr>app_metrics := m\<rparr>" and "fst (serve_plain get e st) \<noteq> None"
proof -
  have "st = st\<lparr>app_metrics := app_metrics st\<rparr>" by simp
  then have keep: "\<exists>m. st = st\<lparr>app_metrics := m\<rparr>" ..
  have "snd (metrics_endpoint st) = refresh_gauges st" by (simp add: metrics_endpoint_def Let_def)
  moreover have "\<exists>m. refresh_gauges st = st\<lparr>app_metrics := m\<rparr>" by (auto simp: refresh_gauges_def Let_def)
  ultimately show "\<exists>m. snd (serve_plain get e st) = st\<lparr>app_metrics := m\<rparr>"
    using assms keep by (auto simp: build_router_def case_prod_beta)
  show "fst (serve_plain get e st) \<noteq> None"
    using assms by (auto simp: build_router_def case_prod_beta)
qed

end
