(* ===== verification/Preemption.thy ===== *)
theory Preemption
  imports PrefixIndex
begin

text \<open>
  The LRU sweep of \<open>evict\<close> in \<open>prefix.rs\<close> while other threads use the index. The sweep collects all
  ages, releasing each shard, then removes the oldest entries one lock section at a time, without
  looking at their ages again. Between the collection and the last removal any lock sections of
  other operations may run. The length and the ages are taken from one state: the code reads them
  shard by shard with the locks released in between, and what other threads change during that
  collection is not modelled.
\<close>

text \<open>The victims: the \<open>overflow\<close> oldest of the collected entries.\<close>

definition sweep_victims :: "nat \<Rightarrow> prefix_index \<Rightarrow> (instant \<times> u64 \<times> nat) list" where
  "sweep_victims max_entries idx =
     (let total = index_len idx
      in if total \<le> max_entries then []
         else take (total - max_entries) (sort_key fst (collect_ages idx)))"

text \<open>The lock sections that remove the victims.\<close>

definition removals :: "(instant \<times> u64 \<times> nat) list \<Rightarrow> index_action list" where
  "removals vs = map (\<lambda>(_, hash, i). RemoveEntry i hash) vs"

lemma fold_lru_pass: "snd (lru_pass vs n idx) = fold index_act (removals vs) idx"
  by (induction vs n idx rule: lru_pass.induct) (simp_all add: removals_def Let_def)

text \<open>Run without interruption, the two phases after the TTL pass are \<open>evict\<close>.\<close>

lemma evict_in_phases:
  "snd (evict now ttl cap idx)
     = (let idx = snd (expire_pass now ttl [0..<length (shards idx)] 0 idx)
        in fold index_act (removals (sweep_victims cap idx)) idx)"
  by (simp add: evict_def sweep_victims_def Let_def case_prod_beta fold_lru_pass removals_def)

lemma sweep_victims_present:
  assumes "index_inv idx" and "(t, h, i) \<in> set (sweep_victims cap idx)"
  shows "i = shard_of h" and "index_lookup idx h \<noteq> None"
proof -
  have "(t, h, i) \<in> set (collect_ages idx)"
    using assms(2) by (auto simp: sweep_victims_def Let_def split: if_splits dest!: in_set_takeD)
  then show "i = shard_of h" and "index_lookup idx h \<noteq> None"
    by (auto simp: set_collect_ages [OF assms(1)])
qed

lemma card_victims:
  assumes "index_inv idx"
  shows "card ((fst \<circ> snd) ` set (sweep_victims cap idx)) = index_len idx - cap"
proof -
  have "distinct (map (fst \<circ> snd) (sort_key fst (collect_ages idx)))"
    using distinct_collect_ages [OF assms] by (simp add: distinct_map)
  then have "distinct (map (fst \<circ> snd) (sweep_victims cap idx))"
    by (simp add: sweep_victims_def Let_def distinct_take flip: take_map)
  then have "card ((fst \<circ> snd) ` set (sweep_victims cap idx)) = length (sweep_victims cap idx)"
    using distinct_card by fastforce
  then show ?thesis by (simp add: sweep_victims_def Let_def length_collect_ages)
qed

text \<open>A removed entry stays away unless its block is recorded again.\<close>

lemma removed_stays_away:
  assumes "index_inv idx" and "\<forall>a \<in> set (xs @ RemoveEntry (shard_of h) h # ys). action_ok a"
    and "\<forall>now w. RecordBlock now w h \<notin> set ys"
  shows "index_lookup (fold index_act (xs @ RemoveEntry (shard_of h) h # ys) idx) h = None"
proof -
  let ?mid = "remove_entry (shard_of h) h (fold index_act xs idx)"
  have inv: "index_inv (fold index_act xs idx)" using assms(1,2) by (intro index_inv_acts) auto
  then have mid: "index_inv ?mid" by (simp add: index_inv_remove_entry shard_of_less)
  have "\<not> holds ?mid w h" for w using inv by (simp add: holds_flat lookup_remove_entry)
  then have "\<not> holds (fold index_act ys ?mid) w h" for w
    using holds_acts [OF mid, of ys w h] assms(2,3) by auto
  moreover have "index_inv (fold index_act ys ?mid)" using mid assms(2) by (intro index_inv_acts) auto
  ultimately show ?thesis
    using present_iff_held [of "fold index_act ys ?mid" h] by (auto simp del: not_None_eq)
qed

text \<open>What an interleaved sweep leaves: entries that were no victims, and blocks recorded meanwhile.\<close>

lemma left_by_sweep:
  assumes "index_inv idx" and "\<forall>a \<in> set acts. action_ok a"
    and "set (removals (sweep_victims cap idx)) \<subseteq> set acts" and held: "holds (fold index_act acts idx) w h"
    and new: "\<forall>now w. RecordBlock now w h \<notin> set acts"
  shows "index_lookup idx h \<noteq> None \<and> h \<notin> (fst \<circ> snd) ` set (sweep_victims cap idx)"
proof
  show "index_lookup idx h \<noteq> None"
    using holds_acts [OF assms(1,2) _ held] new present_iff_held [OF assms(1)] by auto
  show "h \<notin> (fst \<circ> snd) ` set (sweep_victims cap idx)"
  proof
    assume "h \<in> (fst \<circ> snd) ` set (sweep_victims cap idx)"
    then obtain t i where victim: "(t, h, i) \<in> set (sweep_victims cap idx)" by force
    then have "RemoveEntry (shard_of h) h \<in> set acts"
      using assms(3) sweep_victims_present(1) [OF assms(1) victim] by (force simp: removals_def)
    then obtain xs ys where acts: "acts = xs @ RemoveEntry (shard_of h) h # ys" by (meson split_list)
    then have "index_lookup (fold index_act acts idx) h = None"
      using removed_stays_away [OF assms(1), of xs h ys] assms(2) new by auto
    then show False using held by (simp add: holds_flat)
  qed
qed

lemma finite_recorded: "finite {h. \<exists>now w. RecordBlock now w h \<in> set acts}"
  by (rule finite_subset [of _ "(\<lambda>a. case a of RecordBlock now w h \<Rightarrow> h | _ \<Rightarrow> 0) ` set acts"])
    (force intro: rev_image_eqI, simp)

text \<open>
  C23: an LRU sweep under preemption. Let the sweep collect its victims in the state \<open>idx\<close>, and let
  their removals be interleaved with any lock sections of other operations. Then the index ends
  with at most \<open>max_entries\<close> entries plus one per block recorded meanwhile, and every victim not
  recorded after its removal is gone: a match or a record that refreshes a victim before it is
  removed does not save it, though it is by then the most recently used entry.
\<close>

theorem preempted_sweep:
  assumes "index_inv idx" and "\<forall>a \<in> set acts. action_ok a"
    and "set (removals (sweep_victims cap idx)) \<subseteq> set acts"
  shows "index_inv (fold index_act acts idx)
    \<and> index_len (fold index_act acts idx) \<le> cap + card {h. \<exists>now w. RecordBlock now w h \<in> set acts}
    \<and> (\<forall>t h i xs ys. (t, h, i) \<in> set (sweep_victims cap idx) \<and> acts = xs @ RemoveEntry i h # ys
         \<and> (\<forall>now w. RecordBlock now w h \<notin> set ys) \<longrightarrow> index_lookup (fold index_act acts idx) h = None)"
proof (intro conjI allI impI)
  let ?new = "{h. \<exists>now w. RecordBlock now w h \<in> set acts}" and ?old = "{h. index_lookup idx h \<noteq> None}"
    and ?gone = "(fst \<circ> snd) ` set (sweep_victims cap idx)" and ?left = "{h. \<exists>w. holds (fold index_act acts idx) w h}"
  show inv: "index_inv (fold index_act acts idx)" using assms(1,2) by (rule index_inv_acts)
  show "index_lookup (fold index_act acts idx) h = None"
    if victim: "(t, h, i) \<in> set (sweep_victims cap idx) \<and> acts = xs @ RemoveEntry i h # ys
      \<and> (\<forall>now w. RecordBlock now w h \<notin> set ys)" for t h i xs ys
    using removed_stays_away [OF assms(1), of xs h ys] assms(2) sweep_victims_present(1) [OF assms(1), of t h i cap] victim
    by blast
  have "?left \<subseteq> (?old - ?gone) \<union> ?new"
    using left_by_sweep [OF assms] by blast
  then have "card ?left \<le> card (?old - ?gone) + card ?new"
    using finite_index_dom [OF assms(1)] finite_recorded [of acts] card_mono [of "(?old - ?gone) \<union> ?new" ?left]
      card_Un_le [of "?old - ?gone" ?new] by (meson finite_Diff finite_UnI le_trans)
  moreover have "?gone \<subseteq> ?old" using sweep_victims_present(2) [OF assms(1)] by force
  then have "card (?old - ?gone) = index_len idx - (index_len idx - cap)"
    using card_victims [OF assms(1)] finite_index_dom [OF assms(1)]
    by (simp add: card_Diff_subset finite_subset index_len_card [OF assms(1)])
  ultimately show "index_len (fold index_act acts idx) \<le> cap + card ?new"
    by (simp add: index_len_holds [OF inv])
qed

text \<open>Block 7, the older of two, is matched after the collection and evicted all the same.\<close>

theorem preempted_sweep_witness:
  "\<exists>idx. index_inv idx \<and> sweep_victims 1 idx = [(Instant 1, 7, 7)]
     \<and> index_lookup (fold index_act [TouchBlock (Instant 3) 7, RemoveEntry 7 7] idx) 7 = None
     \<and> index_len (fold index_act [TouchBlock (Instant 3) 7, RemoveEntry 7 7] idx) \<le> 1"
proof -
  let ?idx = "index_record (Instant 2) 0 [8] (index_record (Instant 1) 0 [7] index_new)"
  let ?acts = "[TouchBlock (Instant 3) 7, RemoveEntry 7 7]"
  have inv: "index_inv ?idx" by (simp add: idx.inv_learn index_inv_new)
  have victims: "sweep_victims 1 ?idx = [(Instant 1, 7, 7)]" by code_simp
  have "\<forall>a \<in> set ?acts. action_ok a" by (simp add: num_shards_def)
  from preempted_sweep [OF inv this, of 1] victims
  have len: "index_len (fold index_act ?acts ?idx) \<le> 1 + card {h. \<exists>now w. RecordBlock now w h \<in> set ?acts}"
    and gone: "\<forall>t h i xs ys. (t, h, i) \<in> set [(Instant 1, 7, 7)] \<and> ?acts = xs @ RemoveEntry i h # ys
      \<and> (\<forall>now w. RecordBlock now w h \<notin> set ys) \<longrightarrow> index_lookup (fold index_act ?acts ?idx) h = None"
    unfolding victims by (simp_all add: removals_def)
  have "index_lookup (fold index_act ?acts ?idx) 7 = None"
    using gone [rule_format, of "Instant 1" 7 7 "[TouchBlock (Instant 3) 7]" "[]"] by simp
  then show ?thesis using inv victims len by auto
qed

end
