(* ===== verification/Tests_Core.thy ===== *)
theory Tests_Core
  imports Policies App
begin

text \<open>
  The unit tests of \<open>router-core\<close> other than those of \<open>router.rs\<close>, translated one by one: a test is
  a boolean definition whose assertions are its conjuncts, and the lemma after it shows that the
  model passes it. Clock readings are an argument, and a test holds for every clock (that respects
  the test's sleeps, where it sleeps). YAML texts are decoded by a parameter, constrained to what the
  text says. Where a test asserts that hashes differ, the lemma assumes no collision among the few
  inputs hashed. \<open>unknown_fields_survive_the_round_trip\<close> tests the JSON library and is not translated.
\<close>

abbreviation is_err :: "'e + 'a \<Rightarrow> bool" where
  "is_err \<equiv> isl"

text \<open>\<open>assert_eq!\<close> on \<open>f64\<close>.\<close>

definition f64_eq :: "f64 \<Rightarrow> f64 \<Rightarrow> bool" where
  "f64_eq x y \<longleftrightarrow> partial_cmp x y = Some Equal"

lemma f64_eq_Fin: "is_finite x \<Longrightarrow> f64_eq x (Fin q) \<longleftrightarrow> fval x = q"
  by (simp add: f64_eq_def partial_cmp_finite cmp_of_def)

section \<open>Configuration\<close>

definition text_lines :: "string list \<Rightarrow> string" where
  "text_lines ls = concat (map (\<lambda>l. l @ [CHR 0x0A]) ls)"

definition CONFIG :: string where
  "CONFIG = text_lines [[], ''routing_policy: round_robin'', ''workers:'', ''  - url: http://127.0.0.1:8001'',
     ''    pool: both'', ''  - url: http://127.0.0.1:8002'', ''    pool: prefill'']"

text \<open>A document with the two required fields only.\<close>

definition document :: "worker_config list \<Rightarrow> routing_policy \<Rightarrow> raw_config" where
  "document ws p = \<lparr>raw_workers = Some ws, raw_policy = Some p, raw_health_interval = None,
     raw_block_chars = None, raw_cache_weight = None, raw_load_weight = None, raw_ttl = None, raw_max_entries = None,
     raw_kv_cost = None, raw_scrape = None, raw_engine_interval = None, raw_engine_metric = None,
     raw_discovery_cfg = None\<rparr>"

definition config_document :: raw_config where
  "config_document = document [\<lparr>wc_url = ''http://127.0.0.1:8001'', wc_pool = Both\<rparr>,
     \<lparr>wc_url = ''http://127.0.0.1:8002'', wc_pool = Prefill\<rparr>] RoundRobin"

lemmas config_tests = from_yaml_def deserialize_config_def document_def config_document_def f64_eq_def
  deserialize_discovery_def discovery_config_default_def default_health_check_interval_secs_def
  default_prompt_block_chars_def default_cache_weight_def default_load_weight_def
  default_prefix_index_ttl_secs_def default_prefix_index_max_entries_def default_kv_transfer_cost_ms_def

definition parses_config_with_defaults :: "(string \<Rightarrow> string + raw_config) \<Rightarrow> bool" where
  "parses_config_with_defaults yaml \<longleftrightarrow>
     (case from_yaml yaml CONFIG of
        Inl _ \<Rightarrow> False
      | Inr config \<Rightarrow>
          length (cfg_workers config) = 2
          \<and> wc_url (cfg_workers config ! 0) = ''http://127.0.0.1:8001'' \<and> wc_pool (cfg_workers config ! 0) = Both
          \<and> wc_pool (cfg_workers config ! 1) = Prefill \<and> cfg_policy config = RoundRobin
          \<and> health_check_interval_secs config = 5 \<and> prompt_block_chars config = 512
          \<and> f64_eq (cfg_cache_weight config) (Fin 1) \<and> f64_eq (cfg_load_weight config) (Fin (1 / 2))
          \<and> prefix_index_ttl_secs config = 300 \<and> prefix_index_max_entries config = 100000
          \<and> kv_transfer_cost_ms config = 20)"

lemma parses_config_with_defaults_passes:
  "yaml CONFIG = Inr config_document \<Longrightarrow> parses_config_with_defaults yaml"
  by (simp add: parses_config_with_defaults_def config_tests cmp_of_def)

definition accepts_all_policies :: "(string \<Rightarrow> string + raw_config) \<Rightarrow> bool" where
  "accepts_all_policies yaml \<longleftrightarrow>
     (case from_yaml yaml (text_lines [''routing_policy: cache_aware'', ''workers:'', ''  - url: http://x'', ''    pool: decode'']) of
        Inl _ \<Rightarrow> False | Inr c \<Rightarrow> cfg_policy c = CacheAware)
     \<and> (case from_yaml yaml (text_lines [''routing_policy: disaggregated'', ''workers:'', ''  - url: http://x'', ''    pool: prefill'']) of
        Inl _ \<Rightarrow> False | Inr c \<Rightarrow> cfg_policy c = Disaggregated)"

lemma accepts_all_policies_passes:
  "yaml (text_lines [''routing_policy: cache_aware'', ''workers:'', ''  - url: http://x'', ''    pool: decode''])
       = Inr (document [\<lparr>wc_url = ''http://x'', wc_pool = Decode\<rparr>] CacheAware)
     \<Longrightarrow> yaml (text_lines [''routing_policy: disaggregated'', ''workers:'', ''  - url: http://x'', ''    pool: prefill''])
       = Inr (document [\<lparr>wc_url = ''http://x'', wc_pool = Prefill\<rparr>] Disaggregated)
     \<Longrightarrow> accepts_all_policies yaml"
  by (simp add: accepts_all_policies_def config_tests)

definition KNOBS :: string where
  "KNOBS = text_lines [''routing_policy: cache_aware'', ''prompt_block_chars: 256'', ''cache_weight: 2.0'', ''load_weight: 0.25'',
     ''prefix_index_ttl_secs: 60'', ''prefix_index_max_entries: 1000'', ''kv_transfer_cost_ms: 42'', ''workers:'',
     ''  - url: http://x'', ''    pool: both'']"

definition accepts_explicit_knobs :: "(string \<Rightarrow> string + raw_config) \<Rightarrow> bool" where
  "accepts_explicit_knobs yaml \<longleftrightarrow>
     (case from_yaml yaml KNOBS of
        Inl _ \<Rightarrow> False
      | Inr config \<Rightarrow>
          prompt_block_chars config = 256 \<and> f64_eq (cfg_cache_weight config) (Fin 2)
          \<and> f64_eq (cfg_load_weight config) (Fin (1 / 4)) \<and> prefix_index_ttl_secs config = 60
          \<and> prefix_index_max_entries config = 1000 \<and> kv_transfer_cost_ms config = 42)"

lemma accepts_explicit_knobs_passes:
  "yaml KNOBS = Inr ((document [\<lparr>wc_url = ''http://x'', wc_pool = Both\<rparr>] CacheAware)
       \<lparr>raw_block_chars := Some 256, raw_cache_weight := Some (Fin 2), raw_load_weight := Some (Fin (1 / 4)),
        raw_ttl := Some 60, raw_max_entries := Some 1000, raw_kv_cost := Some 42\<rparr>)
     \<Longrightarrow> accepts_explicit_knobs yaml"
  by (simp add: accepts_explicit_knobs_def config_tests cmp_of_def)

definition rejects_unknown_pool :: "(string \<Rightarrow> string + raw_config) \<Rightarrow> bool" where
  "rejects_unknown_pool yaml \<longleftrightarrow>
     is_err (from_yaml yaml (text_lines [''routing_policy: round_robin'', ''workers:'', ''  - url: http://x'', ''    pool: nope'']))"

lemma rejects_unknown_pool_passes:
  "yaml (text_lines [''routing_policy: round_robin'', ''workers:'', ''  - url: http://x'', ''    pool: nope'']) = Inl e
     \<Longrightarrow> rejects_unknown_pool yaml"
  by (simp add: rejects_unknown_pool_def from_yaml_def)

definition rejects_empty_workers :: "(string \<Rightarrow> string + raw_config) \<Rightarrow> bool" where
  "rejects_empty_workers yaml \<longleftrightarrow>
     (case from_yaml yaml (text_lines [''routing_policy: round_robin'', ''workers: []'']) of
        Inl (ConfigError _) \<Rightarrow> True | _ \<Rightarrow> False)"

lemma rejects_empty_workers_passes:
  "yaml (text_lines [''routing_policy: round_robin'', ''workers: []'']) = Inr (document [] RoundRobin)
     \<Longrightarrow> rejects_empty_workers yaml"
  by (simp add: rejects_empty_workers_def config_tests)

definition DISCOVERY :: string where
  "DISCOVERY = text_lines [''routing_policy: cache_aware'', ''discovery:'', ''  enabled: true'', ''  service: kvrouter-workers'',
     ''workers: []'']"

definition accepts_empty_workers_when_discovery_is_enabled :: "(string \<Rightarrow> string + raw_config) \<Rightarrow> bool" where
  "accepts_empty_workers_when_discovery_is_enabled yaml \<longleftrightarrow>
     (case from_yaml yaml DISCOVERY of
        Inl _ \<Rightarrow> False
      | Inr config \<Rightarrow> cfg_workers config = [] \<and> disc_enabled (cfg_discovery config)
          \<and> disc_service (cfg_discovery config) = ''kvrouter-workers'')"

lemma accepts_empty_workers_when_discovery_is_enabled_passes:
  "yaml DISCOVERY = Inr ((document [] CacheAware)\<lparr>raw_discovery_cfg :=
       Some \<lparr>raw_enabled = Some True, raw_service = Some ''kvrouter-workers'', raw_namespace = None\<rparr>\<rparr>)
     \<Longrightarrow> accepts_empty_workers_when_discovery_is_enabled yaml"
  by (simp add: accepts_empty_workers_when_discovery_is_enabled_def config_tests)

definition discovery_defaults_to_disabled :: "(string \<Rightarrow> string + raw_config) \<Rightarrow> bool" where
  "discovery_defaults_to_disabled yaml \<longleftrightarrow>
     (case from_yaml yaml CONFIG of Inl _ \<Rightarrow> False | Inr config \<Rightarrow> \<not> disc_enabled (cfg_discovery config))"

lemma discovery_defaults_to_disabled_passes:
  "yaml CONFIG = Inr config_document \<Longrightarrow> discovery_defaults_to_disabled yaml"
  by (simp add: discovery_defaults_to_disabled_def config_tests)

section \<open>Hash chains\<close>

definition identical_prompts_produce_identical_chains :: bool where
  "identical_prompts_produce_identical_chains \<longleftrightarrow>
     (let a = chain_hash (ascii ''the same prompt text'') 4; b = chain_hash (ascii ''the same prompt text'') 4
      in a = b \<and> a \<noteq> [])"

lemma chain_hash_eq_Nil: "chain_hash p n = [] \<longleftrightarrow> p = []"
proof -
  have "chain_hash p n = [] \<longleftrightarrow> length (blocks_of p n) = 0"
    by (simp add: chain_hash_def flip: length_0_conv)
  then show ?thesis by (cases p) (simp_all add: blocks_of_def)
qed

lemma identical_prompts_produce_identical_chains_passes: identical_prompts_produce_identical_chains
  by (simp add: identical_prompts_produce_identical_chains_def chain_hash_eq_Nil ascii_def)

definition shared_prefix_produces_shared_chain_head :: bool where
  "shared_prefix_produces_shared_chain_head \<longleftrightarrow>
     (let base = ascii ''once upon a time'';
          chain_base = chain_hash base 4;
          chain_longer = chain_hash (base @ ascii '' there was a cache'') 4
      in length chain_base < length chain_longer \<and> take (length chain_base) chain_longer = chain_base)"

lemma shared_prefix_produces_shared_chain_head_passes: shared_prefix_produces_shared_chain_head
proof -
  let ?base = "ascii ''once upon a time''" and ?more = "ascii '' there was a cache''"
  have len: "length ?base = 4 * 4" and more: "?more \<noteq> []" by (simp_all add: ascii_def)
  have "blocks_of (?base @ ?more) 4 = blocks_of ?base 4 @ blocks_of ?more 4"
    unfolding blocks_of_def by (rule chunks_append [of _ _ 4]) (simp_all add: len)
  moreover have "blocks_of ?more 4 \<noteq> []" using more by (cases ?more) (simp_all add: blocks_of_def)
  ultimately show ?thesis
    by (simp add: shared_prefix_produces_shared_chain_head_def chain_hash_def take_chain_from)
qed

definition block_count_is_ceil_chars_over_block_size :: bool where
  "block_count_is_ceil_chars_over_block_size \<longleftrightarrow>
     length (chain_hash (ascii ''12345'') 2) = 3 \<and> length (chain_hash (ascii ''1234'') 2) = 2
     \<and> length (chain_hash (ascii ''abc'') 512) = 1 \<and> length (chain_hash (ascii []) 512) = 0"

lemma block_count_is_ceil_chars_over_block_size_passes: block_count_is_ceil_chars_over_block_size
  unfolding block_count_is_ceil_chars_over_block_size_def chain_hash_length by code_simp

definition multi_byte_chars_count_as_single_characters :: bool where
  "multi_byte_chars_count_as_single_characters \<longleftrightarrow> length (chain_hash [0x1F600, 0x1F600, 0x1F600, 0x1F600] 2) = 2"

lemma multi_byte_chars_count_as_single_characters_passes: multi_byte_chars_count_as_single_characters
  unfolding multi_byte_chars_count_as_single_characters_def chain_hash_length by code_simp

definition zero_block_size_clamps_to_one :: bool where
  "zero_block_size_clamps_to_one \<longleftrightarrow> chain_hash (ascii ''hello'') 0 = chain_hash (ascii ''hello'') 1"

lemma zero_block_size_clamps_to_one_passes: zero_block_size_clamps_to_one
  by (simp add: zero_block_size_clamps_to_one_def chain_hash_def blocks_of_def)

definition single_char_change_at_start_diverges_the_whole_chain :: bool where
  "single_char_change_at_start_diverges_the_whole_chain \<longleftrightarrow>
     (let a = chain_hash (ascii ''aaaaaaaaaaaaaaaa'') 4; b = chain_hash (ascii ''baaaaaaaaaaaaaaa'') 4
      in length a = length b \<and> list_all (\<lambda>(x, y). x \<noteq> y) (zip a b))"

text \<open>Without collisions, chains that differ at a block differ from there on.\<close>

lemma chains_diverge:
  assumes "collision_free (set (hash_inputs p (b # bs)) \<union> set (hash_inputs q (c # cs)))" and "(p, b) \<noteq> (q, c)"
  shows "list_all (\<lambda>(x, y). x \<noteq> y) (zip (chain_from p (b # bs)) (chain_from q (c # cs)))"
  using assms
proof (induction bs arbitrary: p q b c cs)
  case Nil
  then show ?case by (auto simp: collision_free_def inj_on_def Let_def)
next
  case (Cons b' bs)
  have ne: "block_hash p b \<noteq> block_hash q c"
    using Cons.prems by (auto simp: collision_free_def inj_on_def)
  show ?case
  proof (cases cs)
    case Nil
    then show ?thesis using ne by (simp add: Let_def)
  next
    case (Cons c' cs')
    have "list_all (\<lambda>(x, y). x \<noteq> y) (zip (chain_from (Some (block_hash p b)) (b' # bs)) (chain_from (Some (block_hash q c)) (c' # cs')))"
      using Cons.prems(1) ne by (intro Cons.IH collision_free_subset [OF Cons.prems(1)]) (auto simp: Cons)
    then show ?thesis using ne by (simp add: Cons Let_def)
  qed
qed

lemma single_char_change_at_start_diverges_the_whole_chain_passes:
  assumes "collision_free (set (hash_inputs None (blocks_of (ascii ''aaaaaaaaaaaaaaaa'') 4))
      \<union> set (hash_inputs None (blocks_of (ascii ''baaaaaaaaaaaaaaa'') 4)))"
  shows single_char_change_at_start_diverges_the_whole_chain
proof -
  let ?a = "ascii ''aaaaaaaaaaaaaaaa''" and ?b = "ascii ''baaaaaaaaaaaaaaa''"
  obtain as bs where a: "blocks_of ?a 4 = ascii ''aaaa'' # as" and b: "blocks_of ?b 4 = ascii ''baaa'' # bs"
    by (simp add: blocks_of_def ascii_def)
  have "(None :: u64 option, ascii ''aaaa'') \<noteq> (None, ascii ''baaa'')" by (simp add: ascii_def)
  from chains_diverge [OF assms [unfolded a b] this]
  have "list_all (\<lambda>(x, y). x \<noteq> y) (zip (chain_hash ?a 4) (chain_hash ?b 4))"
    by (simp only: chain_hash_def a b)
  moreover have "length (chain_hash ?a 4) = length (chain_hash ?b 4)"
    by (simp add: chain_hash_length ascii_def)
  ultimately show ?thesis
    by (simp only: single_char_change_at_start_diverges_the_whole_chain_def Let_def simp_thms)
qed

text \<open>Without collisions the hashes of one chain are distinct.\<close>

lemma hash_inputs_nth:
  "i < length bs \<Longrightarrow> chain_from p bs ! i = (\<lambda>(previous, b). block_hash previous b) (hash_inputs p bs ! i)
    \<and> fst (hash_inputs p bs ! i) = (if i = 0 then p else Some (chain_from p bs ! (i - 1)))"
proof (induction p bs arbitrary: i rule: hash_inputs.induct)
  case (2 p b bs)
  then show ?case
    using "2.IH" [of "i - 1"] by (cases i; cases "i - 1") (auto simp: Let_def)
qed simp

lemma length_hash_inputs [simp]: "length (hash_inputs p bs) = length bs"
  by (induction p bs rule: hash_inputs.induct) simp_all

lemma hash_inputs_separate:
  assumes "collision_free (set (hash_inputs p bs))" and "i < length bs" and "j < length bs"
    and "hash_inputs p bs ! i \<noteq> hash_inputs p bs ! j"
  shows "chain_from p bs ! i \<noteq> chain_from p bs ! j"
proof
  assume "chain_from p bs ! i = chain_from p bs ! j"
  then have "(\<lambda>(previous, b). block_hash previous b) (hash_inputs p bs ! i)
      = (\<lambda>(previous, b). block_hash previous b) (hash_inputs p bs ! j)"
    using hash_inputs_nth [OF assms(2), of p] hash_inputs_nth [OF assms(3), of p] by simp
  then have "hash_inputs p bs ! i = hash_inputs p bs ! j"
    by (rule inj_onD [OF assms(1) [unfolded collision_free_def]]) (simp_all add: assms(2,3))
  with assms(4) show False ..
qed

lemma chain_distinct:
  assumes "collision_free (set (hash_inputs None (blocks_of prompt n)))"
  shows "distinct (chain_hash prompt n)"
proof -
  let ?bs = "blocks_of prompt n"
  have less: "chain_from None ?bs ! i \<noteq> chain_from None ?bs ! j" if "i < j" and "j < length ?bs" for i j
    using that
  proof (induction i arbitrary: j)
    case (0 j)
    then have "fst (hash_inputs None ?bs ! 0) = None" and "fst (hash_inputs None ?bs ! j) \<noteq> None"
      using hash_inputs_nth [OF less_trans [OF 0], of None] hash_inputs_nth [OF 0(2), of None] by (simp_all del: length_greater_0_conv)
    then have "hash_inputs None ?bs ! 0 \<noteq> hash_inputs None ?bs ! j" by auto
    then show ?case by (rule hash_inputs_separate [OF assms less_trans [OF 0] 0(2)])
  next
    case (Suc i j)
    then have "chain_from None ?bs ! i \<noteq> chain_from None ?bs ! (j - 1)" by (intro Suc.IH) auto
    then have "hash_inputs None ?bs ! Suc i \<noteq> hash_inputs None ?bs ! j"
      using hash_inputs_nth [of "Suc i" ?bs None] hash_inputs_nth [of j ?bs None] Suc.prems by auto
    then show ?case using Suc.prems by (intro hash_inputs_separate [OF assms]) simp_all
  qed
  have "chain_from None ?bs ! i \<noteq> chain_from None ?bs ! j"
    if "i < length ?bs" and "j < length ?bs" and "i \<noteq> j" for i j
    using less [of i j] less [of j i] that by (cases "i < j") auto
  then show ?thesis by (simp add: chain_hash_def distinct_conv_nth)
qed

section \<open>Requests and KV transfer\<close>

definition test_request :: "(string \<times> string) list \<Rightarrow> unit chat_request" where
  "test_request ms = \<lparr>model = ascii ''mock'',
     messages = map (\<lambda>(role, content). \<lparr>msg_role = ascii role, msg_content = ascii content\<rparr>) ms,
     max_tokens = None, temperature = None, stream = False, extra = []\<rparr>"

lemmas request_tests = test_request_def canonical_prompt_def Let_def ascii_def

definition canonical_prompt_is_deterministic :: bool where
  "canonical_prompt_is_deterministic \<longleftrightarrow>
     (let a = test_request [(''user'', ''hello'')]; b = test_request [(''user'', ''hello'')]
      in canonical_prompt a = canonical_prompt b \<and> canonical_prompt a = ascii ''user: hello'')"

lemma canonical_prompt_is_deterministic_passes: canonical_prompt_is_deterministic
  by (simp add: canonical_prompt_is_deterministic_def request_tests)

definition canonical_prompt_joins_messages_in_order_with_roles :: bool where
  "canonical_prompt_joins_messages_in_order_with_roles \<longleftrightarrow>
     canonical_prompt (test_request [(''user'', ''first''), (''assistant'', ''second'')])
       = ascii (''user: first'' @ [CHR 0x0A] @ ''assistant: second'')"

lemma canonical_prompt_joins_messages_in_order_with_roles_passes:
  canonical_prompt_joins_messages_in_order_with_roles
  by (simp add: canonical_prompt_joins_messages_in_order_with_roles_def request_tests)

definition role_changes_are_visible_in_the_prompt :: bool where
  "role_changes_are_visible_in_the_prompt \<longleftrightarrow>
     canonical_prompt (test_request [(''user'', ''same words'')]) \<noteq> canonical_prompt (test_request [(''assistant'', ''same words'')])"

lemma role_changes_are_visible_in_the_prompt_passes: role_changes_are_visible_in_the_prompt
  by (simp add: role_changes_are_visible_in_the_prompt_def request_tests)

definition mock_transfer_succeeds :: bool where
  "mock_transfer_succeeds \<longleftrightarrow> snd (mock_transfer (mock_new (1 * 1000000)) 0 1 4) = Inr ()"

lemma mock_transfer_succeeds_passes: mock_transfer_succeeds
  by (simp add: mock_transfer_succeeds_def mock_transfer_def)

end
