(* ===== verification/Tests_State.thy ===== *)
theory Tests_State
  imports Tests_Core
begin

text \<open>
  The unit tests of \<open>inflight.rs\<close>, \<open>worker.rs\<close> and \<open>prefix.rs\<close>, translated like those of
  \<open>Tests_Core\<close>. Every step of a test threads the state of the object under test; \<open>clk i\<close> is the
  clock reading of its \<open>i\<close>-th call. A sleep is the hypothesis that the clock moved by that much,
  and a clock never goes back.
\<close>

section \<open>In-flight tracker\<close>

definition guard_increments_and_decrements :: bool where
  "guard_increments_and_decrements \<longleftrightarrow>
     (let tracker = with_capacity 2
      in inflight_count tracker 0 = 0
         \<and> (let (guard, tracker) = guard_acquire 0 tracker
            in inflight_count tracker 0 = 1 \<and> inflight_total tracker = 1 \<and> guard_worker guard = 0
               \<and> (let tracker = guard_drop guard tracker
                  in inflight_count tracker 0 = 0 \<and> inflight_total tracker = 0)))"

lemma guard_increments_and_decrements_passes: guard_increments_and_decrements
  by code_simp

definition ensure_capacity_tracks_runtime_workers :: bool where
  "ensure_capacity_tracks_runtime_workers \<longleftrightarrow>
     (let tracker = with_capacity 2
      in inflight_count tracker 5 = 0
         \<and> (let (guard, tracker) = guard_acquire 5 (ensure_capacity 6 tracker)
            in inflight_count tracker 5 = 1 \<and> inflight_total tracker = 1
               \<and> inflight_total (guard_drop guard tracker) = 0))"

lemma ensure_capacity_tracks_runtime_workers_passes: ensure_capacity_tracks_runtime_workers
  by code_simp

text \<open>The guard of the failing call is dropped when the call returns.\<close>

definition fallible_upstream_call :: "worker_id \<Rightarrow> inflight_tracker \<Rightarrow> (router_error + unit) \<times> inflight_tracker" where
  "fallible_upstream_call worker tracker =
     (let (guard, tracker) = guard_acquire worker tracker
      in (Inl (NoHealthyWorkers ''round_robin''), guard_drop guard tracker))"

fun upstream_calls :: "nat \<Rightarrow> inflight_tracker \<Rightarrow> bool" where
  "upstream_calls 0 tracker \<longleftrightarrow> True"
| "upstream_calls (Suc n) tracker \<longleftrightarrow>
     (let (result, tracker) = fallible_upstream_call 0 tracker
      in is_err result \<and> inflight_count tracker 0 = 0 \<and> upstream_calls n tracker)"

definition guard_released_when_upstream_call_errors :: bool where
  "guard_released_when_upstream_call_errors \<longleftrightarrow> upstream_calls 5 (with_capacity 1)"

lemma guard_released_when_upstream_call_errors_passes: guard_released_when_upstream_call_errors
proof -
  have "upstream_calls n (with_capacity 1)" for n
    by (induction n) (simp_all add: fallible_upstream_call_def with_capacity_def guard_acquire_def
        guard_drop_def increment_def decrement_def inflight_count_def)
  then show ?thesis by (simp add: guard_released_when_upstream_call_errors_def)
qed

section \<open>Worker registry\<close>

definition starts_with_everything_down :: bool where
  "starts_with_everything_down \<longleftrightarrow>
     (let registry = from_config two_workers
      in \<not> any_healthy registry \<and> healthy_count registry = 0 \<and> length (all_workers registry) = 2)"

lemma starts_with_everything_down_passes: starts_with_everything_down
  by code_simp

definition health_updates_report_changes_only :: bool where
  "health_updates_report_changes_only \<longleftrightarrow>
     (let registry = from_config two_workers;
          (first, registry) = set_healthy 0 True registry;
          (second, registry) = set_healthy 0 True registry
      in first \<and> \<not> second \<and> is_healthy registry 0 \<and> \<not> is_healthy registry 1
         \<and> map Some (healthy_workers registry) = [get_worker registry 0])"

lemma health_updates_report_changes_only_passes: health_updates_report_changes_only
  by code_simp

definition unknown_worker_id_is_ignored :: bool where
  "unknown_worker_id_is_ignored \<longleftrightarrow>
     (let (changed, registry) = set_healthy 42 True (from_config two_workers)
      in \<not> changed \<and> get_worker registry 42 = None)"

lemma unknown_worker_id_is_ignored_passes: unknown_worker_id_is_ignored
  by code_simp

definition registers_and_removes_runtime_workers :: bool where
  "registers_and_removes_runtime_workers \<longleftrightarrow>
     (let (i, registry) = register_worker ''http://discovered'' Both (from_config two_workers)
      in i = 2 \<and> length (all_workers registry) = 3 \<and> \<not> is_healthy registry i
         \<and> (let (_, registry) = set_healthy i True registry
            in is_healthy registry i
               \<and> (let (removed, registry) = remove_worker i registry
                  in map_option url removed = Some ''http://discovered'' \<and> length (all_workers registry) = 2
                     \<and> fst (register_worker ''http://replacement'' Both registry) = 3)))"

lemma registers_and_removes_runtime_workers_passes: registers_and_removes_runtime_workers
  by code_simp

section \<open>Prefix index\<close>

definition test_chain :: "string \<Rightarrow> u64 list" where
  "test_chain txt = chain_hash (ascii txt) 4"

text \<open>The hash inputs of a test's prompts.\<close>

definition test_inputs :: "string list \<Rightarrow> (u64 option \<times> uchar list) set" where
  "test_inputs txts = (\<Union>txt \<in> set txts. set (hash_inputs None (blocks_of (ascii txt) 4)))"

lemma distinct_chain: "collision_free (test_inputs txts) \<Longrightarrow> txt \<in> set txts \<Longrightarrow> distinct (test_chain txt)"
  unfolding test_chain_def by (rule chain_distinct, erule collision_free_subset) (auto simp: test_inputs_def)

lemmas index_tests = index_inv_new idx.inv_learn idx.inv_match idx.inv_forget idx.believes_learn idx.match_value
  idx.believes_match idx.believes_forget holds_index_new index_len_holds takeWhile_eq_all_conv [THEN iffD2]

definition record_then_match :: "(nat \<Rightarrow> instant) \<Rightarrow> bool" where
  "record_then_match clk \<longleftrightarrow>
     (let c = test_chain ''the quick brown fox'';
          (before, index) = longest_match (clk 0) 0 c index_new;
          index = index_record (clk 1) 0 c index;
          (after, index) = longest_match (clk 2) 0 c index
      in before = 0 \<and> after = length c \<and> index_len index = length c)"

lemma record_then_match_passes:
  assumes "collision_free (test_inputs [''the quick brown fox''])"
  shows "record_then_match clk"
proof -
  have "card (set (test_chain ''the quick brown fox'')) = length (test_chain ''the quick brown fox'')"
    by (rule distinct_card, rule distinct_chain [OF assms]) simp
  then show ?thesis
    unfolding record_then_match_def Let_def case_prod_beta
    by (simp add: index_tests takeWhile_eq_Nil_iff)
qed

definition tracking_is_per_worker :: "(nat \<Rightarrow> instant) \<Rightarrow> bool" where
  "tracking_is_per_worker clk \<longleftrightarrow>
     (let c = test_chain ''cache aware routing'';
          index = index_record (clk 0) 0 c index_new;
          (own, index) = longest_match (clk 1) 0 c index;
          (other, index) = longest_match (clk 2) 1 c index
      in own = length c \<and> other = 0)"

lemma tracking_is_per_worker_passes: "tracking_is_per_worker clk"
  unfolding tracking_is_per_worker_def Let_def case_prod_beta
  by (simp add: index_tests takeWhile_eq_Nil_iff)

definition partial_prefix_matches_in_blocks :: "(nat \<Rightarrow> instant) \<Rightarrow> bool" where
  "partial_prefix_matches_in_blocks clk \<longleftrightarrow>
     (let index = index_record (clk 0) 0 (test_chain ''abcdefghijkl'') index_new;
          (shorter, index) = longest_match (clk 1) 0 (test_chain ''abcdef'') index;
          (other, index) = longest_match (clk 2) 0 (test_chain ''zzzz'') index
      in shorter = 1 \<and> other = 0)"

lemma partial_prefix_matches_in_blocks_passes:
  assumes "collision_free (test_inputs [''abcdefghijkl'', ''abcdef'', ''zzzz''])"
  shows "partial_prefix_matches_in_blocks clk"
proof -
  let ?h = "\<lambda>p txt. block_hash p (ascii txt)"
  let ?h1 = "?h None ''abcd''"
  let ?h2 = "?h (Some ?h1) ''efgh''"
  have chains: "test_chain ''abcdefghijkl'' = [?h1, ?h2, ?h (Some ?h2) ''ijkl'']"
      "test_chain ''abcdef'' = [?h1, ?h (Some ?h1) ''ef'']" "test_chain ''zzzz'' = [?h None ''zzzz'']"
    by (simp_all add: test_chain_def chain_hash_def blocks_of_def ascii_def Let_def)
  have "inj_on (\<lambda>(p, b). block_hash p b) {(None, ascii ''abcd''), (Some ?h1, ascii ''efgh''),
      (Some ?h2, ascii ''ijkl''), (Some ?h1, ascii ''ef''), (None, ascii ''zzzz'')}"
    using assms unfolding collision_free_def
    by (rule inj_on_subset) (simp add: test_inputs_def blocks_of_def ascii_def Let_def)
  then have "?h (Some ?h1) ''ef'' \<notin> {?h1, ?h2, ?h (Some ?h2) ''ijkl''}"
    and "?h None ''zzzz'' \<notin> {?h1, ?h2, ?h (Some ?h2) ''ijkl''}"
    by (auto simp: inj_on_def ascii_def)
  then show ?thesis
    unfolding partial_prefix_matches_in_blocks_def Let_def case_prod_beta chains
    by (simp add: index_tests)
qed

definition remove_worker_clears_its_entries_but_keeps_others :: "(nat \<Rightarrow> instant) \<Rightarrow> bool" where
  "remove_worker_clears_its_entries_but_keeps_others clk \<longleftrightarrow>
     (let c = test_chain ''shared prompt'';
          index = index_record (clk 0) 0 c index_new;
          index = index_record (clk 1) 1 c index;
          index = index_remove_worker 0 index;
          (removed, index) = longest_match (clk 2) 0 c index;
          (kept, index) = longest_match (clk 3) 1 c index
      in removed = 0 \<and> kept = length c \<and> index_len index = length c)"

lemma remove_worker_clears_its_entries_but_keeps_others_passes:
  assumes "collision_free (test_inputs [''shared prompt''])"
  shows "remove_worker_clears_its_entries_but_keeps_others clk"
proof -
  have "card (set (test_chain ''shared prompt'')) = length (test_chain ''shared prompt'')"
    by (rule distinct_card, rule distinct_chain [OF assms]) simp
  moreover have "{h. \<exists>w :: worker_id. w \<noteq> 0 \<and> (w = 0 \<and> h \<in> S \<or> w = 1 \<and> h \<in> S)} = S" for S :: "u64 set"
    by (auto intro: exI [of _ 1])
  ultimately show ?thesis
    unfolding remove_worker_clears_its_entries_but_keeps_others_def Let_def case_prod_beta
    by (simp add: index_tests takeWhile_eq_Nil_iff)
qed

text \<open>The property test, for all prompts and block sizes.\<close>

definition longest_match_never_exceeds_shorter_prompt ::
  "(nat \<Rightarrow> instant) \<Rightarrow> ustring \<Rightarrow> ustring \<Rightarrow> nat \<Rightarrow> bool" where
  "longest_match_never_exceeds_shorter_prompt clk prompt_a prompt_b block_chars \<longleftrightarrow>
     (let chain_a = chain_hash prompt_a block_chars; chain_b = chain_hash prompt_b block_chars;
          index = index_record (clk 0) 0 chain_a index_new;
          (matched, _) = longest_match (clk 1) 0 chain_b index
      in matched \<le> length chain_a \<and> matched \<le> length chain_b \<and> chain_hash prompt_a block_chars = chain_a)"

text \<open>Without collisions in the second chain, its matched hashes are distinct hashes of the first.\<close>

lemma longest_match_never_exceeds_shorter_prompt_passes:
  assumes "collision_free (set (hash_inputs None (blocks_of prompt_b block_chars)))"
  shows "longest_match_never_exceeds_shorter_prompt clk prompt_a prompt_b block_chars"
proof -
  let ?a = "chain_hash prompt_a block_chars" and ?b = "chain_hash prompt_b block_chars"
  let ?m = "takeWhile (\<lambda>h. h \<in> set ?a) ?b"
  have "distinct ?m" by (rule distinct_takeWhile, rule chain_distinct [OF assms])
  then have "length ?m = card (set ?m)" by (rule distinct_card [symmetric])
  also have "\<dots> \<le> card (set ?a)" by (intro card_mono) (auto dest: set_takeWhileD)
  also have "\<dots> \<le> length ?a" by (rule card_length)
  finally have "length ?m \<le> length ?a" .
  moreover have "holds (index_record (clk 0) 0 ?a index_new) 0 = (\<lambda>h. h \<in> set ?a)"
    by (simp add: fun_eq_iff index_tests)
  ultimately show ?thesis
    unfolding longest_match_never_exceeds_shorter_prompt_def Let_def case_prod_beta
    by (simp add: index_tests length_takeWhile_le)
qed

subsection \<open>Eviction\<close>

text \<open>A recorded entry carries the clock of the last recording.\<close>

lemma lookup_new: "index_lookup index_new = (\<lambda>_. None)"
  by (simp add: fun_eq_iff index_lookup_def shard_entries_def index_new_def shard_of_less hashmap_simps)

lemma fold_record_other: "h \<notin> set c \<Longrightarrow> fold (flat_record_block now w) c m h = m h"
  by (induction c arbitrary: m) (auto simp: flat_record_block_def)

lemma fold_record_touched:
  "fold (flat_record_block now w) c m h = Some e \<Longrightarrow> h \<in> set c \<Longrightarrow> last_touched e = now"
proof (induction c arbitrary: m)
  case (Cons x c)
  show ?case
  proof (cases "h \<in> set c")
    case False
    then have "flat_record_block now w x m x = Some e"
      using Cons.prems fold_record_other [OF False, of now w "flat_record_block now w x m"] by simp
    then show ?thesis by (auto simp: flat_record_block_def)
  qed (use Cons in auto)
qed simp

definition ttl_expiry_removes_stale_entries :: "(nat \<Rightarrow> instant) \<Rightarrow> bool" where
  "ttl_expiry_removes_stale_entries clk \<longleftrightarrow>
     (let c = test_chain ''hello world'';
          index = index_record (clk 0) 0 c index_new;
          (stats, index) = evict (clk 1) (1 * 1000000) (2 ^ 64 - 1) index
      in expired stats = length c \<and> index_len index = 0)"

lemma ttl_expiry_removes_stale_entries_passes:
  assumes "collision_free (test_inputs [''hello world''])" and "nanos (clk 0) + 5 * 1000000 \<le> nanos (clk 1)"
  shows "ttl_expiry_removes_stale_entries clk"
proof -
  let ?c = "test_chain ''hello world''" and ?idx = "index_record (clk 0) 0 (test_chain ''hello world'') index_new"
  obtain stats idx' where sweep: "evict (clk 1) (1 * 1000000) (2 ^ 64 - 1) ?idx = (stats, idx')" by fastforce
  have inv: "index_inv ?idx" by (simp add: index_tests)
  have "card (set ?c) = length ?c" by (rule distinct_card, rule distinct_chain [OF assms(1)]) simp
  then have len: "index_len ?idx = length ?c" by (simp add: index_tests)
  have "h \<in> set ?c \<and> last_touched e = clk 0" if look: "index_lookup ?idx h = Some e" for h e
  proof -
    have fold: "fold (flat_record_block (clk 0) 0) ?c (index_lookup index_new) h = Some e"
      using index_record_fold [OF index_inv_new] look by simp
    moreover have "h \<in> set ?c"
      using fold fold_record_other [of h ?c "clk 0" 0 "\<lambda>_. None"] by (cases "h \<in> set ?c") (simp_all add: lookup_new)
    ultimately show ?thesis using fold_record_touched by blast
  qed
  then have "flat_expire (clk 1) (1 * 1000000) (index_lookup ?idx) h = None" for h
    using assms(2) by (cases "index_lookup ?idx h") (auto simp: flat_expire_def duration_since_def)
  then have "index_len idx' + lru_evicted stats = 0"
    using evict_spec(4) [OF inv sweep] by simp
  then have "expired stats = length ?c" and "index_len idx' = 0"
    using evict_spec(3) [OF inv sweep] len by simp_all
  then show ?thesis
    by (simp only: ttl_expiry_removes_stale_entries_def Let_def sweep case_prod_conv simp_thms)
qed

text \<open>Two single-block chains of which \<open>a\<close> was touched last before \<open>b\<close>: a cap of one evicts \<open>a\<close>.\<close>

lemma cap_evicts_older:
  assumes inv: "index_inv idx" and ne: "a \<noteq> b"
    and look: "index_lookup idx = [a \<mapsto> e, b \<mapsto> e']" and older: "last_touched e < last_touched e'"
    and fresh: "duration_since now (last_touched e) \<le> ttl" "duration_since now (last_touched e') \<le> ttl"
    and sweep: "evict now ttl 1 idx = (stats, idx')"
  shows "index_inv idx' \<and> lru_evicted stats = 1 \<and> index_len idx' = 1 \<and> index_lookup idx' = [b \<mapsto> e']"
proof -
  note spec = evict_spec [OF inv sweep]
  have keep: "flat_expire now ttl (index_lookup idx) = index_lookup idx"
    using fresh by (auto simp: flat_expire_def look fun_eq_iff)
  have "{h. index_lookup idx h \<noteq> None} = {a, b}" by (auto simp: look)
  then have two: "card {h. index_lookup idx h \<noteq> None} = 2" using ne by simp
  then have lru: "lru_evicted stats = 1" and len: "index_len idx' = 1"
    using spec(4,5) by (simp_all add: keep)
  obtain k where "{h. index_lookup idx' h \<noteq> None} = {k}"
    using len by (auto simp: index_len_card [OF spec(1)] card_1_singleton_iff)
  then have only: "index_lookup idx' h \<noteq> None \<longleftrightarrow> h = k" for h by blast
  have kept: "index_lookup idx' k = index_lookup idx k"
    using spec(6) [of k] only [of k] by (auto simp: keep)
  have "k = a \<or> k = b" using kept only [of k] by (auto simp: look split: if_splits)
  moreover have "k \<noteq> a"
  proof
    assume "k = a"
    then have "index_lookup idx' b = None" using only [of b] ne by auto
    then have "last_touched e' \<le> last_touched e"
      using spec(7) [unfolded keep, of b e' a e] kept ne \<open>k = a\<close> by (simp add: look)
    then show False using older by simp
  qed
  ultimately have "k = b" by blast
  have "index_lookup idx' h = [b \<mapsto> e'] h" for h
    using kept only [of h] \<open>k = b\<close> by (cases "index_lookup idx' h") (auto simp: look)
  then have "index_lookup idx' = [b \<mapsto> e']" ..
  then show ?thesis using spec(1) lru len by blast
qed

definition lru_cap_evicts_oldest_entries_first :: "(nat \<Rightarrow> instant) \<Rightarrow> bool" where
  "lru_cap_evicts_oldest_entries_first clk \<longleftrightarrow>
     (let old_chain = test_chain ''aaaa''; new_chain = test_chain ''bbbb'';
          index = index_record (clk 0) 0 old_chain index_new;
          index = index_record (clk 1) 0 new_chain index;
          (stats, index) = evict (clk 2) (secs 300) 1 index;
          n = index_len index;
          (new, index) = longest_match (clk 3) 0 new_chain index;
          (old, index) = longest_match (clk 4) 0 old_chain index
      in lru_evicted stats = 1 \<and> n = 1 \<and> new = length new_chain \<and> old = 0)"

definition matching_touches_an_entry_and_extends_its_life :: "(nat \<Rightarrow> instant) \<Rightarrow> bool" where
  "matching_touches_an_entry_and_extends_its_life clk \<longleftrightarrow>
     (let chain_a = test_chain ''aaaa''; chain_b = test_chain ''bbbb'';
          index = index_record (clk 0) 0 chain_a index_new;
          index = index_record (clk 1) 0 chain_b index;
          (touch, index) = longest_match (clk 2) 0 chain_a index;
          (stats, index) = evict (clk 3) (secs 300) 1 index;
          (a, index) = longest_match (clk 4) 0 chain_a index;
          (b, index) = longest_match (clk 5) 0 chain_b index
      in touch = length chain_a \<and> lru_evicted stats = 1 \<and> a = length chain_a \<and> b = 0)"

lemma one_block_chains:
  assumes "collision_free (test_inputs [''aaaa'', ''bbbb''])"
  obtains a b where "a \<noteq> b" and "test_chain ''aaaa'' = [a]" and "test_chain ''bbbb'' = [b]"
proof
  show "test_chain ''aaaa'' = [block_hash None (ascii ''aaaa'')]" and "test_chain ''bbbb'' = [block_hash None (ascii ''bbbb'')]"
    by (simp_all add: test_chain_def chain_hash_def blocks_of_def ascii_def Let_def)
  have "inj_on (\<lambda>(p, b). block_hash p b) {(None, ascii ''aaaa''), (None, ascii ''bbbb'')}"
    using assms unfolding collision_free_def
    by (rule inj_on_subset) (simp add: test_inputs_def blocks_of_def ascii_def Let_def)
  then show "block_hash None (ascii ''aaaa'') \<noteq> block_hash None (ascii ''bbbb'')"
    by (auto simp: inj_on_def ascii_def)
qed

text \<open>The index after both chains were recorded.\<close>

lemma two_recorded:
  fixes t t' :: instant
  assumes "a \<noteq> b"
  defines "idx \<equiv> index_record t' 0 [b] (index_record t 0 [a] index_new)"
  shows "index_inv idx"
    and "index_lookup idx = [a \<mapsto> \<lparr>entry_workers = [0], last_touched = t\<rparr>, b \<mapsto> \<lparr>entry_workers = [0], last_touched = t'\<rparr>]"
proof -
  have inv: "index_inv (index_record t 0 [a] index_new)" by (simp add: index_tests)
  show "index_lookup idx = [a \<mapsto> \<lparr>entry_workers = [0], last_touched = t\<rparr>, b \<mapsto> \<lparr>entry_workers = [0], last_touched = t'\<rparr>]"
    using index_record_fold [OF index_inv_new, of t 0 "[a]"] index_record_fold [OF inv, of t' 0 "[b]"] assms(1)
    by (simp add: idx_def lookup_new flat_record_block_def add_worker_def)
  show "index_inv idx" unfolding idx_def by (rule idx.inv_learn [OF inv])
qed

text \<open>Matching afterwards: only the surviving block matches.\<close>

lemma survivor_matches:
  assumes "index_inv idx" and "index_lookup idx = [b \<mapsto> e]" and "0 \<in> set (entry_workers e)" and "a \<noteq> b"
  shows "fst (longest_match t 0 [b] idx) = 1" and "fst (longest_match t 0 [a] idx) = 0"
    and "fst (longest_match t' 0 [a] (snd (longest_match t 0 [b] idx))) = 0"
  using assms by (simp_all add: idx.match_value idx.inv_match idx.believes_match holds_flat)

lemma lru_cap_evicts_oldest_entries_first_passes:
  assumes free: "collision_free (test_inputs [''aaaa'', ''bbbb''])"
    and slept: "nanos (clk 0) + 2 * 1000000 \<le> nanos (clk 1)"
    and quick: "nanos (clk 2) \<le> nanos (clk 0) + secs 300"
  shows "lru_cap_evicts_oldest_entries_first clk"
proof -
  obtain a b where ne: "a \<noteq> b" and a: "test_chain ''aaaa'' = [a]" and b: "test_chain ''bbbb'' = [b]"
    using one_block_chains [OF free] .
  let ?idx = "index_record (clk 1) 0 [b] (index_record (clk 0) 0 [a] index_new)"
  obtain stats idx' where sweep: "evict (clk 2) (secs 300) 1 ?idx = (stats, idx')" by fastforce
  have "index_inv idx' \<and> lru_evicted stats = 1 \<and> index_len idx' = 1
      \<and> index_lookup idx' = [b \<mapsto> \<lparr>entry_workers = [0], last_touched = clk 1\<rparr>]"
    by (rule cap_evicts_older [OF two_recorded(1) [OF ne] ne two_recorded(2) [OF ne] _ _ _ sweep])
      (use slept quick in \<open>simp_all add: duration_since_def less_instant_def\<close>)
  then show ?thesis
    unfolding lru_cap_evicts_oldest_entries_first_def Let_def a b sweep case_prod_conv case_prod_beta
    using survivor_matches(1,2) [of idx' b _ a "clk 3"] survivor_matches(3) [of idx' b _ a "clk 4" "clk 3"] ne by simp
qed

lemma matching_touches_an_entry_and_extends_its_life_passes:
  assumes free: "collision_free (test_inputs [''aaaa'', ''bbbb''])"
    and slept: "nanos (clk 0) + 2 * 1000000 \<le> nanos (clk 1)" and later: "nanos (clk 1) < nanos (clk 2)"
    and quick: "nanos (clk 3) \<le> nanos (clk 0) + secs 300"
  shows "matching_touches_an_entry_and_extends_its_life clk"
proof -
  obtain a b where ne: "a \<noteq> b" and a: "test_chain ''aaaa'' = [a]" and b: "test_chain ''bbbb'' = [b]"
    using one_block_chains [OF free] .
  define idx where "idx = index_record (clk 1) 0 [b] (index_record (clk 0) 0 [a] index_new)"
  note recorded = two_recorded [OF ne, of "clk 1" "clk 0", folded idx_def]
  let ?touched = "snd (longest_match (clk 2) 0 [a] idx)"
  have held: "holds idx 0 a" unfolding holds_flat recorded(2) using ne by simp
  have inv: "index_inv ?touched" by (rule idx.inv_match [OF recorded(1)])
  have look: "index_lookup ?touched
      = [b \<mapsto> \<lparr>entry_workers = [0], last_touched = clk 1\<rparr>, a \<mapsto> \<lparr>entry_workers = [0], last_touched = clk 2\<rparr>]"
    using ne held by (auto simp: fun_eq_iff lookup_longest_match [OF recorded(1)] recorded(2))
  obtain stats idx' where sweep: "evict (clk 3) (secs 300) 1 ?touched = (stats, idx')" by fastforce
  have "index_inv idx' \<and> lru_evicted stats = 1 \<and> index_len idx' = 1
      \<and> index_lookup idx' = [a \<mapsto> \<lparr>entry_workers = [0], last_touched = clk 2\<rparr>]"
    by (rule cap_evicts_older [OF inv ne [symmetric] look _ _ _ sweep])
      (use slept later quick in \<open>simp_all add: duration_since_def less_instant_def\<close>)
  moreover have "fst (longest_match (clk 2) 0 [a] idx) = 1"
    using held by (simp add: idx.match_value recorded(1))
  ultimately show ?thesis
    unfolding matching_touches_an_entry_and_extends_its_life_def Let_def a b idx_def [symmetric] case_prod_beta sweep
    using survivor_matches(1,2) [of idx' a _ b "clk 4"] survivor_matches(3) [of idx' a _ b "clk 5" "clk 4"] ne by (simp add: sweep)
qed

section \<open>Concurrent hammering\<close>

text \<open>
  \<open>concurrent_hammering_leaves_counts_at_zero\<close> for every schedule of its 64 tasks, not only those a
  run happens to see. Every prompt is one block, so an iteration has five atomic steps: the guard,
  the lock section of \<open>record\<close>, the read and the touch section of \<open>longest_match\<close>, and the drop.
  A task keeps the matched hashes between the last two sections.
\<close>

datatype hammer_action = TakeGuard | RecordBlock | ReadBlocks | TouchBlocks | DropGuard

record hammer_state =
  h_tracker :: inflight_tracker
  h_index :: prefix_index
  h_matched :: "nat \<Rightarrow> u64 list"

definition hammer_chain :: "nat \<Rightarrow> u64 list" where
  "hammer_chain task = chain_hash (ascii (''concurrent prompt number '' @ show_nat task)) 512"

type_synonym hammer_step = "instant \<times> nat \<times> hammer_action"

fun hammer :: "hammer_step \<Rightarrow> hammer_state \<Rightarrow> hammer_state" where
  "hammer (now, task, TakeGuard) s = s\<lparr>h_tracker := snd (guard_acquire (of_nat task) (h_tracker s))\<rparr>"
| "hammer (now, task, RecordBlock) s = s\<lparr>h_index := index_record now (of_nat task) (hammer_chain task) (h_index s)\<rparr>"
| "hammer (now, task, ReadBlocks) s =
     s\<lparr>h_matched := (h_matched s)(task := matched_hashes (of_nat task) (hammer_chain task) (h_index s))\<rparr>"
| "hammer (now, task, TouchBlocks) s = s\<lparr>h_index := fold (touch_block now) (h_matched s task) (h_index s)\<rparr>"
| "hammer (now, task, DropGuard) s = s\<lparr>h_tracker := guard_drop \<lparr>guard_worker = of_nat task\<rparr> (h_tracker s)\<rparr>"

definition hammer_iterations :: "hammer_action list" where
  "hammer_iterations = concat (replicate 50 [TakeGuard, RecordBlock, ReadBlocks, TouchBlocks, DropGuard])"

text \<open>A schedule interleaves the steps of the tasks, each in its own order.\<close>

definition hammer_schedule :: "hammer_step list \<Rightarrow> bool" where
  "hammer_schedule steps \<longleftrightarrow> (\<forall>(_, task, _) \<in> set steps. task < 64)
     \<and> (\<forall>task < 64. map (snd \<circ> snd) (filter (\<lambda>(_, k, _). k = task) steps) = hammer_iterations)"

definition concurrent_hammering_leaves_counts_at_zero :: "hammer_step list \<Rightarrow> bool" where
  "concurrent_hammering_leaves_counts_at_zero steps \<longleftrightarrow>
     (let s = fold hammer steps \<lparr>h_tracker = with_capacity 64, h_index = index_new, h_matched = (\<lambda>_. [])\<rparr>
      in inflight_total (h_tracker s) = 0 \<and> index_len (h_index s) = 64)"

text \<open>How often a task took an action.\<close>

definition times_taken :: "hammer_step list \<Rightarrow> nat \<Rightarrow> hammer_action \<Rightarrow> nat" where
  "times_taken steps task a = count_list (map (snd \<circ> snd) (filter (\<lambda>(_, k, _). k = task) steps)) a"

lemma times_taken_snoc [simp]:
  "times_taken [] task a = 0"
  "times_taken (steps @ [(now, k, b)]) task a = times_taken steps task a + (if k = task \<and> b = a then 1 else 0)"
  by (simp_all add: times_taken_def)

lemma hammered:
  fixes steps :: "hammer_step list"
  defines "s \<equiv> fold hammer steps \<lparr>h_tracker = with_capacity 64, h_index = index_new, h_matched = (\<lambda>_. [])\<rparr>"
  assumes "\<forall>(_, task, _) \<in> set steps. task < 64"
  shows "length (counts (h_tracker s)) = 64
    \<and> (\<forall>k < 64. counts (h_tracker s) ! k = of_nat (times_taken steps k TakeGuard) - of_nat (times_taken steps k DropGuard))
    \<and> index_inv (h_index s)
    \<and> (\<forall>v h. holds (h_index s) v h \<longleftrightarrow> (\<exists>k < 64. v = of_nat k \<and> 0 < times_taken steps k RecordBlock \<and> h \<in> set (hammer_chain k)))"
  using assms(2) unfolding s_def
proof (induction steps rule: rev_induct)
  case Nil
  then show ?case by (simp add: with_capacity_def index_inv_new holds_index_new)
next
  case (snoc step steps)
  obtain now task a where step: "step = (now, task, a)" by (cases step)
  then have small: "task < 64" using snoc.prems by simp
  have unat: "unat (of_nat task :: u64) = task" using small by (simp add: unat_of_nat take_bit_nat_eq_self)
  have IH: "\<forall>(_, task, _) \<in> set steps. task < 64" using snoc.prems by simp
  note IH = snoc.IH [OF IH]
  have touch: "index_inv (fold (touch_block now) hs idx) \<and> holds (fold (touch_block now) hs idx) = holds idx"
    if "index_inv idx" for hs idx
    using touch_fold [OF that] by (auto simp: fun_eq_iff holds_flat fold_flat_touch)
  show ?case
  proof (cases a)
    case TakeGuard
    then show ?thesis using IH unat small
      by (auto simp: step guard_acquire_def increment_def nth_list_update)
  next
    case DropGuard
    then show ?thesis using IH unat small
      by (auto simp: step guard_drop_def decrement_def nth_list_update)
  next
    case RecordBlock
    then show ?thesis using IH small
      by (auto simp: step idx.inv_learn idx.believes_learn split: if_splits)
  next
    case ReadBlocks
    then show ?thesis using IH by (simp add: step)
  next
    case TouchBlocks
    then show ?thesis using IH touch by (simp add: step)
  qed
qed

lemma one_block_chain: "p \<noteq> [] \<Longrightarrow> length p \<le> n \<Longrightarrow> chain_hash p n = [block_hash None p]"
  by (cases p; cases n) (simp_all add: chain_hash_def blocks_of_def Let_def)

definition hammer_prompt :: "nat \<Rightarrow> ustring" where
  "hammer_prompt task = ascii (''concurrent prompt number '' @ show_nat task)"

lemma hammer_prompt_inj: "hammer_prompt j = hammer_prompt k \<Longrightarrow> j = k"
proof -
  assume eq: "hammer_prompt j = hammer_prompt k"
  have "unat (of_char c :: uchar) = of_char c" for c
  proof -
    have "(of_char c :: nat) < 2 ^ 32" using nat_of_char_less_256 [of c] by (rule less_trans) simp
    then have "unat (of_nat (of_char c) :: uchar) = of_char c"
      by (simp only: unat_of_nat take_bit_nat_eq_self len_num1 len_bit0 mult_2 One_nat_def) simp
    then show ?thesis unfolding of_nat_of_char .
  qed
  then have "inj (of_char :: char \<Rightarrow> uchar)"
    by (metis injI of_char_eq_iff)
  then have "show_nat j = show_nat k"
    using eq by (simp add: hammer_prompt_def ascii_def inj_map_eq_map)
  then show "j = k" by (metis show_nat_digits)
qed

lemma hammer_chain_one: "k < 64 \<Longrightarrow> hammer_chain k = [block_hash None (hammer_prompt k)]"
proof -
  assume "k < 64"
  then have "length (show_nat k) \<le> 2" by (simp add: show_nat.simps [of k] show_nat.simps [of "k div 10"] less_mult_imp_div_less)
  then show ?thesis
    unfolding hammer_chain_def hammer_prompt_def by (intro one_block_chain) (simp_all add: ascii_def)
qed

lemma concurrent_hammering_leaves_counts_at_zero_passes:
  assumes "hammer_schedule steps" and "collision_free ((\<lambda>k. (None, hammer_prompt k)) ` {..<64})"
  shows "concurrent_hammering_leaves_counts_at_zero steps"
proof -
  define s where "s = fold hammer steps \<lparr>h_tracker = with_capacity 64, h_index = index_new, h_matched = (\<lambda>_. [])\<rparr>"
  have tasks: "\<forall>(_, task, _) \<in> set steps. task < 64"
    and iterations: "\<And>k. k < 64 \<Longrightarrow> map (snd \<circ> snd) (filter (\<lambda>(_, j, _). j = k) steps) = hammer_iterations"
    using assms(1) by (auto simp: hammer_schedule_def)
  have "count_list hammer_iterations a = 50" for a
    by (cases a) (simp_all add: hammer_iterations_def eval_nat_numeral)
  then have taken: "times_taken steps k a = 50" if "k < 64" for k a
    unfolding times_taken_def using iterations [OF that] by simp
  note end_state = hammered [OF tasks, folded s_def]
  have "counts (h_tracker s) = replicate 64 0"
    using end_state taken by (intro nth_equalityI) simp_all
  then have "inflight_total (h_tracker s) = 0"
    by (simp add: inflight_total_def sum_list_replicate)
  moreover have "{h. \<exists>w. holds (h_index s) w h} = (\<lambda>k. block_hash None (hammer_prompt k)) ` {..<64}"
    using end_state taken hammer_chain_one by auto
  moreover have "inj_on (\<lambda>k. block_hash None (hammer_prompt k)) {..<64}"
    using assms(2) hammer_prompt_inj by (auto simp: inj_on_def collision_free_def)
  ultimately show ?thesis
    using end_state by (simp add: concurrent_hammering_leaves_counts_at_zero_def s_def [symmetric] index_len_holds card_image)
qed

end
