(* ===== verification/Tests_Router.thy ===== *)
theory Tests_Router
  imports Tests_Core
begin

text \<open>
  The unit tests of \<open>router.rs\<close>, translated like those of \<open>Tests_Core\<close>. \<open>clk i j\<close> is the \<open>j\<close>-th
  clock reading of a test's \<open>i\<close>-th call; every test holds for all clocks and hash collisions. The
  guards a test holds are acquired and stay live up to its last assertion.
\<close>

section \<open>Fixtures\<close>

definition test_workers :: "pool \<times> pool \<Rightarrow> worker_config list" where
  "test_workers pools =
     [\<lparr>wc_url = ''http://a'', wc_pool = fst pools\<rparr>, \<lparr>wc_url = ''http://b'', wc_pool = snd pools\<rparr>]"

definition router_setup :: "routing_policy \<Rightarrow> pool \<times> pool \<Rightarrow> worker_id list \<Rightarrow> router \<times> worker_registry" where
  "router_setup policy pools healthy =
     (let config = \<lparr>cfg_workers = test_workers pools, cfg_policy = policy, health_check_interval_secs = 5,
            prompt_block_chars = 512, cfg_cache_weight = Fin 1, cfg_load_weight = Fin (1 / 2),
            prefix_index_ttl_secs = 300, prefix_index_max_entries = 100000, kv_transfer_cost_ms = 20,
            metrics_scrape = False, engine_metrics_interval_secs = 15,
            engine_cache_hit_metric = ''vllm:gpu_prefix_cache_hit_rate'', cfg_discovery = discovery_config_default\<rparr>;
          registry = from_config (cfg_workers config);
          registry = fold (\<lambda>i registry. snd (set_healthy i True registry)) healthy registry
      in (router_new config, registry))"

definition prompt_of :: "string \<Rightarrow> unit chat_request" where
  "prompt_of prompt = test_request [(''user'', prompt)]"

definition TWO_BLOCKS :: string where
  "TWO_BLOCKS = replicate 984 (CHR ''x'')"

text \<open>The router and the registry of \<open>setup\<close>, taken apart.\<close>

lemma setup_fields [simp]:
  "rt_policy (fst (router_setup p ps hs)) = p" "next_worker (fst (router_setup p ps hs)) = 0"
  "rt_index (fst (router_setup p ps hs)) = index_new" "rt_inflight (fst (router_setup p ps hs)) = with_capacity 2"
  "block_size (fst (router_setup p ps hs)) = 512"
  "cache_weight (fst (router_setup p ps hs)) = default_cache_weight" "load_weight (fst (router_setup p ps hs)) = default_load_weight"
  by (simp_all add: router_setup_def Let_def router_new_def test_workers_def default_cache_weight_def default_load_weight_def numeral_2_eq_2)

lemma setup_inv: "router_inv (fst (router_setup p ps hs))"
  by (simp add: router_inv_def index_inv_new)

definition worker_a :: "pool \<Rightarrow> worker" where
  "worker_a p = \<lparr>wid = 0, url = ''http://a'', wpool = p\<rparr>"

definition worker_b :: "pool \<Rightarrow> worker" where
  "worker_b p = \<lparr>wid = 1, url = ''http://b'', wpool = p\<rparr>"

lemma worker_ab [simp]: "wid (worker_a p) = 0" "wid (worker_b p) = 1" "wpool (worker_a p) = p" "wpool (worker_b p) = p"
  by (simp_all add: worker_a_def worker_b_def)

lemma setup_healthy:
  "healthy_workers (snd (router_setup p (p0, p1) [])) = []"
  "healthy_workers (snd (router_setup p (p0, p1) [0])) = [worker_a p0]"
  "healthy_workers (snd (router_setup p (p0, p1) [1])) = [worker_b p1]"
  "healthy_workers (snd (router_setup p (p0, p1) [0, 1])) = [worker_a p0, worker_b p1]"
  by (simp_all add: router_setup_def Let_def test_workers_def from_config_def enumerate_eq_zip hm_collect_def
      healthy_workers_def set_healthy_def hm_get_def hm_insert_def hm_modify_def worker_a_def worker_b_def)

lemma two_blocks: "length (chain_hash (canonical_prompt (prompt_of TWO_BLOCKS)) 512) = 2"
  by (simp add: chain_hash_length prompt_of_def request_tests TWO_BLOCKS_def)

section \<open>Candidates\<close>

definition candidate_ordering_prefers_score_then_load_then_id :: bool where
  "candidate_ordering_prefers_score_then_load_then_id \<longleftrightarrow>
     (let high_score = \<lparr>cand_score = Fin 2, cand_in_flight = 5, cand_id = 1\<rparr>;
          low_score = \<lparr>cand_score = Fin 1, cand_in_flight = 0, cand_id = 0\<rparr>;
          idle = \<lparr>cand_score = Fin 1, cand_in_flight = 0, cand_id = 1\<rparr>;
          busy = \<lparr>cand_score = Fin 1, cand_in_flight = 3, cand_id = 0\<rparr>;
          first = \<lparr>cand_score = Fin 1, cand_in_flight = 0, cand_id = 0\<rparr>;
          second = \<lparr>cand_score = Fin 1, cand_in_flight = 0, cand_id = 1\<rparr>
      in candidate_cmp high_score low_score = Greater \<and> candidate_cmp idle busy = Greater
         \<and> candidate_cmp first second = Greater)"

lemma candidate_ordering_prefers_score_then_load_then_id_passes: candidate_ordering_prefers_score_then_load_then_id
  by (simp add: candidate_ordering_prefers_score_then_load_then_id_def candidate_cmp_def partial_cmp_finite cmp_of_def)

section \<open>Round robin\<close>

text \<open>Round robin over the two workers, from any counter.\<close>

lemma rr_two:
  assumes "router_inv r" and "rt_policy r = RoundRobin" and "healthy_workers reg = [worker_a Both, worker_b Both]"
    and "next_worker r = n" and "w = (if even (unat n) then 0 else 1)"
  shows "\<exists>d r'. select_for_chat clk reg q r = (Inr d, r') \<and> wid (d_worker d) = w
    \<and> matched_prefix_len d = match_len r w (chain_of r q) \<and> decided w (chain_of r q) r r' \<and> next_worker r' = n + 1"
proof -
  have ne: "healthy_workers reg \<noteq> []" and ws: "chat_candidates (healthy_workers reg) = [worker_a Both, worker_b Both]"
    by (simp_all add: assms(3) chat_candidates_def)
  let ?v = "[worker_a Both, worker_b Both] ! (unat n mod length [worker_a Both, worker_b Both])"
  have w: "wid ?v = w"
    by (cases "even (unat n)") (simp_all add: assms(5) even_iff_mod_2_eq_zero odd_iff_mod_2_eq_one numeral_2_eq_2 [symmetric])
  from select_for_chat_round_robin [OF assms(1) ne assms(2), of clk q, unfolded ws assms(4) w]
  obtain r' where "select_for_chat clk reg q r = (Inr \<lparr>d_worker = ?v, matched_prefix_len = match_len r w (chain_of r q),
      prompt_blocks = length (chain_of r q), d_score = pos_zero\<rparr>, r')"
    and "decided w (chain_of r q) r r'" and "next_worker r' = n + 1" .
  then show ?thesis using w by auto
qed

definition round_robin_cycles_through_healthy_workers :: "(nat \<Rightarrow> nat \<Rightarrow> instant) \<Rightarrow> bool" where
  "round_robin_cycles_through_healthy_workers clk \<longleftrightarrow>
     (let (router, registry) = router_setup RoundRobin (Both, Both) [0, 1];
          (first, router) = select_for_chat (clk 0) registry (prompt_of ''hello'') router;
          (second, router) = select_for_chat (clk 1) registry (prompt_of ''hello'') router;
          (third, router) = select_for_chat (clk 2) registry (prompt_of ''hello'') router
      in (case (first, second, third) of
            (Inr first, Inr second, Inr third) \<Rightarrow>
              (wid (d_worker first), wid (d_worker second), wid (d_worker third)) = (0, 1, 0)
          | _ \<Rightarrow> False))"

text \<open>The three selections of a round-robin test: workers a, b, a, each learning the chain.\<close>

lemma rr_three:
  fixes ps hs and q :: "'json chat_request"
  defines "r \<equiv> fst (router_setup RoundRobin (Both, Both) [0, 1])"
    and "reg \<equiv> snd (router_setup RoundRobin (Both, Both) [0, 1])" and "c \<equiv> chain_hash (canonical_prompt q) 512"
  obtains d1 d2 d3 r1 r2 r3 where "select_for_chat (clk 0) reg q r = (Inr d1, r1)"
    and "select_for_chat (clk 1) reg q r1 = (Inr d2, r2)" and "select_for_chat (clk 2) reg q r2 = (Inr d3, r3)"
    and "wid (d_worker d1) = 0" and "wid (d_worker d2) = 1" and "wid (d_worker d3) = 0"
    and "matched_prefix_len d1 = 0" and "matched_prefix_len d2 = 0" and "matched_prefix_len d3 = length c"
proof -
  have healthy: "healthy_workers reg = [worker_a Both, worker_b Both]" by (simp add: reg_def setup_healthy)
  have none: "match_len r w d = 0" for w d
    by (simp add: match_len_def r_def holds_index_new takeWhile_eq_Nil_iff)
  have inv: "router_inv r" and pol: "rt_policy r = RoundRobin" by (simp_all add: r_def setup_inv)
  have even: "(0 :: worker_id) = (if even (unat (0 :: u64)) then 0 else 1)" "(1 :: worker_id) = (if even (unat (1 :: u64)) then 0 else 1)"
    "(0 :: worker_id) = (if even (unat (2 :: u64)) then 0 else 1)" by simp_all
  have n0: "next_worker r = 0" by (simp add: r_def)
  from rr_two [OF inv pol healthy n0 even(1), of "clk 0" q]
  obtain d1 r1 where 1: "select_for_chat (clk 0) reg q r = (Inr d1, r1)" "wid (d_worker d1) = 0"
    "matched_prefix_len d1 = match_len r 0 (chain_of r q)" "decided 0 (chain_of r q) r r1" "next_worker r1 = 1"
    by auto
  note f1 = decided_frame [OF 1(4)]
  from rr_two [OF f1(1) f1(2) [unfolded pol] healthy 1(5) even(2), of "clk 1" q]
  obtain d2 r2 where 2: "select_for_chat (clk 1) reg q r1 = (Inr d2, r2)" "wid (d_worker d2) = 1"
    "matched_prefix_len d2 = match_len r1 1 (chain_of r1 q)" "decided 1 (chain_of r1 q) r1 r2" "next_worker r2 = 2"
    by auto
  note f2 = decided_frame [OF 2(4)]
  from rr_two [OF f2(1) f2(2) [unfolded f1(2) pol] healthy 2(5) even(3), of "clk 2" q]
  obtain d3 r3 where 3: "select_for_chat (clk 2) reg q r2 = (Inr d3, r3)" "wid (d_worker d3) = 0"
    "matched_prefix_len d3 = match_len r2 0 (chain_of r2 q)"
    by auto
  have size: "block_size r = 512" by (simp add: r_def)
  have c: "chain_of r q = c" "chain_of r1 q = c" "chain_of r2 q = c"
    by (simp_all only: c_def f1(3) f2(3) size)
  have "match_len r1 1 c = 0"
    using 1(4) holds_index_new by (simp add: match_len_def decided_def takeWhile_eq_Nil_iff r_def)
  moreover have "match_len r2 0 c = length c"
    using 1(4) 2(4) by (simp add: match_len_full decided_def c)
  ultimately show thesis
    by (intro that [OF 1(1) 2(1) 3(1) 1(2) 2(2) 3(2)]) (simp_all add: 1(3) 2(3) 3(3) none c)
qed

lemma round_robin_cycles_through_healthy_workers_passes: "round_robin_cycles_through_healthy_workers clk"
  unfolding round_robin_cycles_through_healthy_workers_def Let_def case_prod_beta
  by (rule rr_three [of clk "prompt_of ''hello''"]) (simp only: fst_conv snd_conv sum.case prod.case simp_thms)

definition matched_prefix_length_is_tracked_per_worker :: "(nat \<Rightarrow> nat \<Rightarrow> instant) \<Rightarrow> bool" where
  "matched_prefix_length_is_tracked_per_worker clk \<longleftrightarrow>
     (let (router, registry) = router_setup RoundRobin (Both, Both) [0, 1];
          (first, router) = select_for_chat (clk 0) registry (prompt_of TWO_BLOCKS) router;
          (second, router) = select_for_chat (clk 1) registry (prompt_of TWO_BLOCKS) router;
          (third, router) = select_for_chat (clk 2) registry (prompt_of TWO_BLOCKS) router
      in (case (first, second, third) of
            (Inr first, Inr second, Inr third) \<Rightarrow>
              (wid (d_worker first), matched_prefix_len first) = (0, 0)
              \<and> (wid (d_worker second), matched_prefix_len second) = (1, 0)
              \<and> (wid (d_worker third), matched_prefix_len third) = (0, 2)
          | _ \<Rightarrow> False))"

lemma matched_prefix_length_is_tracked_per_worker_passes: "matched_prefix_length_is_tracked_per_worker clk"
  unfolding matched_prefix_length_is_tracked_per_worker_def Let_def case_prod_beta
  by (rule rr_three [of clk "prompt_of TWO_BLOCKS"])
    (simp only: fst_conv snd_conv sum.case prod.case two_blocks simp_thms)

text \<open>\<open>n\<close> selections in a row all go to worker 0.\<close>

fun all_routed_to_first :: "(nat \<Rightarrow> nat \<Rightarrow> instant) \<Rightarrow> nat \<Rightarrow> worker_registry \<Rightarrow> router \<Rightarrow> bool" where
  "all_routed_to_first clk 0 registry router \<longleftrightarrow> True"
| "all_routed_to_first clk (Suc n) registry router \<longleftrightarrow>
     (let (result, router) = select_for_chat (clk n) registry (prompt_of ''x'') router
      in (case result of Inl _ \<Rightarrow> False | Inr decision \<Rightarrow> wid (d_worker decision) = 0)
         \<and> all_routed_to_first clk n registry router)"

definition never_routes_to_a_down_worker :: "(nat \<Rightarrow> nat \<Rightarrow> instant) \<Rightarrow> bool" where
  "never_routes_to_a_down_worker clk \<longleftrightarrow>
     (let (router, registry) = router_setup RoundRobin (Both, Both) [0] in all_routed_to_first clk 16 registry router)"

lemma never_routes_to_a_down_worker_passes: "never_routes_to_a_down_worker clk"
proof -
  let ?reg = "snd (router_setup RoundRobin (Both, Both) [0])"
  have ne: "healthy_workers ?reg \<noteq> []" and only: "chat_candidates (healthy_workers ?reg) = [worker_a Both]"
    by (simp_all add: setup_healthy chat_candidates_def)
  have "all_routed_to_first clk n ?reg r" if "router_inv r" and "rt_policy r = RoundRobin" for n r
    using that
  proof (induction n arbitrary: r)
    case (Suc n)
    then obtain d r' where "select_for_chat (clk n) ?reg (prompt_of ''x'') r = (Inr d, r')"
      and "d_worker d \<in> set [worker_a Both]"
      and "decided (wid (d_worker d)) (chain_of r (prompt_of ''x'')) r r'"
      using select_for_chat_ok [OF Suc.prems(1) ne, of "clk n" "prompt_of ''x''", unfolded only]
      by (metis routing_policy.distinct(3))
    then show ?case
      using Suc.IH [of r'] decided_frame [of _ _ r r'] Suc.prems by simp
  qed simp
  then show ?thesis
    by (simp add: never_routes_to_a_down_worker_def case_prod_beta setup_inv)
qed

definition no_healthy_workers_is_an_error :: "(nat \<Rightarrow> instant) \<Rightarrow> bool" where
  "no_healthy_workers_is_an_error clk \<longleftrightarrow>
     (let (router, registry) = router_setup RoundRobin (Both, Both) []
      in case fst (select_for_chat clk registry (prompt_of ''x'') router) of
           Inl (NoHealthyWorkers _) \<Rightarrow> True | _ \<Rightarrow> False)"

lemma no_healthy_workers_is_an_error_passes: "no_healthy_workers_is_an_error clk"
  by (simp add: no_healthy_workers_is_an_error_def case_prod_beta select_for_chat_none setup_healthy)

definition falls_back_to_other_pools_when_no_both_workers_are_healthy :: "(nat \<Rightarrow> instant) \<Rightarrow> bool" where
  "falls_back_to_other_pools_when_no_both_workers_are_healthy clk \<longleftrightarrow>
     (let (router, registry) = router_setup RoundRobin (Both, Prefill) [1]
      in case fst (select_for_chat clk registry (prompt_of ''x'') router) of
           Inr decision \<Rightarrow> wpool (d_worker decision) = Prefill | Inl _ \<Rightarrow> False)"

lemma falls_back_to_other_pools_when_no_both_workers_are_healthy_passes:
  "falls_back_to_other_pools_when_no_both_workers_are_healthy clk"
proof -
  let ?reg = "snd (router_setup RoundRobin (Both, Prefill) [1])" and ?r = "fst (router_setup RoundRobin (Both, Prefill) [1])"
  have ne: "healthy_workers ?reg \<noteq> []" and only: "chat_candidates (healthy_workers ?reg) = [worker_b Prefill]"
    by (simp_all add: setup_healthy chat_candidates_def)
  obtain d r' where "select_for_chat clk ?reg (prompt_of ''x'') ?r = (Inr d, r')" and "d_worker d \<in> set [worker_b Prefill]"
    using select_for_chat_ok [OF setup_inv ne, of RoundRobin "(Both, Prefill)" "[1]" clk "prompt_of ''x''", unfolded only]
    by (metis routing_policy.distinct(3) setup_fields(1))
  then show ?thesis
    by (simp add: falls_back_to_other_pools_when_no_both_workers_are_healthy_def case_prod_beta)
qed

section \<open>Cache-aware selection\<close>

text \<open>A setup router whose index and in-flight counts a test has prepared.\<close>

lemma prepared_inv: "index_inv idx \<Longrightarrow> router_inv (fst (router_setup p ps hs)\<lparr>rt_index := idx, rt_inflight := t\<rparr>)"
  by (simp add: router_inv_def)

text \<open>
  Cache-aware selection between the two workers with the default weights: worker b wins exactly if
  its gain is higher, or equal with fewer requests in flight.
\<close>

lemma ca_two:
  assumes inv: "router_inv r" and pol: "rt_policy r = CacheAware"
    and weights: "cache_weight r = default_cache_weight" "load_weight r = default_load_weight"
    and healthy: "healthy_workers reg = [worker_a Both, worker_b Both]"
    and small: "length (chain_of r q) \<le> 2 ^ 52" "unat (inflight_count (rt_inflight r) 0) \<le> 2 ^ 52"
      "unat (inflight_count (rt_inflight r) 1) \<le> 2 ^ 52"
  defines "g \<equiv> \<lambda>w :: worker_id. 2 * int (match_len r w (chain_of r q)) - int (unat (inflight_count (rt_inflight r) w))"
  defines "w \<equiv> if g 0 < g 1 \<or> g 0 = g 1 \<and> inflight_count (rt_inflight r) 1 < inflight_count (rt_inflight r) 0
      then 1 else (0 :: worker_id)"
  shows "\<exists>d r'. select_for_chat clk reg q r = (Inr d, r') \<and> wid (d_worker d) = w
    \<and> matched_prefix_len d = match_len r w (chain_of r q) \<and> decided w (chain_of r q) r r'
    \<and> is_finite (d_score d) \<and> fval (d_score d) = of_int (g w) / 2"
proof -
  have ne: "healthy_workers reg \<noteq> []" and ws: "chat_candidates (healthy_workers reg) = [worker_a Both, worker_b Both]"
    by (simp_all add: healthy chat_candidates_def)
  from select_for_chat_cache_aware [OF inv ne pol, of clk q]
  obtain v r' where sel: "select_for_chat clk reg q r = (Inr \<lparr>d_worker = v,
      matched_prefix_len = match_len r (wid v) (chain_of r q), prompt_blocks = length (chain_of r q),
      d_score = score_worker r (wid v) (match_len r (wid v) (chain_of r q))\<rparr>, r')"
    and mem: "v \<in> set [worker_a Both, worker_b Both]" and dec: "decided (wid v) (chain_of r q) r r'"
    unfolding ws by blast
  have loads: "\<forall>x \<in> set (chat_candidates (healthy_workers reg)). unat (inflight_count (rt_inflight r) (wid x)) \<le> 2 ^ 52"
    using small by (simp add: ws)
  have gain_g: "gain r (chain_of r q) x = g (wid x)" for x by (simp add: gain_def g_def)
  have best: "g (wid x) < g (wid v) \<or> g (wid x) = g (wid v)
      \<and> (inflight_count (rt_inflight r) (wid v) < inflight_count (rt_inflight r) (wid x)
         \<or> inflight_count (rt_inflight r) (wid v) = inflight_count (rt_inflight r) (wid x) \<and> wid v \<le> wid x)"
    if "x \<in> {worker_a Both, worker_b Both}" for x
  proof -
    have "x \<in> set (chat_candidates (healthy_workers reg))" using that by (simp add: ws)
    from chosen_gain [OF inv pol weights small(1) loads sel this] show ?thesis
      by (simp only: route_decision.select_convs gain_g)
  qed
  have v: "wid v = w"
  proof (cases "v = worker_a Both")
    case True
    with best [of "worker_b Both"] show ?thesis unfolding w_def by (simp only: True worker_ab insert_iff simp_thms) fastforce
  next
    case False
    then have "v = worker_b Both" using mem by simp
    with best [of "worker_a Both"] show ?thesis unfolding w_def by (simp only: worker_ab insert_iff simp_thms) simp
  qed
  have "match_len r w (chain_of r q) \<le> 2 ^ 52" using match_len_le small(1) by (rule order_trans)
  moreover have "unat (inflight_count (rt_inflight r) w) \<le> 2 ^ 52" using small by (simp add: w_def)
  ultimately show ?thesis
    using sel dec default_score [OF weights, of "match_len r w (chain_of r q)" w] by (simp add: v g_def)
qed

text \<open>The chain of the requests and the guards of the tests.\<close>

definition cached_chain :: "u64 list" where
  "cached_chain = chain_hash (canonical_prompt (prompt_of TWO_BLOCKS)) 512"

definition acquire_guards :: "nat \<Rightarrow> worker_id \<Rightarrow> router \<Rightarrow> router" where
  "acquire_guards n worker router =
     router\<lparr>rt_inflight := ((\<lambda>t. snd (guard_acquire worker t)) ^^ n) (rt_inflight router)\<rparr>"

lemma guards_on_first: "((\<lambda>t. snd (guard_acquire 0 t)) ^^ n) (with_capacity 2) = \<lparr>counts = [of_nat n, 0]\<rparr>"
  by (induction n) (simp_all add: guard_acquire_def increment_def with_capacity_def numeral_2_eq_2 add.commute)

lemma acquired_fields:
  fixes n p ps hs idx
  defines "r' \<equiv> acquire_guards n 0 (fst (router_setup p ps hs)\<lparr>rt_index := idx\<rparr>)"
  shows "rt_policy r' = p" "rt_index r' = idx" "block_size r' = 512" "cache_weight r' = default_cache_weight"
    "load_weight r' = default_load_weight" "index_inv idx \<Longrightarrow> router_inv r'"
    "inflight_count (rt_inflight r') 0 = of_nat n" "inflight_count (rt_inflight r') 1 = 0"
  by (simp_all add: r'_def acquire_guards_def guards_on_first inflight_count_def router_inv_def)

text \<open>
  One cache-aware selection after a test recorded some chain for one worker and holds \<open>n\<close> guards of
  worker a: with \<open>m0\<close> and \<open>m1\<close> the blocks the two workers match, the chosen worker and its score.
\<close>

lemma ca_prepared:
  fixes q :: "'json chat_request" and n :: nat and b0 b1 :: bool
  defines "reg \<equiv> snd (router_setup CacheAware (Both, Both) [0, 1])" and "c \<equiv> chain_hash (canonical_prompt q) 512"
  assumes inv: "index_inv idx" and small: "length c \<le> 2" "n < 100"
    and held: "\<And>h. h \<in> set c \<Longrightarrow> holds idx 0 h \<longleftrightarrow> b0" "\<And>h. h \<in> set c \<Longrightarrow> holds idx 1 h \<longleftrightarrow> b1"
  defines "g0 \<equiv> 2 * int (if b0 then length c else 0) - int n" and "g1 \<equiv> 2 * int (if b1 then length c else 0)"
  defines "w \<equiv> if g0 < g1 \<or> g0 = g1 \<and> 0 < n then 1 else (0 :: worker_id)"
  shows "\<exists>d r'. select_for_chat clk reg q (acquire_guards n 0 (fst (router_setup CacheAware (Both, Both) [0, 1])\<lparr>rt_index := idx\<rparr>))
      = (Inr d, r') \<and> wid (d_worker d) = w \<and> matched_prefix_len d = (if w = 0 \<and> b0 \<or> w = 1 \<and> b1 then length c else 0)
    \<and> f64_eq (d_score d) (Fin (of_int (if w = 0 then g0 else g1) / 2))"
proof -
  define r where "r = acquire_guards n 0 (fst (router_setup CacheAware (Both, Both) [0, 1])\<lparr>rt_index := idx\<rparr>)"
  note f = acquired_fields [where n = n and p = CacheAware and ps = "(Both, Both)" and hs = "[0, 1]" and idx = idx, folded r_def]
  have healthy: "healthy_workers reg = [worker_a Both, worker_b Both]" by (simp add: reg_def setup_healthy)
  have c: "chain_of r q = c" by (simp add: f(3) c_def)
  have match: "match_len r 0 c = (if b0 then length c else 0)" "match_len r 1 c = (if b1 then length c else 0)"
    using held by (auto simp: match_len_full f(2)) (auto simp: match_len_def f(2) takeWhile_eq_Nil_iff)
  have n: "unat (of_nat n :: u64) = n" "(0 :: u64) < of_nat n \<longleftrightarrow> 0 < n"
    using small(2) by (simp_all add: unat_of_nat take_bit_nat_eq_self word_less_nat_alt)
  have n': "(unsigned (of_nat n :: u64) :: rat) = of_nat n"
    by (metis n(1) of_nat_unat)
  show ?thesis
    using ca_two [OF f(6) [OF inv] f(1,4,5) healthy, of q clk, unfolded c f(7,8) match n] small
    unfolding r_def [symmetric] by (auto simp: w_def g0_def g1_def f64_eq_Fin f(7,8) match n n')
qed

lemma prepared_simps:
  "acquire_guards 0 w r = r"
  "fst (router_setup p ps hs)\<lparr>rt_index := index_new\<rparr> = fst (router_setup p ps hs)"
proof -
  show "fst (router_setup p ps hs)\<lparr>rt_index := index_new\<rparr> = fst (router_setup p ps hs)"
    using setup_fields(3) [of p ps hs] by (metis router.surjective router.update_convs(3))
qed (simp add: acquire_guards_def)

definition cache_aware_prefers_the_worker_that_holds_the_chain :: "(nat \<Rightarrow> nat \<Rightarrow> instant) \<Rightarrow> bool" where
  "cache_aware_prefers_the_worker_that_holds_the_chain clk \<longleftrightarrow>
     (let (router, registry) = router_setup CacheAware (Both, Both) [0, 1];
          router = router\<lparr>rt_index := index_record (clk 0 0) 1 cached_chain (rt_index router)\<rparr>
      in case fst (select_for_chat (clk 1) registry (prompt_of TWO_BLOCKS) router) of
           Inl _ \<Rightarrow> False
         | Inr decision \<Rightarrow> wid (d_worker decision) = 1 \<and> matched_prefix_len decision = 2 \<and> f64_eq (d_score decision) (Fin 2))"

definition load_term_redirects_traffic_away_from_a_hot_replica :: "(nat \<Rightarrow> instant) \<Rightarrow> bool" where
  "load_term_redirects_traffic_away_from_a_hot_replica clk \<longleftrightarrow>
     (let (router, registry) = router_setup CacheAware (Both, Both) [0, 1];
          router = acquire_guards 10 0 router
      in case fst (select_for_chat clk registry (prompt_of ''fresh prompt'') router) of
           Inl _ \<Rightarrow> False
         | Inr decision \<Rightarrow> wid (d_worker decision) = 1 \<and> f64_eq (d_score decision) (Fin 0))"

definition cache_bonus_outweighs_a_small_queue :: "(nat \<Rightarrow> nat \<Rightarrow> instant) \<Rightarrow> bool" where
  "cache_bonus_outweighs_a_small_queue clk \<longleftrightarrow>
     (let (router, registry) = router_setup CacheAware (Both, Both) [0, 1];
          router = router\<lparr>rt_index := index_record (clk 0 0) 0 cached_chain (rt_index router)\<rparr>;
          router = acquire_guards 3 0 router
      in case fst (select_for_chat (clk 1) registry (prompt_of TWO_BLOCKS) router) of
           Inl _ \<Rightarrow> False
         | Inr decision \<Rightarrow> wid (d_worker decision) = 0 \<and> f64_eq (d_score decision) (Fin (1 / 2)))"

lemma held_by: "h \<in> set c \<Longrightarrow> holds (index_record t w c index_new) v h \<longleftrightarrow> v = w"
  by (simp add: idx.believes_learn index_inv_new holds_index_new)

lemma cached_chain_length: "length cached_chain = 2"
  unfolding cached_chain_def by (rule two_blocks)

lemma fresh_chain_length: "length (chain_hash (canonical_prompt (prompt_of ''fresh prompt'')) 512) \<le> 2"
  by (simp add: chain_hash_length prompt_of_def request_tests)

lemma cache_aware_prefers_the_worker_that_holds_the_chain_passes:
  "cache_aware_prefers_the_worker_that_holds_the_chain clk"
  using ca_prepared [OF idx.inv_learn [OF index_inv_new], of "prompt_of TWO_BLOCKS" 0 "clk 0 0" 1 cached_chain False True "clk 1",
      folded cached_chain_def]
  by (auto simp: cache_aware_prefers_the_worker_that_holds_the_chain_def case_prod_beta prepared_simps
      cached_chain_length held_by)

lemma load_term_redirects_traffic_away_from_a_hot_replica_passes:
  "load_term_redirects_traffic_away_from_a_hot_replica clk"
  using ca_prepared [OF index_inv_new fresh_chain_length, of 10 False False clk]
  by (auto simp: load_term_redirects_traffic_away_from_a_hot_replica_def case_prod_beta prepared_simps holds_index_new)

lemma cache_bonus_outweighs_a_small_queue_passes: "cache_bonus_outweighs_a_small_queue clk"
  using ca_prepared [OF idx.inv_learn [OF index_inv_new], of "prompt_of TWO_BLOCKS" 3 "clk 0 0" 0 cached_chain True False "clk 1",
      folded cached_chain_def]
  by (auto simp: cache_bonus_outweighs_a_small_queue_def case_prod_beta cached_chain_length held_by)

definition ties_break_on_fewest_in_flight :: "(nat \<Rightarrow> nat \<Rightarrow> instant) \<Rightarrow> bool" where
  "ties_break_on_fewest_in_flight clk \<longleftrightarrow>
     (let (router, registry) = router_setup CacheAware (Both, Both) [0, 1];
          (first, router) = select_for_chat (clk 0) registry (prompt_of ''brand new prompt'') router;
          router = acquire_guards 1 0 router;
          (second, router) = select_for_chat (clk 1) registry (prompt_of ''another new prompt'') router
      in (case (first, second) of
            (Inr first, Inr second) \<Rightarrow> wid (d_worker first) = 0 \<and> wid (d_worker second) = 1
          | _ \<Rightarrow> False))"

text \<open>If the two prompts' hashes collided, worker a would match and win despite its request.\<close>

lemma ties_break_on_fewest_in_flight_passes:
  assumes "block_hash None (ascii ''user: brand new prompt'') \<noteq> block_hash None (ascii ''user: another new prompt'')"
  shows "ties_break_on_fewest_in_flight clk"
proof -
  let ?reg = "snd (router_setup CacheAware (Both, Both) [0, 1])"
  define r where "r = fst (router_setup CacheAware (Both, Both) [0, 1])"
  have healthy: "healthy_workers ?reg = [worker_a Both, worker_b Both]" by (simp add: setup_healthy)
  have chains: "chain_hash (canonical_prompt (prompt_of ''brand new prompt'')) 512 = [block_hash None (ascii ''user: brand new prompt'')]"
      "chain_hash (canonical_prompt (prompt_of ''another new prompt'')) 512 = [block_hash None (ascii ''user: another new prompt'')]"
    by (simp_all add: chain_hash_def blocks_of_def prompt_of_def request_tests)
  have inv: "router_inv r" and fields: "rt_policy r = CacheAware" "cache_weight r = default_cache_weight"
      "load_weight r = default_load_weight" "block_size r = 512" "rt_inflight r = with_capacity 2" "rt_index r = index_new"
    by (simp_all add: r_def setup_inv)
  have none: "match_len r v c = 0" for v c by (simp add: match_len_def fields(6) holds_index_new takeWhile_eq_Nil_iff)
  have idle: "inflight_count (with_capacity 2) 0 = 0" "inflight_count (with_capacity 2) 1 = 0"
    by (simp_all add: with_capacity_def inflight_count_def)
  obtain d r1 where first: "select_for_chat (clk 0) ?reg (prompt_of ''brand new prompt'') r = (Inr d, r1)" "wid (d_worker d) = 0"
    and dec: "decided 0 [block_hash None (ascii ''user: brand new prompt'')] r r1"
    using ca_two [OF inv fields(1,2,3) healthy, of "prompt_of ''brand new prompt''" "clk 0"]
    by (auto simp: fields chains none idle)
  note f = decided_frame [OF dec]
  define r2 where "r2 = acquire_guards 1 0 r1"
  have fields2: "rt_policy r2 = CacheAware" "cache_weight r2 = default_cache_weight" "load_weight r2 = default_load_weight"
      "block_size r2 = 512" "rt_index r2 = rt_index r1" "inflight_count (rt_inflight r2) 0 = 1" "inflight_count (rt_inflight r2) 1 = 0"
    using guards_on_first [of 1] by (simp_all add: r2_def acquire_guards_def f fields inflight_count_def)
  have inv2: "router_inv r2" using f(1) by (simp add: r2_def acquire_guards_def router_inv_def)
  have none2: "match_len r2 v [block_hash None (ascii ''user: another new prompt'')] = 0" for v
    using dec assms by (simp add: match_len_def fields2 fields decided_def holds_index_new)
  obtain d' r3 where "select_for_chat (clk 1) ?reg (prompt_of ''another new prompt'') r2 = (Inr d', r3)" "wid (d_worker d') = 1"
    using ca_two [OF inv2 fields2(1,2,3) healthy, of "prompt_of ''another new prompt''" "clk 1"]
    by (auto simp: fields2 chains none2)
  then show ?thesis
    using first by (simp add: ties_break_on_fewest_in_flight_def case_prod_beta r_def r2_def)
qed

section \<open>Disaggregation\<close>

definition hello_chain :: "u64 list" where
  "hello_chain = chain_hash (ascii ''hello'') 512"

definition disaggregated_selects_per_pool :: "(nat \<Rightarrow> nat \<Rightarrow> instant) \<Rightarrow> bool" where
  "disaggregated_selects_per_pool clk \<longleftrightarrow>
     (let (router, registry) = router_setup Disaggregated (Prefill, Decode) [0, 1];
          (prefill, router) = select_in_pool (clk 0) registry Prefill hello_chain router;
          (decode, router) = select_in_pool (clk 1) registry Decode hello_chain router
      in (case (prefill, decode) of
            (Inr prefill, Inr decode) \<Rightarrow> wid (d_worker prefill) = 0 \<and> wpool (d_worker prefill) = Prefill
              \<and> wid (d_worker decode) = 1 \<and> wpool (d_worker decode) = Decode
          | _ \<Rightarrow> False))"

text \<open>A pool with a single healthy worker selects it.\<close>

lemma single_in_pool:
  assumes "router_inv r" and only: "filter (\<lambda>w. wpool w = p) (healthy_workers reg) = [w]"
  shows "\<exists>d r'. select_in_pool clk reg p chain r = (Inr d, r') \<and> d_worker d = w \<and> router_inv r'"
proof -
  have "filter (\<lambda>w. wpool w = p) (healthy_workers reg) \<noteq> []" using only by simp
  from select_in_pool_ok [OF assms(1) this, of clk chain]
  obtain v r' where "select_in_pool clk reg p chain r = (Inr \<lparr>d_worker = v, matched_prefix_len = match_len r (wid v) chain,
      prompt_blocks = length chain, d_score = score_worker r (wid v) (match_len r (wid v) chain)\<rparr>, r')"
    and "v \<in> set [w]" and "decided (wid v) chain r r'"
    unfolding only by blast
  then show ?thesis using decided_frame(1) by auto
qed

lemma disaggregated_selects_per_pool_passes: "disaggregated_selects_per_pool clk"
proof -
  let ?reg = "snd (router_setup Disaggregated (Prefill, Decode) [0, 1])" and ?r = "fst (router_setup Disaggregated (Prefill, Decode) [0, 1])"
  have pools: "filter (\<lambda>w. wpool w = Prefill) (healthy_workers ?reg) = [worker_a Prefill]"
      "filter (\<lambda>w. wpool w = Decode) (healthy_workers ?reg) = [worker_b Decode]"
    by (simp_all add: setup_healthy)
  obtain d r1 where 1: "select_in_pool (clk 0) ?reg Prefill hello_chain ?r = (Inr d, r1)" "d_worker d = worker_a Prefill" "router_inv r1"
    using single_in_pool [OF setup_inv pools(1)] by blast
  obtain d' r2 where "select_in_pool (clk 1) ?reg Decode hello_chain r1 = (Inr d', r2)" "d_worker d' = worker_b Decode"
    using single_in_pool [OF 1(3) pools(2)] by blast
  then show ?thesis
    using 1 by (simp add: disaggregated_selects_per_pool_def case_prod_beta)
qed

definition disaggregated_missing_pool_is_an_error :: "(nat \<Rightarrow> instant) \<Rightarrow> bool" where
  "disaggregated_missing_pool_is_an_error clk \<longleftrightarrow>
     (let (router, registry) = router_setup Disaggregated (Prefill, Prefill) [0, 1]
      in case fst (select_in_pool clk registry Decode hello_chain router) of
           Inl (NoHealthyWorkersInPool _ _) \<Rightarrow> True | _ \<Rightarrow> False)"

lemma disaggregated_missing_pool_is_an_error_passes: "disaggregated_missing_pool_is_an_error clk"
  by (simp add: disaggregated_missing_pool_is_an_error_def case_prod_beta select_in_pool_none setup_healthy)

definition disaggregated_rejects_single_phase_routing :: "(nat \<Rightarrow> instant) \<Rightarrow> bool" where
  "disaggregated_rejects_single_phase_routing clk \<longleftrightarrow>
     (let (router, registry) = router_setup Disaggregated (Both, Both) [0, 1]
      in case fst (select_for_chat clk registry (prompt_of ''x'') router) of
           Inl DisaggregatedRequiresTwoPhase \<Rightarrow> True | _ \<Rightarrow> False)"

lemma disaggregated_rejects_single_phase_routing_passes: "disaggregated_rejects_single_phase_routing clk"
  by (simp add: disaggregated_rejects_single_phase_routing_def case_prod_beta select_for_chat_disaggregated setup_healthy)

end
