(* ===== verification/Tests_Server.thy ===== *)
theory Tests_Server
  imports Tests_Core Discovery Prometheus_Text
begin

text \<open>
  The unit tests of \<open>prometheus_text.rs\<close> and \<open>discovery.rs\<close>, translated like those of \<open>Tests_Core\<close>.
  A set passed to \<open>reconcile\<close> is iterated in an arbitrary order, so the discovery test takes the
  orders as arguments. The end-to-end test of \<open>tests/vllm_e2e.rs\<close> needs a live engine and is not
  translated.
\<close>

section \<open>Prometheus text\<close>

definition SAMPLE :: ustring where
  "SAMPLE = ascii (text_lines [
     ''# HELP vllm:gpu_prefix_cache_hit_rate GPU prefix cache hit rate.'',
     ''# TYPE vllm:gpu_prefix_cache_hit_rate gauge'',
     ''vllm:gpu_prefix_cache_hit_rate{model_name='' @ [CHR 0x22] @ ''Qwen/Qwen2.5-0.5B-Instruct'' @ [CHR 0x22] @ ''} 0.625'',
     ''# TYPE vllm:num_requests_running gauge'',
     ''vllm:num_requests_running 2''])"

definition finds_labeled_metric :: bool where
  "finds_labeled_metric \<longleftrightarrow> find_metric SAMPLE (ascii ''vllm:gpu_prefix_cache_hit_rate'') = Some (Fin (625 / 1000))"

text \<open>Rounding a fraction below two, by its binary exponent.\<close>

lemma exponent_eqI:
  assumes "2 powi e \<le> x" and "x < 2 powi (e + 1)"
  shows "exponent x = e"
proof -
  have "0 < x" using assms(1) by (rule less_le_trans [rotated]) simp
  then show ?thesis
    using exponent_le_iff [OF _ assms(2)] powi2_less_imp_le [of e "exponent x"] exponent_bounds(2) [of x] assms(1) by fastforce
qed

lemma f64_round_value:
  assumes "2 powi e \<le> x" and "x < 2 powi (e + 1)" and "- 1022 \<le> e" and "x \<le> 2 ^ 1023"
  shows "f64_round neg x = Fin (of_int (round_half_even (x / 2 powi (e - 52))) * 2 powi (e - 52))"
proof -
  have pos: "0 < x" using assms(1) by (rule less_le_trans [rotated]) simp
  have "rnd x = of_int (round_half_even (x / 2 powi (e - 52))) * 2 powi (e - 52)"
    using pos assms(3) by (simp add: rnd_def round_mag_def ulp_exp_def exponent_eqI [OF assms(1,2)])
  moreover have "rnd (2 powi e) \<le> rnd x" by (rule rnd_mono [OF assms(1)])
  then have "0 < rnd x" using rnd_exact [of 1 e] assms(3) by (simp add: less_le_trans [of _ "2 powi e"])
  moreover have "\<bar>rnd x\<bar> \<le> 2 ^ 1023" using pos assms(4) by (intro rnd_abs_le) simp
  then have "rnd x < 2 ^ 1024" by (rule le_less_trans [OF order_trans [OF abs_ge_self]]) simp
  ultimately show ?thesis by (auto simp: f64_round_def Let_def not_le)
qed

lemma f64_round_fraction:
  assumes "1 \<le> x * 2 ^ k" and "x * 2 ^ k < 2" and "k \<le> 1022"
  shows "f64_round neg x = Fin (of_int (round_half_even (x * 2 ^ (52 + k))) / 2 ^ (52 + k))"
proof -
  have powi: "(2::rat) powi (- int n) = 1 / 2 ^ n" for n by (simp add: power_int_minus inverse_eq_divide)
  have "2 powi (- int k) \<le> x" using assms(1) by (simp add: powi field_simps)
  moreover have "x < 2 powi (- int k + 1)" using assms(2) by (simp add: power_int_diff field_simps)
  moreover have "0 < x" using calculation(1) by (rule less_le_trans [rotated]) simp
  then have "x * 1 \<le> x * 2 ^ k" by (intro mult_left_mono) simp_all
  then have "x < 2" using assms(2) by simp
  then have "x \<le> 2 ^ 1023" by (rule order_trans [OF less_imp_le]) simp
  ultimately have "f64_round neg x = Fin (of_int (round_half_even (x / 2 powi (- int k - 52))) * 2 powi (- int k - 52))"
    using assms(3) by (intro f64_round_value) simp_all
  moreover have "- int k - 52 = - int (52 + k)" by simp
  ultimately show ?thesis by (simp only: powi) simp
qed

lemma floor_fraction: "\<lfloor>numeral m / numeral n :: rat\<rfloor> = numeral m div numeral n"
  using floor_divide_of_int_eq [of "numeral m" "numeral n", where ?'a = rat] by simp

lemmas rounding = round_half_even_def Let_def floor_fraction

lemmas parsing = find_metric_def lines_def metric_line_def parse_f64_def parse_sign_def parse_exp_def ascii_def
  is_digit_def to_lower_def digits_val_def trim_def is_whitespace_def is_sep_def strip_cr_def text_lines_def

lemma parse_fractions:
  "parse_f64 (ascii ''0.625'') = Some (Fin (5 / 8))"
  "parse_f64 (ascii ''0.2'') = Some (Fin (7205759403792794 / 36028797018963968))"
  "parse_f64 (ascii ''0.4'') = Some (Fin (7205759403792794 / 18014398509481984))"
proof -
  have "f64_round False (5 / 8) = Fin (5 / 8)"
    by (subst f64_round_fraction [of _ 1]) (simp_all add: rounding)
  then show "parse_f64 (ascii ''0.625'') = Some (Fin (5 / 8))"
    by (simp add: parsing Let_def power_int_def power_divide)
  have "f64_round False (1 / 5) = Fin (7205759403792794 / 36028797018963968)"
    by (subst f64_round_fraction [of _ 3]) (simp_all add: rounding)
  then show "parse_f64 (ascii ''0.2'') = Some (Fin (7205759403792794 / 36028797018963968))"
    by (simp add: parsing Let_def power_int_def)
  have "f64_round False (2 / 5) = Fin (7205759403792794 / 18014398509481984)"
    by (subst f64_round_fraction [of _ 2]) (simp_all add: rounding)
  then show "parse_f64 (ascii ''0.4'') = Some (Fin (7205759403792794 / 18014398509481984))"
    by (simp add: parsing Let_def power_int_def)
qed

lemma finds_labeled_metric_passes: finds_labeled_metric
proof -
  have "metric_values (ascii ''vllm:gpu_prefix_cache_hit_rate'') (lines SAMPLE) [] = Some [Fin (5 / 8)]"
    using parse_fractions(1) by (simp add: SAMPLE_def lines_def strip_cr_def text_lines_def metric_line_def
        trim_def is_whitespace_def is_sep_def ascii_def)
  moreover have "f64_div (f64_sum [Fin (5 / 8)]) (f64_of_nat 1) = Fin (5 / 8)"
    by (simp add: f64_sum_def f64_add_def f64_div_def f64_of_nat_exact f64_round_fraction [of _ 1] rounding)
  ultimately show ?thesis by (simp add: finds_labeled_metric_def find_metric_def)
qed

fun f64_abs :: "f64 \<Rightarrow> f64" where
  "f64_abs x = (if sign_bit x then f64_neg x else x)"

definition averages_multiple_series :: bool where
  "averages_multiple_series \<longleftrightarrow>
     (case find_metric (ascii (text_lines [''m{a='' @ [CHR 0x22] @ ''1'' @ [CHR 0x22] @ ''} 0.2'',
          ''m{a='' @ [CHR 0x22] @ ''2'' @ [CHR 0x22] @ ''} 0.4''])) (ascii ''m'') of
        None \<Rightarrow> False
      | Some v \<Rightarrow> partial_cmp (f64_abs (f64_sub v (f64_round False (3 / 10)))) (Fin (2 powi - 52)) = Some Less)"

lemma averages_multiple_series_passes: averages_multiple_series
proof -
  let ?a = "Fin (7205759403792794 / 36028797018963968)" and ?b = "Fin (7205759403792794 / 18014398509481984)"
  have "metric_values (ascii ''m'') (lines (ascii (text_lines [''m{a='' @ [CHR 0x22] @ ''1'' @ [CHR 0x22] @ ''} 0.2'',
      ''m{a='' @ [CHR 0x22] @ ''2'' @ [CHR 0x22] @ ''} 0.4'']))) [] = Some [?a, ?b]"
    using parse_fractions(2,3) by (simp add: lines_def strip_cr_def text_lines_def metric_line_def
        trim_def is_whitespace_def is_sep_def ascii_def)
  moreover have "f64_add NZero ?a = ?a"
    by (simp add: f64_add_def f64_round_fraction [of _ 3] rounding)
  moreover have "f64_add ?a ?b = Fin (5404319552844596 / 9007199254740992)"
    by (simp add: f64_add_def f64_round_fraction [of _ 1] rounding)
  moreover have "f64_div (Fin (5404319552844596 / 9007199254740992)) (Fin 2) = Fin (5404319552844596 / 18014398509481984)"
    by (simp add: f64_div_def f64_round_fraction [of _ 2] rounding)
  moreover have "f64_of_nat 2 = Fin 2" by (simp add: f64_of_nat_exact)
  moreover have "f64_round False (3 / 10) = Fin (5404319552844595 / 18014398509481984)"
    by (simp add: f64_round_fraction [of _ 2] rounding)
  moreover have "f64_sub (Fin (5404319552844596 / 18014398509481984)) (Fin (5404319552844595 / 18014398509481984))
      = Fin (1 / 18014398509481984)"
    by (simp add: f64_sub_def f64_add_def f64_round_fraction [of _ 54] rounding)
  ultimately show ?thesis
    by (simp add: averages_multiple_series_def find_metric_def f64_sum_def cmp_of_def power_int_def power_divide
        numeral_2_eq_2 [symmetric])
qed

definition returns_none_for_absent_metric :: bool where
  "returns_none_for_absent_metric \<longleftrightarrow> find_metric SAMPLE (ascii ''nope'') = None"

lemma returns_none_for_absent_metric_passes: returns_none_for_absent_metric
  by code_simp

definition skips_comments_and_blank_lines :: bool where
  "skips_comments_and_blank_lines \<longleftrightarrow> find_metric (ascii (text_lines [''# m 1'', []])) (ascii ''m'') = None"

lemma skips_comments_and_blank_lines_passes: skips_comments_and_blank_lines
  by code_simp

section \<open>Discovery\<close>

definition test_url :: "string \<Rightarrow> string" where
  "test_url ip = ''http://'' @ ip @ '':8001''"

definition endpoint_urls_skips_unready_and_uses_first_port :: bool where
  "endpoint_urls_skips_unready_and_uses_first_port \<longleftrightarrow>
     (let slice = \<lparr>slice_name = ''workers-1'', slice_ports = Some [Some 8001],
            endpoints = [\<lparr>addresses = [''10.0.0.1''], conditions = Some (Some True)\<rparr>,
              \<lparr>addresses = [''10.0.0.2''], conditions = Some (Some False)\<rparr>,
              \<lparr>addresses = [''10.0.0.3''], conditions = None\<rparr>]\<rparr>;
          urls = endpoint_urls slice
      in test_url ''10.0.0.1'' \<in> set urls \<and> test_url ''10.0.0.2'' \<notin> set urls \<and> test_url ''10.0.0.3'' \<in> set urls)"

lemma endpoint_urls_skips_unready_and_uses_first_port_passes: endpoint_urls_skips_unready_and_uses_first_port
proof -
  have "show_nat 8001 = ''8001''"
    by (simp add: show_nat.simps [of 8001] show_nat.simps [of 800] show_nat.simps [of 80] show_nat.simps [of 8] digit_simps)
  then have "endpoint_urls \<lparr>slice_name = ''workers-1'', slice_ports = Some [Some 8001],
      endpoints = [\<lparr>addresses = [''10.0.0.1''], conditions = Some (Some True)\<rparr>,
        \<lparr>addresses = [''10.0.0.2''], conditions = Some (Some False)\<rparr>,
        \<lparr>addresses = [''10.0.0.3''], conditions = None\<rparr>]\<rparr> = [''http://10.0.0.1:8001'', ''http://10.0.0.3:8001'']"
    by (simp add: endpoint_urls_def endpoint_is_ready_def slice_port_def show_int_def)
  then show ?thesis
    by (simp add: endpoint_urls_skips_unready_and_uses_first_port_def test_url_def)
qed

definition static_workers_still_parse_for_fallback :: "(string \<Rightarrow> string + raw_config) \<Rightarrow> bool" where
  "static_workers_still_parse_for_fallback yaml \<longleftrightarrow>
     (case from_yaml yaml (text_lines [''routing_policy: round_robin'', ''workers:'', ''  - url: http://x:8001'', ''    pool: both'']) of
        Inl _ \<Rightarrow> False
      | Inr config \<Rightarrow> length (cfg_workers config) = 1 \<and> \<not> disc_enabled (cfg_discovery config))"

lemma static_workers_still_parse_for_fallback_passes:
  "yaml (text_lines [''routing_policy: round_robin'', ''workers:'', ''  - url: http://x:8001'', ''    pool: both''])
       = Inr (document [\<lparr>wc_url = ''http://x:8001'', wc_pool = Both\<rparr>] RoundRobin)
     \<Longrightarrow> static_workers_still_parse_for_fallback yaml"
  by (simp add: static_workers_still_parse_for_fallback_def config_tests)

text \<open>\<open>first\<close> and \<open>third\<close> are the orders in which the sets of the first and third round iterate.\<close>

definition reconcile_adds_and_removes_workers ::
  "(nat \<Rightarrow> instant) \<Rightarrow> string list \<Rightarrow> string list \<Rightarrow> bool" where
  "reconcile_adds_and_removes_workers clk first third \<longleftrightarrow>
     (let cluster = \<lparr>cl_registry = from_config [], cl_index = index_new, cl_discovered = \<lparr>by_url = []\<rparr>\<rparr>;
          (counts, cluster) = reconcile first cluster
      in counts = (0, 2) \<and> length (all_workers (cl_registry cluster)) = 2
         \<and> (let chain = chain_hash (ascii ''shared prompt'') 512;
                survivor = the (hm_get (by_url (cl_discovered cluster)) (test_url ''10.0.0.2''));
                dead = the (hm_get (by_url (cl_discovered cluster)) (test_url ''10.0.0.1''));
                index = index_record (clk 1) survivor chain (index_record (clk 0) dead chain (cl_index cluster));
                (matched, index) = longest_match (clk 2) dead chain index
            in matched = length chain
               \<and> (let (counts, cluster) = reconcile [test_url ''10.0.0.2''] (cluster\<lparr>cl_index := index\<rparr>);
                      (kept, index) = longest_match (clk 3) survivor chain (cl_index cluster)
                  in counts = (1, 0) \<and> length (all_workers (cl_registry cluster)) = 1
                     \<and> get_worker (cl_registry cluster) dead = None \<and> kept = length chain
                     \<and> (let ((_, added), cluster) = reconcile third (cluster\<lparr>cl_index := index\<rparr>);
                            replacement = the (hm_get (by_url (cl_discovered cluster)) (test_url ''10.0.0.3''))
                        in added = 1 \<and> fst (longest_match (clk 4) replacement chain (cl_index cluster)) = 0))))"

lemmas reconciling = reconcile_def drop_url_def add_url_def register_worker_def remove_worker_def from_config_def
  all_workers_def get_worker_def hm_collect_def hm_get_def hm_insert_def hm_remove_def test_url_def

text \<open>The cluster in which discovery has found the workers \<open>us\<close>, with \<open>n\<close> the next identifier.\<close>

definition found_cluster :: "(string \<times> worker_id) list \<Rightarrow> u64 \<Rightarrow> prefix_index \<Rightarrow> cluster" where
  "found_cluster us n idx = \<lparr>cl_registry = \<lparr>reg_workers = map (\<lambda>(u, i). (i, \<lparr>ws_worker = \<lparr>wid = i, url = u, wpool = Both\<rparr>,
      ws_healthy = False\<rparr>)) us, next_id = n\<rparr>, cl_index = idx, cl_discovered = \<lparr>by_url = us\<rparr>\<rparr>"

lemma found_fields [simp]:
  "cl_index (found_cluster us n idx) = idx" "by_url (cl_discovered (found_cluster us n idx)) = us"
  "found_cluster us n idx\<lparr>cl_index := idx'\<rparr> = found_cluster us n idx'"
  "length (all_workers (cl_registry (found_cluster us n idx))) = length us"
  "get_worker (cl_registry (found_cluster [(u, i)] n idx)) j = (if j = i then Some \<lparr>wid = i, url = u, wpool = Both\<rparr> else None)"
  by (simp_all add: found_cluster_def all_workers_def get_worker_def hm_get_def)

lemma first_round:
  "u \<noteq> v \<Longrightarrow> reconcile [u, v] \<lparr>cl_registry = from_config [], cl_index = idx, cl_discovered = \<lparr>by_url = []\<rparr>\<rparr>
     = ((0, 2), found_cluster [(u, 0), (v, 1)] 2 idx)"
  by (simp add: reconciling found_cluster_def numeral_2_eq_2)

lemma second_round:
  "u \<noteq> v \<Longrightarrow> reconcile [v] (found_cluster [(u, 0), (v, 1)] 2 idx) = ((1, 0), found_cluster [(v, 1)] 2 (index_remove_worker 0 idx))"
  "u \<noteq> v \<Longrightarrow> reconcile [u] (found_cluster [(u, 0), (v, 1)] 2 idx) = ((1, 0), found_cluster [(u, 0)] 2 (index_remove_worker 1 idx))"
  by (simp_all add: reconciling found_cluster_def)

lemma third_round:
  "u \<noteq> v \<Longrightarrow> i \<noteq> 2 \<Longrightarrow> reconcile [u, v] (found_cluster [(u, i)] 2 idx) = ((0, 1), found_cluster [(u, i), (v, 2)] 3 idx)"
  "u \<noteq> v \<Longrightarrow> i \<noteq> 2 \<Longrightarrow> reconcile [v, u] (found_cluster [(u, i)] 2 idx) = ((0, 1), found_cluster [(u, i), (v, 2)] 3 idx)"
  by (simp_all add: reconciling found_cluster_def)

text \<open>What the index says along the way, for the survivor \<open>s\<close> and the dead worker \<open>d\<close>.\<close>

lemma affinity_along:
  fixes t0 t1 t2 :: instant
  assumes "s \<noteq> d" and "s \<noteq> 2" and "d \<noteq> 2" and "c \<noteq> []"
  defines "idx \<equiv> snd (longest_match t2 d c (index_record t1 s c (index_record t0 d c index_new)))"
  shows "fst (longest_match t2 d c (index_record t1 s c (index_record t0 d c index_new))) = length c"
    and "fst (longest_match t3 s c (index_remove_worker d idx)) = length c"
    and "fst (longest_match t4 2 c (snd (longest_match t3 s c (index_remove_worker d idx)))) = 0"
proof -
  have inv: "index_inv (index_record t1 s c (index_record t0 d c index_new))"
    by (simp add: idx.inv_learn index_inv_new)
  have held: "holds (index_record t1 s c (index_record t0 d c index_new)) v h \<longleftrightarrow> (v = s \<or> v = d) \<and> h \<in> set c" for v h
    by (auto simp: idx.believes_learn idx.inv_learn index_inv_new holds_index_new)
  show "fst (longest_match t2 d c (index_record t1 s c (index_record t0 d c index_new))) = length c"
    by (simp add: idx.match_value inv held takeWhile_eq_all_conv [THEN iffD2])
  have inv': "index_inv (index_remove_worker d idx)"
    unfolding idx_def by (rule idx.inv_forget [OF idx.inv_match [OF inv]])
  have held': "holds (index_remove_worker d idx) v h \<longleftrightarrow> v = s \<and> h \<in> set c" for v h
    using assms(1) by (auto simp: idx_def idx.believes_forget idx.inv_match inv idx.believes_match held)
  show "fst (longest_match t3 s c (index_remove_worker d idx)) = length c"
    by (simp add: idx.match_value inv' held' takeWhile_eq_all_conv [THEN iffD2])
  show "fst (longest_match t4 2 c (snd (longest_match t3 s c (index_remove_worker d idx)))) = 0"
    using assms(2) by (cases c) (simp_all add: idx.match_value idx.inv_match inv' idx.believes_match held')
qed

lemma reconcile_adds_and_removes_workers_passes:
  assumes "first \<in> {[test_url ''10.0.0.1'', test_url ''10.0.0.2''], [test_url ''10.0.0.2'', test_url ''10.0.0.1'']}"
    and "third \<in> {[test_url ''10.0.0.2'', test_url ''10.0.0.3''], [test_url ''10.0.0.3'', test_url ''10.0.0.2'']}"
  shows "reconcile_adds_and_removes_workers clk first third"
proof -
  define c where "c = chain_hash (ascii ''shared prompt'') 512"
  have c: "c \<noteq> []" by (simp add: c_def chain_hash_eq_Nil ascii_def)
  define u1 u2 u3 where u: "u1 = test_url ''10.0.0.1''" "u2 = test_url ''10.0.0.2''" "u3 = test_url ''10.0.0.3''"
  have ne: "u1 \<noteq> u2" "u2 \<noteq> u1" "u2 \<noteq> u3" "u3 \<noteq> u2" by (simp_all add: u test_url_def)
  have first: "first = [u1, u2] \<or> first = [u2, u1]" and third: "third = [u2, u3] \<or> third = [u3, u2]"
    using assms by (simp_all add: u)
  note eval = first_round second_round third_round ne affinity_along [OF _ _ _ c] hm_get_def
  show ?thesis
    using first
  proof
    assume "first = [u1, u2]"
    with third show ?thesis
      unfolding reconcile_adds_and_removes_workers_def c_def [symmetric] u [symmetric] Let_def case_prod_beta
      by (elim disjE) (simp_all add: eval)
  next
    assume "first = [u2, u1]"
    with third show ?thesis
      unfolding reconcile_adds_and_removes_workers_def c_def [symmetric] u [symmetric] Let_def case_prod_beta
      by (elim disjE) (simp_all add: eval)
  qed
qed

end
