(* ===== verification/Spec2Isabelle.thy ===== *)
theory Spec2Isabelle
  imports Prelude F64 Hashing Config Request Registry PrefixIndex Inflight Router
    Routing Policies Metrics App Health Discovery Prometheus_Text Engine_Metrics Api
    Streaming Chat Counting PyBindings Tasks System
    Accounting Runs Startup Preemption Tests_Core Tests_State Tests_Router Tests_Server
begin

text \<open>
  Verification of kvRouteRS, a router for LLM inference servers that sends a request to the worker
  most likely to hold the KV cache of its prompt. The source is \<open>src/crates\<close>: \<open>router-core\<close> (the
  routing logic), \<open>router-server\<close> (the HTTP server and its background tasks) and \<open>router-py\<close> (Python
  bindings). This file imports every theory of the development, states the properties that span
  components and describes the whole.

  \<^bold>\<open>How the program works.\<close> A prompt is split into blocks and hashed into a chain (\<open>hashing.rs\<close>,
  \<open>request.rs\<close>). The prefix index (\<open>prefix.rs\<close>) remembers, per block hash, the workers believed to
  hold it. The router (\<open>router.rs\<close>) scores the healthy workers of the registry (\<open>worker.rs\<close>) by
  matched blocks and requests in flight (\<open>inflight.rs\<close>), picks the best, and records the chain for
  it. The handlers (\<open>api.rs\<close>) route, forward to the chosen worker while holding an in-flight guard,
  and stream the answer back. Beside them run the health poller (\<open>health.rs\<close>), Kubernetes discovery
  (\<open>discovery.rs\<close>), the engine metrics scraper (\<open>engine_metrics.rs\<close>) and the eviction task, all on
  one shared state (\<open>state.rs\<close>).

  \<^bold>\<open>Theories and what they model.\<close>
  \<^item> \<^bold>\<open>Prelude\<close>: machine types, instants, hash maps as association lists in an unspecified order,
    \<open>chunks\<close>, \<open>windows\<close>, \<open>max_by\<close>, decimal printing, and the lemmas on them; the locale
    \<open>comparator\<close>. \<^bold>\<open>F64\<close>: binary64 as rationals with signed zero, infinities and NaN, correctly
    rounded.
  \<^item> \<^bold>\<open>Hashing\<close> (\<open>hashing.rs\<close>): SipHash-1-3 written out and \<open>chain_hash\<close>. \<^bold>\<open>Request\<close> (\<open>request.rs\<close>):
    requests and \<open>canonical_prompt\<close>. \<^bold>\<open>Config\<close> (\<open>config.rs\<close>, \<open>error.rs\<close>): configuration, defaults,
    validation, errors and their messages.
  \<^item> \<^bold>\<open>Registry\<close> (\<open>worker.rs\<close>): the locale \<open>worker_set\<close> is its contract. \<^bold>\<open>PrefixIndex\<close> (\<open>prefix.rs\<close>):
    64 shards, one definition per lock section; the locales \<open>belief_index\<close> and \<open>bounded_index\<close>.
    \<^bold>\<open>Preemption\<close>: the eviction sweep with other operations running between its lock sections.
    \<^bold>\<open>Inflight\<close> (\<open>inflight.rs\<close>): 64-bit counters that wrap, and the guard; the locale \<open>load_tracker\<close>.
    Each locale is interpreted on the model in the same theory (\<open>reg\<close>, \<open>idx\<close>, \<open>fl\<close>), and the clients
    use the contract only.
  \<^item> \<^bold>\<open>Router\<close>, \<^bold>\<open>Routing\<close>, \<^bold>\<open>Policies\<close> (\<open>router.rs\<close>): candidate order, score and the two selection
    functions; the outcomes of a selection; the policies in depth.
  \<^item> \<^bold>\<open>Metrics\<close> (\<open>metrics.rs\<close>), \<^bold>\<open>App\<close> (\<open>state.rs\<close>, \<open>kv_transfer.rs\<close>), \<^bold>\<open>Health\<close>, \<^bold>\<open>Discovery\<close>,
    \<^bold>\<open>Prometheus_Text\<close>, \<^bold>\<open>Engine_Metrics\<close>: the shared state and the background tasks.
  \<^item> \<^bold>\<open>Api\<close>, \<^bold>\<open>Streaming\<close>, \<^bold>\<open>Chat\<close> (\<open>api.rs\<close>): errors and plain endpoints; the stream forwarded to the
    client as a state machine; the chat handlers. \<^bold>\<open>Counting\<close>: the outcomes they count.
  \<^item> \<^bold>\<open>Tasks\<close>: the chat handlers cut at their await points; run without interruption they are the
    handlers of \<open>Chat\<close>. \<^bold>\<open>System\<close>: the running server as a
    transition system over those segments and the steps of the background tasks, its invariant and
    what a step does to identifiers and health. \<^bold>\<open>Accounting\<close>: the in-flight slots held by
    suspended handlers and open responses, and that every step keeps the account. \<^bold>\<open>Runs\<close>: what
    holds in every reachable state and along every run.
  \<^item> \<^bold>\<open>Startup\<close> (\<open>serve\<close> in \<open>router-server/src/lib.rs\<close>, \<open>build_router\<close> in \<open>api.rs\<close>): environment
    variables and their defaults, the socket address, the order of the fallible steps, the tasks
    spawned, and the route table.
  \<^item> \<^bold>\<open>PyBindings\<close> (\<open>router-py/src/lib.rs\<close>): both Python classes.
  \<^item> \<^bold>\<open>Tests_Core\<close>, \<^bold>\<open>Tests_State\<close>, \<^bold>\<open>Tests_Router\<close>, \<^bold>\<open>Tests_Server\<close>: the unit tests of the repository as
    boolean definitions, each proved to hold of the model; they tie the model to the behaviour the
    authors expect. The concurrent test is proved for every schedule of its tasks.

  \<^bold>\<open>Correspondence.\<close> A struct is a record, an enum a datatype, with the names of the source where HOL
  allows. \<open>u64\<close> counters and identifiers are 64-bit words; \<open>usize\<close> lengths are natural numbers. A
  method on shared state takes the state and returns it updated. \<open>Result\<close> is a sum with the error
  left, a panic is a value of its own where the source can reach one. The clock is an argument: an
  operation that reads it several times takes the readings as a function of the reading's number.
  Network replies, YAML and JSON decoding, header validation, the Kubernetes watch and the KV
  transfer are third-party or external: arguments, never assumed to do anything in particular (but
  for \<open>Counting\<close>, where the KV connector reports its failures with the error made for them).

  \<^bold>\<open>What is shown.\<close>
  \<^item> Cache affinity, end to end: chains agree as far as prompts agree (\<open>Hashing\<close>, up to collisions of
    the hash, which exist), a growing conversation keeps its chain (\<open>Request\<close>), what is recorded
    matches and nothing else changes (\<open>PrefixIndex\<close>, also under every interleaving of lock sections),
    and a follow-up turn reaches a worker that holds the earlier prompt, under cache-aware routing
    with the default weights as long as the earlier worker is a candidate, still credited and no
    busier than any other (below).
  \<^item> Routing: only healthy workers, exact error cases, optimality of the choice, also when scores
    overflow, exact arithmetic under the default weights, cyclic round robin.
  \<^item> Requests: every in-flight slot is released, and every request is counted once under the outcome
    it had, but for refused response headers and clients that leave early.
  \<^item> Bounds: eviction leaves at most the configured entries (preempted, plus the blocks recorded
    meanwhile), scores stay finite for weights up to \<open>2 ^ 900\<close>, hit rates lie between zero and one.
  \<^item> Start-up: the server comes up exactly when each fallible step succeeds, spawns nothing before,
    and then is an initial state of the transition system.
  \<^item> The running server, with atomic segments (see below): in every reachable state only healthy
    registered workers are credited, and every in-flight count equals the slots held, through
    errors, cancelled handlers and disconnecting clients; with discovery, as long as at most 16
    identifiers belong to workers no longer discovered. Health changes only in probes, and an identifier never names two workers.
  \<^item> The Python router: after any calls, a routing call returns a listed worker or raises
    \<open>PolicyError\<close>; it never panics.
  \<^item> What the code does not do as documented: the theorems whose text says so (collisions, forged
    turns, overflowing scores, the preempted selection and sweep, untracked and wrapped counters, watch restarts and
    relists, split stream markers, timestamps read as values, a panicking constructor, and a worker
    whose failures attract the retries of the same prompt).

  \<^bold>\<open>Bounds and fuel.\<close> Nothing is fuelled but runs whose length a client or the environment decides.
  \<open>proxy_polls n\<close> polls a response \<open>n\<close> times; two more polls than the upstream has items reach its
  end. \<open>run_progress n\<close> resumes a handler \<open>n\<close> times; three always suffice. The endless loops of the
  background tasks are steps of the transition system. Identifiers and open requests are assumed to
  stay below \<open>2 ^ 64\<close>; where a property needs it, it says so.

  \<^bold>\<open>Atomicity.\<close> \<open>System\<close> interleaves whole segments between awaits, as an executor with one thread
  does, while \<open>main.rs\<close> starts a runtime with several. What is proved of reachable states and runs
  (\<open>Accounting\<close>, \<open>Runs\<close>) holds for the schedules in which no thread is preempted by another inside a
  segment: not between the reading of the healthy workers and the recording of the chain in a
  selection, not between \<open>reconcile\<close> and \<open>ensure_capacity\<close> in a watch event. What preemption inside a
  selection breaks is stated as a property in \<open>Runs\<close>. The lock sections of \<open>prefix.rs\<close> are
  interleaved freely in \<open>PrefixIndex\<close> and, from the end of the age collection on, in \<open>Preemption\<close>.

  \<^bold>\<open>Not modelled.\<close> Log records and tracing spans; the HTTP server and client, TLS provider and
  shutdown signal in \<open>lib.rs\<close> and \<open>main.rs\<close>; the rendering of metrics by the exporter; Python module
  registration and the GIL; lock poisoning, which the source ignores; the JSON library and its
  round-trip test; the end-to-end test, the mock worker and the deployment files. None of them
  carries routing state.
\<close>

section \<open>Conversations stay where their cache is\<close>

text \<open>
  C1: follow-up turns hit the cache. Under cache-aware routing with the default weights, if the
  worker that served a conversation is still a candidate, still credited with what that turn
  recorded, and has no more requests in flight than any other candidate, then the next turn of
  the conversation goes to a worker that matches at least every whole block of the first turn's
  prompt.
\<close>

theorem followup_hits_cache:
  assumes "router_inv r" and "rt_policy r = CacheAware" and "select_for_chat clk reg q r = (Inr d, r1)"
    and "messages q \<noteq> []" and "messages q' = messages q @ new"
    and "router_inv r2" and "rt_policy r2 = CacheAware" and "block_size r2 = block_size r"
    and "cache_weight r2 = default_cache_weight" and "load_weight r2 = default_load_weight"
    and "\<forall>h. holds (rt_index r1) (wid (d_worker d)) h \<longrightarrow> holds (rt_index r2) (wid (d_worker d)) h"
    and "d_worker d \<in> set (chat_candidates (healthy_workers reg2))"
    and "\<forall>v \<in> set (chat_candidates (healthy_workers reg2)).
           inflight_count (rt_inflight r2) (wid (d_worker d)) \<le> inflight_count (rt_inflight r2) (wid v)
           \<and> unat (inflight_count (rt_inflight r2) (wid v)) \<le> 2 ^ 52"
    and "length (chain_of r2 q') \<le> 2 ^ 52"
    and "select_for_chat clk2 reg2 q' r2 = (Inr d', r3)"
  shows "length (canonical_prompt q) div block_size r \<le> matched_prefix_len d'"
proof -
  let ?k = "length (canonical_prompt q) div block_size r" and ?w = "wid (d_worker d)" and ?c = "chain_of r2 q'"
  have bs: "0 < block_size r" using assms(1) by (simp add: router_inv_def)
  have ne: "healthy_workers reg \<noteq> []" and ne2: "healthy_workers reg2 \<noteq> []"
    using assms(3,15) select_for_chat_none [of reg clk q r] select_for_chat_none [of reg2 clk2 q' r2] by auto
  have "decided ?w (chain_of r q) r r1"
    using select_for_chat_ok [OF assms(1) ne, of clk q] assms(2,3) by (metis Pair_inject routing_policy.distinct(5) sum.inject(2))
  then have held: "holds (rt_index r2) ?w h" if "h \<in> set (chain_of r q)" for h
    using assms(11) that by (auto simp: decided_def)
  have same: "take ?k ?c = take ?k (chain_of r q)"
    unfolding assms(8) by (rule extended_prompt_shares_chain [OF bs assms(4,5) refl])
  have len: "?k \<le> length (chain_of r q)"
    using bs by (simp add: chain_hash_def blocks_of_def length_chunks div_le_mono)
  have "?k \<le> length ?c"
    using arg_cong [OF same, of length] len by simp
  moreover have "holds (rt_index r2) ?w h" if "h \<in> set (take ?k ?c)" for h
    using held that unfolding same by (meson in_set_takeD)
  moreover have idx: "index_inv (rt_index r2)" using assms(6) by (simp add: router_inv_def)
  ultimately have mine: "?k \<le> match_len r2 ?w ?c"
    using idx.match_ge_iff [OF idx, of ?k t ?w ?c for t] idx.match_value [OF idx, of t ?w ?c for t]
    unfolding match_len_def by metis
  note best = chosen_gain [OF assms(6,7,9,10,14) _ assms(15,12)]
  have "matched_prefix_len d' = match_len r2 (wid (d_worker d')) ?c" and mem: "d_worker d' \<in> set (chat_candidates (healthy_workers reg2))"
    using select_for_chat_ok [OF assms(6) ne2, of clk2 q'] assms(7,15) by (metis Pair_inject routing_policy.distinct(5) sum.inject(2))+
  moreover have "gain r2 ?c (d_worker d) \<le> gain r2 ?c (d_worker d')"
    using best assms(13) by auto
  moreover have "unat (inflight_count (rt_inflight r2) ?w) \<le> unat (inflight_count (rt_inflight r2) (wid (d_worker d')))"
    using assms(13) mem by (simp add: word_le_nat_alt)
  ultimately show ?thesis using mine unfolding gain_def by linarith
qed

definition four_char_router :: router where
  "four_char_router = router_new ((sample_config CacheAware)\<lparr>prompt_block_chars := 4\<rparr>)"

theorem followup_hits_cache_witness:
  "\<exists>d r1 d' r3. select_for_chat Instant (sample_registry 2) (sample_request (ascii ''hi'') []) four_char_router = (Inr d, r1)
     \<and> select_for_chat Instant (sample_registry 2) (sample_request (ascii ''hi'') [ascii ''yo'']) r1 = (Inr d', r3)
     \<and> 2 \<le> matched_prefix_len d'"
proof -
  let ?r = four_char_router and ?q = "sample_request (ascii ''hi'') []"
    and ?q' = "sample_request (ascii ''hi'') [ascii ''yo'']"
  have ne: "healthy_workers (sample_registry 2) \<noteq> []" using sample_registry_healthy(2) by auto
  have r: "router_inv ?r" "rt_policy ?r = CacheAware" "block_size ?r = 4" "cache_weight ?r = default_cache_weight"
    "load_weight ?r = default_load_weight" "inflight_count (rt_inflight ?r) v = 0" for v
    by (simp_all add: four_char_router_def router_inv_new)
      (simp_all add: router_new_def sample_config_def inflight_count_def with_capacity_def)
  have pol: "rt_policy ?r \<noteq> Disaggregated" by (simp add: r)
  obtain d r1 where sel: "select_for_chat Instant (sample_registry 2) ?q ?r = (Inr d, r1)"
    and cand: "d_worker d \<in> set (chat_candidates (healthy_workers (sample_registry 2)))"
    and dec: "decided (wid (d_worker d)) (chain_of ?r ?q) ?r r1"
    by (rule select_for_chat_ok [OF r(1) ne pol, of Instant ?q])
  from dec obtain i n where r1: "r1 = ?r\<lparr>rt_index := i, next_worker := n\<rparr>" and inv: "router_inv r1"
    unfolding decided_def by blast
  have pol1: "rt_policy r1 = CacheAware" and bs: "block_size r1 = 4"
    and weights: "cache_weight r1 = default_cache_weight" "load_weight r1 = default_load_weight"
    and idle: "inflight_count (rt_inflight r1) v = 0" for v
    unfolding r1 using r by simp_all
  have pol1': "rt_policy r1 \<noteq> Disaggregated" by (simp add: pol1)
  obtain d' r3 where sel': "select_for_chat Instant (sample_registry 2) ?q' r1 = (Inr d', r3)"
    by (rule select_for_chat_ok [OF inv ne pol1', of Instant ?q'])
  have msgs: "messages ?q \<noteq> []" "messages ?q' = messages ?q @ tl (messages ?q')"
    by (simp_all add: sample_request_def)
  have len: "length (chain_of r1 ?q') \<le> 2 ^ 52"
    unfolding bs by (simp add: chain_hash_def blocks_of_def length_chunks canonical_prompt_def sample_request_def ascii_def Let_def)
  have two: "length (canonical_prompt ?q) div block_size ?r = 2"
    by (simp add: r(3) canonical_prompt_def sample_request_def ascii_def Let_def)
  show ?thesis
    using followup_hits_cache [OF r(1,2) sel msgs inv pol1 _ weights _ cand _ len sel'] sel sel'
    by (auto simp: idle bs r(3) two [unfolded r(3)])
qed

section \<open>Failing workers keep their traffic\<close>

text \<open>A request that reached a worker and came back with 502 leaves the router as routing left it.\<close>

lemma failed_request_router:
  assumes "cfg_policy (app_config st) = CacheAware" and "rt_policy (app_router st) = CacheAware"
    and "router_inv (app_router st)"
    and "chat_completions env clk1 clk2 ms (Inr q) st = (Inl e, st')" and "ae_status e = 502"
  obtains d r where "select_for_chat clk1 (app_registry st) q (app_router st) = (Inr d, r)"
    and "app_router st' = r" and "app_registry st' = app_registry st"
proof -
  obtain out r where sel: "select_for_chat clk1 (app_registry st) q (app_router st) = (out, r)" by fastforce
  have run: "serve_proxied env clk1 q st = (Inl e, st')"
    using assms(1,4) by (simp add: chat_completions_def)
  show thesis
  proof (cases out)
    case (Inl err)
    then have "err = NoHealthyWorkers (policy_to_string CacheAware)"
      using routing_errors [OF assms(3), of clk1 "app_registry st" q err r] sel assms(2) by (auto split: if_splits)
    then have "ae_status e = 503"
      using run sel Inl by (auto simp: serve_proxied_def api_no_healthy_workers_def api_error_new_def)
    then show thesis using assms(5) by simp
  next
    case (Inr d)
    let ?w = "wid (d_worker d)" and ?acq = "acquire_slot (wid (d_worker d)) (with_router r st)"
    have fwd: "forward_to env None ''upstream returned '' d Single (stream q) (fst ?acq) (snd ?acq) = (Inl e, st')"
      using run sel Inr by (simp add: serve_proxied_def case_prod_beta)
    have "ae_status x = 500" if "build_response env up t hit tokens b = Inl x" for up t hit tokens b x
      using that by (auto simp: build_response_def api_error_new_def Let_def split: if_splits)
    then obtain u k where st': "st' = release_slot (fst ?acq) (count_outcome u k (snd ?acq))"
      using fwd assms(5) by (fastforce simp: forward_to_def Let_def split: sum.splits if_splits)
    have "app_router st' = app_router (release_slot (fst ?acq) (snd ?acq))"
      by (simp add: st' release_slot_def count_outcome_def with_router_def)
    then have "app_router st' = r" by (simp add: release_acquired with_router_def)
    moreover have "app_registry st' = app_registry st"
      by (simp add: st' release_slot_def count_outcome_def with_router_def acquire_slot_def Let_def case_prod_beta)
    ultimately show thesis using sel Inr by (intro that) simp_all
  qed
qed

text \<open>
  C25: a failing worker keeps its traffic. The chain is recorded when a request is dispatched, and a
  failed request does not take it back. So under cache-aware routing with the default weights, after
  a request came back with 502 (the worker unreachable, or answering with an error), a retry of the
  same prompt, with no other change in between, is sent to the same worker, now as a full cache hit,
  whatever idle workers there are. (That match also renews the entries: \<open>matched_blocks_survive_sweep\<close>
  in \<open>PrefixIndex\<close>, so retries keep the wrong belief from expiring.)
\<close>

theorem failed_worker_attracts_retry:
  assumes "app_inv st" and "cfg_policy (app_config st) = CacheAware" and "rt_policy (app_router st) = CacheAware"
    and "cache_weight (app_router st) = default_cache_weight" and "load_weight (app_router st) = default_load_weight"
    and "length (chain_of (app_router st) q) \<le> 2 ^ 52"
    and "\<forall>v \<in> set (chat_candidates (healthy_workers (app_registry st))).
           unat (inflight_count (rt_inflight (app_router st)) (wid v)) \<le> 2 ^ 52"
    and "chat_completions env clk1 clk2 ms (Inr q) st = (Inl e, st')" and "ae_status e = 502"
    and "select_for_chat clk (app_registry st') q (app_router st') = (Inr d', r')"
  shows "(\<exists>d r. select_for_chat clk1 (app_registry st) q (app_router st) = (Inr d, r) \<and> d_worker d' = d_worker d)
    \<and> matched_prefix_len d' = prompt_blocks d'"
proof -
  have reg: "reg_inv (app_registry st)" and rt: "router_inv (app_router st)"
    using assms(1) by (simp_all add: app_inv_def)
  obtain d r where sel: "select_for_chat clk1 (app_registry st) q (app_router st) = (Inr d, r)"
    and st': "app_router st' = r" "app_registry st' = app_registry st"
    by (rule failed_request_router [OF assms(2,3) rt assms(8,9)])
  note repeat = repeated_choice [OF rt assms(3) reg assms(4-7) sel assms(10) [unfolded st']]
  then show ?thesis using sel by blast
qed

theorem failed_worker_attracts_retry_witness:
  "\<exists>e st' d' r'. chat_completions dead_network Instant Instant 0 (Inr (sample_request (ascii ''hi'') [])) (sample_app CacheAware)
       = (Inl e, st') \<and> ae_status e = 502
     \<and> select_for_chat Instant (app_registry st') (sample_request (ascii ''hi'') []) (app_router st') = (Inr d', r')
     \<and> matched_prefix_len d' = prompt_blocks d'"
proof -
  let ?st = "sample_app CacheAware" and ?q = "sample_request (ascii ''hi'') []"
  have inv: "app_inv ?st" by (rule sample_app_inv)
  have config: "cfg_policy (app_config ?st) = CacheAware" and router: "app_router ?st = router_new (sample_config CacheAware)"
    and reg: "app_registry ?st = sample_registry 2"
    by (simp_all add: sample_app_def sample_config_def)
  have ne: "healthy_workers (sample_registry 2) \<noteq> []" using sample_registry_healthy(2) by auto
  obtain d r where sel: "select_for_chat Instant (sample_registry 2) ?q (router_new (sample_config CacheAware)) = (Inr d, r)"
    using select_for_chat_ok [OF sample_router_inv ne] sample_policy by (metis routing_policy.distinct(5))
  obtain res st' where run: "chat_completions dead_network Instant Instant 0 (Inr ?q) ?st = (res, st')" by fastforce
  then obtain e where e: "res = Inl e" "ae_status e = 502"
    using sel config by (auto simp: chat_completions_def serve_proxied_def router reg forward_to_def dead_network_def
        api_upstream_def api_error_new_def Let_def case_prod_beta)
  have st': "app_router st' = r" "app_registry st' = sample_registry 2"
    using failed_request_router [OF config _ _ run [unfolded e(1)] e(2)] sample_policy sample_router_inv sel
    unfolding router reg by (metis Pair_inject)+
  have "router_inv r \<and> rt_policy r \<noteq> Disaggregated"
    using select_for_chat_ok [OF sample_router_inv ne, of CacheAware Instant ?q] sel sample_policy decided_frame(1,2)
    by (metis Pair_inject routing_policy.distinct(5))
  then obtain d' r' where again: "select_for_chat Instant (app_registry st') ?q (app_router st') = (Inr d', r')"
    using select_for_chat_ok [OF _ ne] unfolding st' by metis
  have "matched_prefix_len d' = prompt_blocks d'"
    using failed_worker_attracts_retry [OF inv config _ _ _ _ _ run [unfolded e(1)] e(2) again]
      sample_policy sample_weights short_prompt_chain by (simp add: router)
  then show ?thesis using run e again by blast
qed

end
